(* ===== verification/Prelude.thy ===== *)
theory Prelude
  imports Main "HOL-Library.Word"
begin

text \<open>
  Shared vocabulary of the development: the C++ scalar types the code uses, the
  ways a call can end, raw memory with bounds, and the byte order of an int on
  the wire. \<open>model_simps\<close> collects the rewrite rules that run a model function
  on known inputs; \<open>mem_simps\<close> those that discharge memory accesses.
\<close>

named_theorems model_simps "rules that execute the model on known inputs"
named_theorems mem_simps "rules that discharge bounds of memory accesses"

section \<open>Scalars and outcomes\<close>

type_synonym bytes = string     \<comment> \<open>std::string and char arrays: a char is one byte\<close>
type_synonym i32 = "32 word"    \<comment> \<open>int\<close>
type_synonym i64 = "64 word"    \<comment> \<open>long\<close>
type_synonym size_t = "64 word" \<comment> \<open>size\_t\<close>

text \<open>
  What the C++ code may run into beyond returning or throwing. A fault is a point
  the language gives no meaning to, or at which the process aborts: the model
  stops there.
\<close>

datatype fault =
    OutOfBounds      \<comment> \<open>access outside an array\<close>
  | BadAlloc         \<comment> \<open>\<open>new char[n]\<close> with a negative n\<close>
  | AssertFailed     \<comment> \<open>a failed \<open>assert\<close>\<close>
  | NullDeref        \<comment> \<open>method call on a null pointer\<close>
  | FatalLog         \<comment> \<open>\<open>LOG(FATAL)\<close>\<close>
  | UseAfterFree     \<comment> \<open>access to a deleted object\<close>
  | IntOverflow      \<comment> \<open>a signed result out of range\<close>
  | Uninitialised    \<comment> \<open>use of a variable without a value\<close>
  | Terminate        \<comment> \<open>an exception that no handler of the thread catches\<close>

text \<open>
  How a call ends: with a value, with an exception, with a fault; or it is still
  waiting when the scripted environment (the results of the system calls) is used up.
\<close>

datatype ('x, 'a) outcome = Returns 'a | Throws 'x | Faults fault | Waits

fun obind :: "('x, 'a) outcome \<Rightarrow> ('a \<Rightarrow> ('x, 'b) outcome) \<Rightarrow> ('x, 'b) outcome" where
  "obind (Returns a) f = f a"
| "obind (Throws x) f = Throws x"
| "obind (Faults u) f = Faults u"
| "obind Waits f = Waits"

lemma obind_Returns_iff:
  "obind m f = Returns b \<longleftrightarrow> (\<exists>a. m = Returns a \<and> f a = Returns b)"
  by (cases m) auto

lemma obind_Throws_iff:
  "obind m f = Throws x \<longleftrightarrow> m = Throws x \<or> (\<exists>a. m = Returns a \<and> f a = Throws x)"
  by (cases m) auto

text \<open>The same with a state that survives an exception.\<close>

fun pbind :: "('x, 'a) outcome \<times> 's \<Rightarrow> ('a \<Rightarrow> 's \<Rightarrow> ('x, 'b) outcome \<times> 's) \<Rightarrow> ('x, 'b) outcome \<times> 's"
where
  "pbind (Returns a, s) f = f a s"
| "pbind (Throws x, s) f = (Throws x, s)"
| "pbind (Faults u, s) f = (Faults u, s)"
| "pbind (Waits, s) f = (Waits, s)"

lemma pbind_Throws_iff:
  "pbind m f = (Throws x, t) \<longleftrightarrow>
     m = (Throws x, t) \<or> (\<exists>a s. m = (Returns a, s) \<and> f a s = (Throws x, t))"
  by (cases "(m, f)" rule: pbind.cases) auto

lemma pbind_Returns_iff:
  "pbind m f = (Returns b, t) \<longleftrightarrow> (\<exists>a s. m = (Returns a, s) \<and> f a s = (Returns b, t))"
  by (cases "(m, f)" rule: pbind.cases) auto

lemma pbind_state:
  assumes "pbind m f = (r, t)"
  shows "(\<exists>a s. m = (Returns a, s) \<and> f a s = (r, t)) \<or> snd m = t \<and> \<not> (\<exists>a. fst m = Returns a) \<and> \<not> (\<exists>b. r = Returns b)"
  using assms by (cases "(m, f)" rule: pbind.cases) auto

section \<open>A loop that may not end\<close>

text \<open>
  \<open>while (true)\<close> with a body that leaves the loop (\<open>Inl\<close>) or goes round with a new state
  (\<open>Inr\<close>); \<open>None\<close> when it goes round for ever.
\<close>

partial_function (option) forever :: "('s \<Rightarrow> 'r + 's) \<Rightarrow> 's \<Rightarrow> 'r option" where
  "forever body s = (case body s of Inl r \<Rightarrow> Some r | Inr s' \<Rightarrow> forever body s')"

lemma forever_result:
  assumes run: "forever body s = Some r"
    and step: "\<And>s s'. P s \<Longrightarrow> body s = Inr s' \<Longrightarrow> P s'"
    and stop: "\<And>s r. P s \<Longrightarrow> body s = Inl r \<Longrightarrow> Q r"
    and start: "P s"
  shows "Q r"
proof -
  have "body = body \<longrightarrow> P s \<longrightarrow> Q r"
  proof (rule forever.raw_induct [where P = "\<lambda>b s r. b = body \<longrightarrow> P s \<longrightarrow> Q r", OF _ run])
    fix loop b s r
    assume IH: "\<And>b s r. loop b s = Some r \<Longrightarrow> b = body \<longrightarrow> P s \<longrightarrow> Q r"
      and eq: "(case b s of Inl r \<Rightarrow> Some r | Inr s' \<Rightarrow> loop b s') = Some r"
    then show "b = body \<longrightarrow> P s \<longrightarrow> Q r"
      using step stop by (cases "b s") auto
  qed
  then show ?thesis
    using start by simp
qed

lemma forever_diverges:
  assumes "\<And>s. P s \<Longrightarrow> \<exists>s'. body s = Inr s' \<and> P s'" and "P s"
  shows "forever body s = None"
proof (rule ccontr)
  assume "forever body s \<noteq> None"
  then obtain r where "forever body s = Some r" by blast
  then have False
    using forever_result [of body s r P "\<lambda>_. False"] assms by force
  then show False .
qed

lemma forever_never_stops: "(\<And>s. \<exists>s'. body s = Inr s') \<Longrightarrow> forever body s = None"
  using forever_diverges [of "\<lambda>_. True" body s] by simp

section \<open>Raw memory\<close>

text \<open>
  An array is the list of its bytes. \<open>new char[n]\<close> leaves the bytes undetermined: the
  function \<open>junk\<close> says what they happen to be, and every statement holds for all of them.
\<close>

definition fresh :: "(nat \<Rightarrow> char) \<Rightarrow> nat \<Rightarrow> bytes" where
  "fresh junk n = map junk [0..<n]"

lemma length_fresh [simp]: "length (fresh junk n) = n"
  by (simp add: fresh_def)

text \<open>\<open>memcpy (dst + d, src + s, n)\<close>: a fault when either range leaves its array.\<close>

definition memcpy :: "bytes \<Rightarrow> nat \<Rightarrow> bytes \<Rightarrow> nat \<Rightarrow> nat \<Rightarrow> fault + bytes" where
  "memcpy dst d src s n =
     (if d + n \<le> length dst \<and> s + n \<le> length src
      then Inr (take d dst @ take n (drop s src) @ drop (d + n) dst)
      else Inl OutOfBounds)"

lemma memcpy_Inr [mem_simps]:
  "d + n \<le> length dst \<Longrightarrow> s + n \<le> length src \<Longrightarrow>
   memcpy dst d src s n = Inr (take d dst @ take n (drop s src) @ drop (d + n) dst)"
  by (simp add: memcpy_def)

lemma memcpy_Inl [mem_simps]:
  "length dst < d + n \<or> length src < s + n \<Longrightarrow> memcpy dst d src s n = Inl OutOfBounds"
  by (auto simp: memcpy_def)

text \<open>What a read of \<open>n\<close> bytes leaves in a reused array: the new bytes, then the stale ones.\<close>

definition overlay :: "bytes \<Rightarrow> bytes \<Rightarrow> bytes" where
  "overlay bs arr = bs @ drop (length bs) arr"

lemma length_overlay [simp]: "length bs \<le> length arr \<Longrightarrow> length (overlay bs arr) = length arr"
  by (simp add: overlay_def)

lemma take_overlay [simp]: "take (length bs) (overlay bs arr) = bs"
  by (simp add: overlay_def)

lemma overlay_all [simp]: "length arr \<le> length bs \<Longrightarrow> overlay bs arr = bs"
  by (simp add: overlay_def)

lemma take_min_length [simp]:
  "take (min n (length xs)) xs = take n xs" "take (min (length xs) n) xs = take n xs"
  by (simp_all add: min_def)

text \<open>
  A C string: the bytes before the first NUL. \<open>None\<close> when the array holds no NUL, that is,
  when the scan runs past the end of the array.
\<close>

definition NUL :: char where "NUL = CHR 0x00"

fun cstring :: "bytes \<Rightarrow> bytes option" where
  "cstring [] = None"
| "cstring (c # cs) = (if c = NUL then Some [] else map_option (Cons c) (cstring cs))"

lemma cstring_None_iff: "cstring cs = None \<longleftrightarrow> NUL \<notin> set cs"
  by (induction cs) auto

lemma cstring_append:
  "NUL \<notin> set xs \<Longrightarrow> cstring (xs @ ys) = map_option (append xs) (cstring ys)"
proof (induction xs)
  case Nil
  show ?case by (cases "cstring ys") simp_all
next
  case (Cons x xs)
  then show ?case by (cases "cstring ys") auto
qed

lemma drop_fresh: "drop k (fresh junk n) = map junk [k..<n]"
  by (simp add: fresh_def drop_map drop_upt)

text \<open>Two extreme kinds of junk: memory without a NUL, and zeroed memory.\<close>

lemma cstring_junk: "c \<noteq> NUL \<Longrightarrow> cstring (drop k (fresh (\<lambda>_. c) n)) = None"
  unfolding cstring_None_iff drop_fresh by auto

lemma cstring_zero: "k < n \<Longrightarrow> cstring (drop k (fresh (\<lambda>_. NUL) n)) = Some []"
  unfolding drop_fresh by (subst upt_conv_Cons) simp_all

section \<open>An int on the wire\<close>

text \<open>
  \<open>*(int* )p = size\<close> stores, and \<open>read (fd, &size, 4)\<close> loads, the four bytes of an int in
  the byte order of the host; the model takes the little-endian order of the x86 targets.
\<close>

definition int_bytes :: "i32 \<Rightarrow> bytes" where
  "int_bytes w = [char_of (unat w), char_of (unat w div 256),
                  char_of (unat w div 65536), char_of (unat w div 16777216)]"

fun bytes_int :: "bytes \<Rightarrow> i32" where
  "bytes_int [a, b, c, d] =
     word_of_nat (of_char a + 256 * of_char b + 65536 * of_char c + 16777216 * of_char d)"
| "bytes_int _ = 0"

lemma length_int_bytes [simp]: "length (int_bytes w) = 4"
  by (simp add: int_bytes_def)

lemma four_digits:
  fixes n :: nat
  assumes "n < 4294967296"
  shows "n mod 256 + 256 * (n div 256 mod 256) + 65536 * (n div 65536 mod 256)
     + 16777216 * (n div 16777216 mod 256) = n"
proof -
  define a where "a = n div 256"
  define b where "b = a div 256"
  define c where "c = b div 256"
  have q: "n div 65536 = b" "n div 16777216 = c"
    unfolding a_def b_def c_def by (simp_all add: div_mult2_eq [symmetric])
  have "c < 256"
    using assms unfolding q(2) [symmetric] by (simp add: less_mult_imp_div_less)
  moreover have "n = 256 * a + n mod 256" "a = 256 * b + a mod 256" "b = 256 * c + b mod 256"
    unfolding a_def b_def c_def by simp_all
  ultimately show ?thesis
    unfolding q a_def [symmetric] by (simp add: mod_less)
qed

lemma bytes_int_int_bytes [simp]: "bytes_int (int_bytes w) = w"
proof -
  have "unat w < 4294967296"
    using unsigned_less [of w] by simp
  then have "(of_char (char_of (unat w)) + 256 * of_char (char_of (unat w div 256))
      + 65536 * of_char (char_of (unat w div 65536))
      + 16777216 * of_char (char_of (unat w div 16777216)) :: nat) = unat w"
    using four_digits by simp
  then have "bytes_int (int_bytes w) = word_of_nat (unat w)"
    unfolding int_bytes_def bytes_int.simps by (rule arg_cong)
  then show ?thesis
    by simp
qed

lemma length_4_iff: "length bs = 4 \<longleftrightarrow> (\<exists>a b c d. bs = [a, b, c, d])"
  by (auto simp: length_Suc_conv eval_nat_numeral)

section \<open>Conversions between int and size\_t\<close>

abbreviation to_size :: "i32 \<Rightarrow> size_t" where
  "to_size w \<equiv> scast w"     \<comment> \<open>int to size\_t: sign extension\<close>

lemma uint_to_size: "uint (to_size w) = take_bit 64 (sint w)"
  by transfer simp

lemma unat_to_size: "0 \<le> sint w \<Longrightarrow> unat (to_size w) = nat (sint w)" for w :: i32
proof -
  assume pos: "0 \<le> sint w"
  have "sint w < 2 ^ 31"
    using sint_lt [of w] by simp
  then have "uint (to_size w) = sint w"
    using pos by (simp add: uint_to_size take_bit_eq_mod)
  then show ?thesis
    by (metis unat_eq_nat_uint)
qed

lemma sint_word_of_nat32: "n < 2 ^ 31 \<Longrightarrow> sint (word_of_nat n :: i32) = int n"
proof -
  assume n: "n < 2 ^ 31"
  then have "signed_take_bit 31 (int n) = int n"
    by (simp add: signed_take_bit_int_eq_self)
  then show ?thesis
    by (simp add: signed_of_nat)
qed

lemma word_of_nat_inj32:
  assumes "a < 2 ^ 31" "b < 2 ^ 31"
  shows "(word_of_nat a :: i32) = word_of_nat b \<longleftrightarrow> a = b"
proof
  assume "(word_of_nat a :: i32) = word_of_nat b"
  then have "int a = int b"
    by (simp only: sint_word_of_nat32 [OF assms(1), symmetric]
        sint_word_of_nat32 [OF assms(2), symmetric])
  then show "a = b" by simp
qed simp

lemma unat_word_of_nat64: "n < 2 ^ 64 \<Longrightarrow> unat (word_of_nat n :: size_t) = n"
  by (simp add: unat_of_nat take_bit_nat_eq_self)

lemma sint_ucast_small:
  fixes w :: size_t
  assumes "unat w < 2 ^ 31"
  shows "sint (ucast w :: i32) = int (unat w)"
proof -
  have "(ucast w :: i32) = word_of_nat (unat w)"
    by simp
  then show ?thesis
    using sint_word_of_nat32 [OF assms] by simp
qed

lemma unat_add_small:
  fixes a b :: size_t
  shows "unat a + unat b < 2 ^ 64 \<Longrightarrow> unat (a + b) = unat a + unat b"
  by (simp add: unat_word_ariths)

lemma unat_sub_small:
  fixes a b :: size_t
  shows "b \<le> a \<Longrightarrow> unat (a - b) = unat a - unat b"
  by (rule unat_sub)

end
