(* ===== verification/Util.thy ===== *)
theory Util
  imports Prelude
begin

unbundle bit_operations_syntax

text \<open>
  util.hpp: the value of a descriptor that is not open, and the two functions that set and
  clear the O_NONBLOCK flag. The table of the open descriptors maps each to its file
  status flags; \<open>O_NONBLOCK\<close> is a constant of the platform, an argument here.
\<close>

definition UNINIT_SOCKET :: int where "UNINIT_SOCKET = -1"

text \<open>\<open>fcntl\<close> with F_GETFL and F_SETFL: -1, and no effect, on a descriptor that is not open.\<close>

definition fcntl_getfl :: "(int \<rightharpoonup> i32) \<Rightarrow> int \<Rightarrow> i32" where
  "fcntl_getfl fds fd = (case fds fd of None \<Rightarrow> -1 | Some flag \<Rightarrow> flag)"

definition fcntl_setfl :: "(int \<rightharpoonup> i32) \<Rightarrow> int \<Rightarrow> i32 \<Rightarrow> (int \<rightharpoonup> i32)" where
  "fcntl_setfl fds fd flag = (case fds fd of None \<Rightarrow> fds | Some _ \<Rightarrow> fds(fd \<mapsto> flag))"

definition nonblock_fd :: "i32 \<Rightarrow> (int \<rightharpoonup> i32) \<Rightarrow> int \<Rightarrow> (int \<rightharpoonup> i32)" where
  "nonblock_fd O_NONBLOCK fds fd =
     (let flag = fcntl_getfl fds fd; flag = flag OR O_NONBLOCK in fcntl_setfl fds fd flag)"

definition block_df :: "i32 \<Rightarrow> (int \<rightharpoonup> i32) \<Rightarrow> int \<Rightarrow> (int \<rightharpoonup> i32)" where
  "block_df O_NONBLOCK fds fd =
     (let flag = fcntl_getfl fds fd; flag = flag AND NOT O_NONBLOCK in fcntl_setfl fds fd flag)"

lemmas fd_defs = fcntl_getfl_def fcntl_setfl_def nonblock_fd_def block_df_def Let_def

text \<open>
  The two functions touch the flag and nothing else: the flag is set after \<open>nonblock_fd\<close>
  and clear after \<open>block_df\<close>, every other bit of the descriptor keeps its value, and so do
  all other descriptors and the set of the open ones; each undoes the other.
\<close>
theorem nonblock_fd_flag_only:
  "dom (nonblock_fd nb fds fd) = dom fds \<and> dom (block_df nb fds fd) = dom fds
   \<and> (\<forall>fd'. fd' \<noteq> fd \<longrightarrow> nonblock_fd nb fds fd fd' = fds fd' \<and> block_df nb fds fd fd' = fds fd')
   \<and> (\<forall>flag. fds fd = Some flag \<longrightarrow>
        (\<forall>n. bit (the (nonblock_fd nb fds fd fd)) n = (bit flag n \<or> bit nb n)
           \<and> bit (the (block_df nb fds fd fd)) n = (bit flag n \<and> \<not> bit nb n))
        \<and> block_df nb (nonblock_fd nb fds fd) fd fd = block_df nb fds fd fd
        \<and> nonblock_fd nb (block_df nb fds fd) fd fd = nonblock_fd nb fds fd fd)"
  by (auto simp: fd_defs bit_simps bit_eq_iff split: option.splits dest: bit_imp_le_length)

theorem nonblock_fd_flag_only_witness:
  "block_df 2048 (nonblock_fd 2048 [7 \<mapsto> 2] 7) 7 7 = Some 2
   \<and> nonblock_fd 2048 [7 \<mapsto> 2] 7 8 = None \<and> dom (nonblock_fd 2048 [7 \<mapsto> 2] 7) = {7}"
  using nonblock_fd_flag_only [of 2048 "[7 \<mapsto> (2 :: i32)]" 7] by (simp add: fd_defs)

end
