(* ===== verification/Errors.thy ===== *)
theory Errors
  imports Prelude
begin

text \<open>
  errors.hpp and the enumeration of proto.hpp: the exceptions of the library as values,
  with the code that goes on the wire and the text of \<open>what()\<close>. The exceptions of user
  handlers and of the serializers (JConer) are values too, so that a step can say
  which of them a handler clause catches.
\<close>

section \<open>Codes\<close>

definition SOCKET_CLOSED :: i32 where "SOCKET_CLOSED = 1"
definition METHOD_NOT_FOUND :: i32 where "METHOD_NOT_FOUND = 2"
definition JSON_NOT_PARSED :: i32 where "JSON_NOT_PARSED = 3"
definition PARAM_MISMATCH :: i32 where "PARAM_MISMATCH = 4"
definition BAD_MESSAGE :: i32 where "BAD_MESSAGE = 5"
definition BAD_RESPONSE :: i32 where "BAD_RESPONSE = 6"

lemmas proto_codes =
  SOCKET_CLOSED_def METHOD_NOT_FOUND_def JSON_NOT_PARSED_def PARAM_MISMATCH_def
  BAD_MESSAGE_def BAD_RESPONSE_def

section \<open>Exceptions\<close>

datatype server_exception =
    ServerCloseSocketException
  | ServerBadMessageException
  | ServerMethodNotFoundException
  | ServerJsonNotParsedException
  | ServerParamMismatchException

fun get_code :: "server_exception \<Rightarrow> i32" where
  "get_code ServerCloseSocketException = SOCKET_CLOSED"
| "get_code ServerBadMessageException = BAD_MESSAGE"
| "get_code ServerMethodNotFoundException = METHOD_NOT_FOUND"
| "get_code ServerJsonNotParsedException = JSON_NOT_PARSED"
| "get_code ServerParamMismatchException = PARAM_MISMATCH"

fun server_what :: "server_exception \<Rightarrow> string" where
  "server_what ServerCloseSocketException = ''Server closes socket''"
| "server_what ServerBadMessageException = ''Bad message coming''"
| "server_what ServerMethodNotFoundException = ''Method not found in server''"
| "server_what ServerJsonNotParsedException = ''Json not parsed in server''"
| "server_what ServerParamMismatchException = ''Parameters mismatch in server''"

datatype exn =
    Server server_exception              \<comment> \<open>\<open>ServerException\<close> and its subclasses\<close>
  | NoResultException
  | ReadFailException
  | WriteFailException
  | SocketFailException string           \<comment> \<open>the name of the function\<close>
  | HostFailException string string string   \<comment> \<open>description, host, port\<close>
  | SerializeFailException               \<comment> \<open>thrown by the serializers of JConer\<close>
  | RuntimeError string                  \<comment> \<open>\<open>std::runtime_error\<close>\<close>
  | UserException string                 \<comment> \<open>anything else a user's method throws\<close>

fun exn_what :: "exn \<Rightarrow> string option" where
  "exn_what (Server e) = Some (server_what e)"
| "exn_what NoResultException = Some ''No result return from server''"
| "exn_what ReadFailException = Some ''Read function failed''"
| "exn_what WriteFailException = Some ''Write function failed''"
| "exn_what (SocketFailException f) = Some (f @ '' function failed'')"
| "exn_what (HostFailException desc host port) = Some (desc @ ''@'' @ host @ '':'' @ port)"
| "exn_what _ = None"

lemma get_code_inject [simp]: "get_code e = get_code e' \<longleftrightarrow> e = e'"
  by (cases e; cases e') (simp_all add: proto_codes)

lemma get_code_closed [simp]: "get_code e = SOCKET_CLOSED \<longleftrightarrow> e = ServerCloseSocketException"
  by (cases e) (simp_all add: proto_codes)

end
