(* ===== verification/Json.thy ===== *)
theory Json
  imports Errors
begin

text \<open>
  The JSON library JConer, which is not part of this repository: a record of the
  functions the code calls, an argument of every definition that uses them. A \<open>JValue*\<close>
  is a value of the type parameter; a null pointer is \<open>None\<close>. \<open>json_laws\<close> states what
  the code relies on; it is a hypothesis of the theorems that need it.
\<close>

record 'j jconer =
  loads :: "bytes \<Rightarrow> 'j option"               \<comment> \<open>\<open>loads (text, err)\<close>\<close>
  dumps :: "'j \<Rightarrow> bytes"
  isObject :: "'j \<Rightarrow> bool"
  isArray :: "'j \<Rightarrow> bool"
  isInteger :: "'j \<Rightarrow> bool"
  isString :: "'j \<Rightarrow> bool"
  isNull :: "'j \<Rightarrow> bool"
  getInteger :: "'j \<Rightarrow> int"
  getString :: "'j \<Rightarrow> string"
  getKeys :: "'j \<Rightarrow> string list"
  get :: "'j \<Rightarrow> string \<Rightarrow> 'j option"          \<comment> \<open>\<open>v->get (key)\<close>\<close>
  get_at :: "'j \<Rightarrow> nat \<Rightarrow> 'j option"          \<comment> \<open>\<open>v->get (index)\<close>\<close>
  jsize :: "'j \<Rightarrow> nat"                        \<comment> \<open>\<open>v->size()\<close>\<close>
  contain :: "'j \<Rightarrow> string \<Rightarrow> bool"
  new_JObject :: 'j
  put_int :: "'j \<Rightarrow> string \<Rightarrow> i32 \<Rightarrow> 'j"      \<comment> \<open>\<open>put\<close> at the types the code uses it\<close>
  put_long :: "'j \<Rightarrow> string \<Rightarrow> i64 \<Rightarrow> 'j"
  put_size :: "'j \<Rightarrow> string \<Rightarrow> size_t \<Rightarrow> 'j"
  put_value :: "'j \<Rightarrow> string \<Rightarrow> 'j \<Rightarrow> 'j"
  new_OutSerializer :: 'j                     \<comment> \<open>\<open>getContent()\<close> of a fresh \<open>OutSerializer\<close>\<close>

text \<open>
  An object holds under a key what was last put there; what is dumped loads back; an
  integer reads back as the number put. JSON text is not empty and holds no NUL byte.
\<close>

definition puts :: "'j jconer \<Rightarrow> ('j \<Rightarrow> string \<Rightarrow> 'a \<Rightarrow> 'j) \<Rightarrow> ('j \<Rightarrow> 'a \<Rightarrow> bool) \<Rightarrow> bool" where
  "puts J put holds \<longleftrightarrow>
     (\<forall>o' k a. isObject J o' \<longrightarrow>
        isObject J (put o' k a)
        \<and> (\<exists>v. get J (put o' k a) k = Some v \<and> holds v a)
        \<and> (\<forall>k'. k' \<noteq> k \<longrightarrow> get J (put o' k a) k' = get J o' k'))"

definition json_laws :: "'j jconer \<Rightarrow> bool" where
  "json_laws J \<longleftrightarrow>
     (\<forall>v. isObject J v \<longrightarrow> loads J (dumps J v) = Some v) \<and>
     (\<forall>v. dumps J v \<noteq> [] \<and> NUL \<notin> set (dumps J v)) \<and>
     (\<forall>v k. isObject J v \<longrightarrow> (contain J v k \<longleftrightarrow> get J v k \<noteq> None)) \<and>
     isObject J (new_JObject J) \<and> (\<forall>k. get J (new_JObject J) k = None) \<and>
     puts J (put_int J) (\<lambda>v w. isInteger J v \<and> getInteger J v = sint w) \<and>
     puts J (put_long J) (\<lambda>v w. isInteger J v \<and> getInteger J v = sint w) \<and>
     puts J (put_size J) (\<lambda>v w. isInteger J v \<and> word_of_int (getInteger J v) = w) \<and>
     puts J (put_value J) (\<lambda>v w. v = w)"

section \<open>The laws in use\<close>

named_theorems json_simps "consequences of json_laws, with json_laws as first premise"

lemma loads_dumps [json_simps]: "json_laws J \<Longrightarrow> isObject J v \<Longrightarrow> loads J (dumps J v) = Some v"
  by (simp add: json_laws_def)

lemma dumps_text: "json_laws J \<Longrightarrow> dumps J v \<noteq> []" "json_laws J \<Longrightarrow> NUL \<notin> set (dumps J v)"
  by (simp_all add: json_laws_def)

lemma contain_iff [json_simps]:
  "json_laws J \<Longrightarrow> isObject J v \<Longrightarrow> contain J v k \<longleftrightarrow> get J v k \<noteq> None"
  by (simp add: json_laws_def)

lemma new_object [json_simps]:
  "json_laws J \<Longrightarrow> isObject J (new_JObject J)" "json_laws J \<Longrightarrow> get J (new_JObject J) k = None"
  by (simp_all add: json_laws_def)

lemma isObject_put [json_simps]:
  "json_laws J \<Longrightarrow> isObject J v \<Longrightarrow> isObject J (put_int J v k i)"
  "json_laws J \<Longrightarrow> isObject J v \<Longrightarrow> isObject J (put_long J v k l)"
  "json_laws J \<Longrightarrow> isObject J v \<Longrightarrow> isObject J (put_size J v k n)"
  "json_laws J \<Longrightarrow> isObject J v \<Longrightarrow> isObject J (put_value J v k x)"
  by (simp_all add: json_laws_def puts_def)

lemma get_put_other [json_simps]:
  "json_laws J \<Longrightarrow> isObject J v \<Longrightarrow> k' \<noteq> k \<Longrightarrow> get J (put_int J v k i) k' = get J v k'"
  "json_laws J \<Longrightarrow> isObject J v \<Longrightarrow> k' \<noteq> k \<Longrightarrow> get J (put_long J v k l) k' = get J v k'"
  "json_laws J \<Longrightarrow> isObject J v \<Longrightarrow> k' \<noteq> k \<Longrightarrow> get J (put_size J v k n) k' = get J v k'"
  "json_laws J \<Longrightarrow> isObject J v \<Longrightarrow> k' \<noteq> k \<Longrightarrow> get J (put_value J v k x) k' = get J v k'"
  by (simp_all add: json_laws_def puts_def)

lemma get_put_value [json_simps]:
  "json_laws J \<Longrightarrow> isObject J v \<Longrightarrow> get J (put_value J v k x) k = Some x"
  by (simp add: json_laws_def puts_def)

lemma get_put_int:
  assumes "json_laws J" "isObject J v"
  obtains x where "get J (put_int J v k i) k = Some x" "isInteger J x" "getInteger J x = sint i"
  using assms unfolding json_laws_def puts_def by meson

lemma get_put_long:
  assumes "json_laws J" "isObject J v"
  obtains x where "get J (put_long J v k l) k = Some x" "isInteger J x" "getInteger J x = sint l"
  using assms unfolding json_laws_def puts_def by meson

lemma get_put_size:
  assumes "json_laws J" "isObject J v"
  obtains x where "get J (put_size J v k n) k = Some x" "isInteger J x"
    "word_of_int (getInteger J x) = n"
  using assms unfolding json_laws_def puts_def by meson

end
