(* ===== verification/JsonInstance.thy ===== *)
theory JsonInstance
  imports Json
begin

text \<open>
  A concrete set of JSON functions that satisfies \<open>json_laws\<close>: the hypothesis of the
  theorems about the protocol can hold, and their witnesses compute with it. It is not a
  model of JConer, whose source is not in this repository: the text it writes is a prefix
  code and not JSON.
\<close>

section \<open>Values\<close>

text \<open>Arrays and objects are chains of cells, the newest entry of an object first.\<close>

datatype json =
    JNull | JInt int | JStr string
  | ANil | ACons json json
  | ONil | OCons string json json

fun json_isObject :: "json \<Rightarrow> bool" where
  "json_isObject ONil = True"
| "json_isObject (OCons k v r) = True"
| "json_isObject _ = False"

fun json_isArray :: "json \<Rightarrow> bool" where
  "json_isArray ANil = True"
| "json_isArray (ACons v r) = True"
| "json_isArray _ = False"

fun json_get :: "json \<Rightarrow> string \<Rightarrow> json option" where
  "json_get (OCons k v r) key = (if k = key then Some v else json_get r key)"
| "json_get _ key = None"

fun json_keys :: "json \<Rightarrow> string list" where
  "json_keys (OCons k v r) = json_keys r @ [k]"
| "json_keys _ = []"

fun json_items :: "json \<Rightarrow> json list" where
  "json_items (ACons v r) = v # json_items r"
| "json_items _ = []"

fun json_int :: "json \<Rightarrow> int" where
  "json_int (JInt i) = i"
| "json_int _ = 0"

fun json_str :: "json \<Rightarrow> string" where
  "json_str (JStr s) = s"
| "json_str _ = []"

section \<open>Text\<close>

fun enc_nat :: "nat \<Rightarrow> bytes" where
  "enc_nat n = (if n = 0 then ''.'' else (if even n then CHR ''0'' else CHR ''1'') # enc_nat (n div 2))"

declare enc_nat.simps [simp del]

fun dec_nat :: "bytes \<Rightarrow> (nat \<times> bytes) option" where
  "dec_nat (c # cs) =
     (if c = CHR ''.'' then Some (0, cs)
      else if c = CHR ''0'' then map_option (\<lambda>(n, r). (2 * n, r)) (dec_nat cs)
      else if c = CHR ''1'' then map_option (\<lambda>(n, r). (2 * n + 1, r)) (dec_nat cs)
      else None)"
| "dec_nat [] = None"

lemma dec_enc_nat: "dec_nat (enc_nat n @ r) = Some (n, r)"
proof (induction n rule: enc_nat.induct)
  case (1 n)
  show ?case
  proof (cases "n = 0")
    case True
    then show ?thesis by (simp add: enc_nat.simps)
  next
    case False
    have "2 * (n div 2) = n" if "even n" using that by simp
    moreover have "Suc (2 * (n div 2)) = n" if "odd n" using that by presburger
    ultimately show ?thesis
      using False "1.IH" by (subst enc_nat.simps) simp
  qed
qed

fun enc_str :: "string \<Rightarrow> bytes" where
  "enc_str [] = ''.''"
| "enc_str (c # cs) = CHR ''c'' # enc_nat (of_char c) @ enc_str cs"

fun dec_str :: "nat \<Rightarrow> bytes \<Rightarrow> (string \<times> bytes) option" where
  "dec_str (Suc fuel) (c # cs) =
     (if c = CHR ''.'' then Some ([], cs)
      else case dec_nat cs of
        None \<Rightarrow> None
      | Some (n, r) \<Rightarrow> map_option (\<lambda>(s, r'). (char_of n # s, r')) (dec_str fuel r))"
| "dec_str _ _ = None"

lemma dec_enc_str: "length s < fuel \<Longrightarrow> dec_str fuel (enc_str s @ r) = Some (s, r)"
proof (induction s arbitrary: fuel)
  case Nil
  then show ?case by (cases fuel) simp_all
next
  case (Cons c s)
  then show ?case by (cases fuel) (simp_all add: dec_enc_nat)
qed

lemma length_enc_str: "length s < length (enc_str s)"
  by (induction s) auto

fun json_dumps :: "json \<Rightarrow> bytes" where
  "json_dumps JNull = ''n''"
| "json_dumps (JInt i) = (if i < 0 then CHR ''-'' else CHR ''+'') # enc_nat (nat \<bar>i\<bar>)"
| "json_dumps (JStr s) = CHR ''s'' # enc_str s"
| "json_dumps ANil = ''e''"
| "json_dumps (ACons v r) = CHR ''a'' # json_dumps v @ json_dumps r"
| "json_dumps ONil = ''f''"
| "json_dumps (OCons k v r) = CHR ''o'' # enc_str k @ json_dumps v @ json_dumps r"

fun json_parse :: "nat \<Rightarrow> bytes \<Rightarrow> (json \<times> bytes) option" where
  "json_parse (Suc fuel) (c # cs) =
     (if c = CHR ''n'' then Some (JNull, cs)
      else if c = CHR ''+'' then map_option (\<lambda>(n, r). (JInt (int n), r)) (dec_nat cs)
      else if c = CHR ''-'' then map_option (\<lambda>(n, r). (JInt (- int n), r)) (dec_nat cs)
      else if c = CHR ''s'' then map_option (\<lambda>(s, r). (JStr s, r)) (dec_str (Suc fuel) cs)
      else if c = CHR ''e'' then Some (ANil, cs)
      else if c = CHR ''f'' then Some (ONil, cs)
      else if c = CHR ''a'' then
        (case json_parse fuel cs of None \<Rightarrow> None | Some (v, cs') \<Rightarrow>
          map_option (\<lambda>(r, cs''). (ACons v r, cs'')) (json_parse fuel cs'))
      else if c = CHR ''o'' then
        (case dec_str (Suc fuel) cs of None \<Rightarrow> None | Some (k, cs') \<Rightarrow>
          (case json_parse fuel cs' of None \<Rightarrow> None | Some (v, cs'') \<Rightarrow>
            map_option (\<lambda>(r, rest). (OCons k v r, rest)) (json_parse fuel cs'')))
      else None)"
| "json_parse _ _ = None"

definition json_loads :: "bytes \<Rightarrow> json option" where
  "json_loads s = (case json_parse (length s) s of Some (v, []) \<Rightarrow> Some v | _ \<Rightarrow> None)"

lemma json_parse_dumps:
  "length (json_dumps v) \<le> fuel \<Longrightarrow> json_parse fuel (json_dumps v @ r) = Some (v, r)"
proof (induction v arbitrary: fuel r)
  case (JInt i)
  then show ?case by (cases fuel) (auto simp: dec_enc_nat)
next
  case (JStr s)
  then show ?case using length_enc_str [of s] by (cases fuel) (auto simp: dec_enc_str)
next
  case (ACons v1 v2)
  then show ?case by (cases fuel) auto
next
  case (OCons k v1 v2)
  then show ?case using length_enc_str [of k] by (cases fuel) (auto simp: dec_enc_str)
next
  case JNull
  then show ?case by (cases fuel) auto
next
  case ANil
  then show ?case by (cases fuel) auto
next
  case ONil
  then show ?case by (cases fuel) auto
qed

lemma json_loads_dumps: "json_loads (json_dumps v) = Some v"
  using json_parse_dumps [of v _ "[]"] by (simp add: json_loads_def)

lemma enc_nat_no_NUL: "NUL \<notin> set (enc_nat n)"
  by (induction n rule: enc_nat.induct) (subst enc_nat.simps, simp add: NUL_def)

lemma enc_str_no_NUL: "NUL \<notin> set (enc_str s)"
  by (induction s) (simp_all add: enc_nat_no_NUL, simp_all add: NUL_def)

lemma json_dumps_text: "json_dumps v \<noteq> [] \<and> NUL \<notin> set (json_dumps v)"
  by (induction v) (simp_all add: enc_nat_no_NUL enc_str_no_NUL, simp_all add: NUL_def)

section \<open>The record\<close>

definition json_api :: "json jconer" where
  "json_api =
     \<lparr>loads = json_loads, dumps = json_dumps, isObject = json_isObject, isArray = json_isArray,
      isInteger = (\<lambda>v. case v of JInt i \<Rightarrow> True | _ \<Rightarrow> False),
      isString = (\<lambda>v. case v of JStr s \<Rightarrow> True | _ \<Rightarrow> False),
      isNull = (\<lambda>v. case v of JNull \<Rightarrow> True | _ \<Rightarrow> False),
      getInteger = json_int, getString = json_str, getKeys = json_keys, get = json_get,
      get_at = (\<lambda>v i. if i < length (json_items v) then Some (json_items v ! i) else None),
      jsize = (\<lambda>v. length (json_items v)),
      contain = (\<lambda>v k. json_get v k \<noteq> None), new_JObject = ONil,
      put_int = (\<lambda>v k w. OCons k (JInt (sint w)) v),
      put_long = (\<lambda>v k w. OCons k (JInt (sint w)) v),
      put_size = (\<lambda>v k w. OCons k (JInt (uint w)) v),
      put_value = (\<lambda>v k x. OCons k x v),
      new_OutSerializer = ANil\<rparr>"

lemma json_api_laws: "json_laws json_api"
  by (simp add: json_laws_def puts_def json_api_def json_loads_dumps json_dumps_text)

end
