(* ===== verification/Proto.thy ===== *)
theory Proto
  imports JsonInstance
begin

text \<open>
  proto.hpp, proto.cpp, request.hpp and request.cpp: what a request, a response and an
  error message are as JSON text, and the checks both sides make when they read one.
  An \<open>InSerializer\<close> is the value it was built from, an \<open>OutSerializer\<close> the value
  \<open>getContent()\<close> gives.
\<close>

section \<open>Keys\<close>

definition ClientNo :: string where "ClientNo = ''clientno''"
definition ServerNo :: string where "ServerNo = ''serverno''"
definition MessageId :: string where "MessageId = ''messageid''"
definition Version :: string where "Version = ''version''"
definition Timestamp :: string where "Timestamp = ''timestamp''"
definition Method :: string where "Method = ''method''"
definition Param :: string where "Param = ''params''"
definition Result :: string where "Result = ''result''"
definition Error :: string where "Error = ''error''"

lemmas key_defs = ClientNo_def ServerNo_def MessageId_def Version_def Timestamp_def
  Method_def Param_def Result_def Error_def

section \<open>Requests and responses\<close>

record 'j response =
  sout :: 'j                 \<comment> \<open>\<open>_sout\<close>\<close>

record 'j request =
  clientno :: i32
  serverno :: i32
  version :: i32
  timestamp :: i64
  messageid :: i32
  handlerid :: size_t
  sin :: 'j                  \<comment> \<open>\<open>_sin\<close>, built from the parameter array\<close>
  msg_json :: 'j             \<comment> \<open>\<open>_msg_json\<close>, the whole message\<close>
  resp :: "'j response"

definition new_Response :: "'j jconer \<Rightarrow> 'j response" where
  "new_Response J = \<lparr>sout = new_OutSerializer J\<rparr>"

definition Request ::
  "'j jconer \<Rightarrow> i32 \<Rightarrow> i32 \<Rightarrow> i32 \<Rightarrow> i64 \<Rightarrow> i32 \<Rightarrow> size_t \<Rightarrow> 'j \<Rightarrow> 'j \<Rightarrow> 'j request" where
  "Request J cno sno ver ts mid hid array msg =
     \<lparr>clientno = cno, serverno = sno, version = ver, timestamp = ts, messageid = mid,
      handlerid = hid, sin = array, msg_json = msg, resp = new_Response J\<rparr>"

text \<open>
  The move constructor: every field but \<open>_resp\<close>, which starts anew. The old request keeps its
  pointer to the message, so that both destructors delete it; memory is not modelled here.
\<close>

definition Request_move :: "'j jconer \<Rightarrow> 'j request \<Rightarrow> 'j request" where
  "Request_move J old = old\<lparr>resp := new_Response J\<rparr>"

lemma Request_move_fresh: "Request_move J (Request J cno sno ver ts mid hid array msg) = Request J cno sno ver ts mid hid array msg"
  by (simp add: Request_move_def Request_def)

section \<open>The server side\<close>

abbreviation not_parsed :: "(exn, 'a) outcome" where
  "not_parsed \<equiv> Throws (Server ServerJsonNotParsedException)"

text \<open>One of the six checked reads of an integer field.\<close>

definition integer_item :: "'j jconer \<Rightarrow> 'j \<Rightarrow> string \<Rightarrow> (exn, int) outcome" where
  "integer_item J req_json key =
     (case get J req_json key of
        None \<Rightarrow> not_parsed
      | Some item_json \<Rightarrow>
          if \<not> isInteger J item_json then not_parsed else Returns (getInteger J item_json))"

definition build_request :: "'j jconer \<Rightarrow> bytes \<Rightarrow> (exn, 'j request) outcome" where
  "build_request J msg =
     (case loads J msg of
        None \<Rightarrow> not_parsed
      | Some req_json \<Rightarrow>
          if \<not> isObject J req_json then not_parsed
          else
            obind (integer_item J req_json ClientNo) (\<lambda>cno.
            obind (integer_item J req_json ServerNo) (\<lambda>sno.
            obind (integer_item J req_json Version) (\<lambda>ver.
            obind (integer_item J req_json Timestamp) (\<lambda>ts.
            obind (integer_item J req_json MessageId) (\<lambda>mid.
            obind (integer_item J req_json Method) (\<lambda>hid.
              case get J req_json Param of
                None \<Rightarrow> not_parsed
              | Some item_json \<Rightarrow>
                  if \<not> isArray J item_json then not_parsed
                  else Returns (Request J (word_of_int cno) (word_of_int sno) (word_of_int ver)
                         (word_of_int ts) (word_of_int mid) (word_of_int hid)
                         item_json req_json))))))))"

definition build_response :: "'j jconer \<Rightarrow> 'j response \<Rightarrow> bytes" where
  "build_response J r = dumps J (put_value J (new_JObject J) Result (sout r))"

definition build_error :: "'j jconer \<Rightarrow> i32 \<Rightarrow> bytes" where
  "build_error J code = dumps J (put_int J (new_JObject J) Error code)"

section \<open>The client side\<close>

definition build_client_request ::
  "'j jconer \<Rightarrow> i32 \<Rightarrow> i32 \<Rightarrow> i32 \<Rightarrow> i64 \<Rightarrow> size_t \<Rightarrow> 'j \<Rightarrow> bytes" where
  "build_client_request J cno sno mid ts method_hash content =
     (let obj = new_JObject J;
          obj = put_int J obj ClientNo cno;
          obj = put_int J obj ServerNo sno;
          obj = put_int J obj Version 1;
          obj = put_long J obj Timestamp ts;
          obj = put_int J obj MessageId mid;
          obj = put_size J obj Method method_hash;
          obj = put_value J obj Param content
      in dumps J obj)"

text \<open>
  \<open>LOG (FATAL)\<close> belongs to another library; the model stops there. \<open>getInteger\<close> on the
  null pointer cannot happen: \<open>contain\<close> was checked.
\<close>

definition parse_response :: "'j jconer \<Rightarrow> bytes \<Rightarrow> (exn, 'j) outcome" where
  "parse_response J response =
     (case loads J response of
        None \<Rightarrow> Faults FatalLog
      | Some json_resp \<Rightarrow>
          if \<not> isObject J json_resp then Faults FatalLog
          else if contain J json_resp Error then
            (case get J json_resp Error of
               None \<Rightarrow> Faults NullDeref
             | Some item \<Rightarrow>
                 (let errcode = (word_of_int (getInteger J item) :: i32) in
                  if errcode = SOCKET_CLOSED then Throws (Server ServerCloseSocketException)
                  else if errcode = METHOD_NOT_FOUND then Throws (Server ServerMethodNotFoundException)
                  else if errcode = JSON_NOT_PARSED then Throws (Server ServerJsonNotParsedException)
                  else if errcode = PARAM_MISMATCH then Throws (Server ServerParamMismatchException)
                  else if errcode = BAD_MESSAGE then Throws (Server ServerBadMessageException)
                  else Faults FatalLog))
          else Returns json_resp)"

section \<open>Reading back what was written\<close>

lemma item_put_int [json_simps]:
  assumes "json_laws J" "isObject J v"
  shows "integer_item J (put_int J v k i) k = Returns (sint i)"
  by (rule get_put_int [OF assms, of k i]) (simp add: integer_item_def)

lemma item_put_long [json_simps]:
  assumes "json_laws J" "isObject J v"
  shows "integer_item J (put_long J v k i) k = Returns (sint i)"
  by (rule get_put_long [OF assms, of k i]) (simp add: integer_item_def)

lemma item_put_size:
  assumes "json_laws J" "isObject J v"
  obtains x where "integer_item J (put_size J v k n) k = Returns x" "word_of_int x = n"
  by (rule get_put_size [OF assms, of k n]) (simp add: integer_item_def)

lemma item_put_other [json_simps]:
  "json_laws J \<Longrightarrow> isObject J v \<Longrightarrow> k' \<noteq> k \<Longrightarrow>
     integer_item J (put_int J v k i) k' = integer_item J v k'"
  "json_laws J \<Longrightarrow> isObject J v \<Longrightarrow> k' \<noteq> k \<Longrightarrow>
     integer_item J (put_long J v k l) k' = integer_item J v k'"
  "json_laws J \<Longrightarrow> isObject J v \<Longrightarrow> k' \<noteq> k \<Longrightarrow>
     integer_item J (put_size J v k n) k' = integer_item J v k'"
  "json_laws J \<Longrightarrow> isObject J v \<Longrightarrow> k' \<noteq> k \<Longrightarrow>
     integer_item J (put_value J v k x) k' = integer_item J v k'"
  by (simp_all add: integer_item_def json_simps)

text \<open>The text of a request, read by the server, is the request the client described.\<close>

definition request_object ::
  "'j jconer \<Rightarrow> i32 \<Rightarrow> i32 \<Rightarrow> i32 \<Rightarrow> i64 \<Rightarrow> size_t \<Rightarrow> 'j \<Rightarrow> 'j" where
  "request_object J cno sno mid ts method_hash content =
     put_value J (put_size J (put_int J (put_long J (put_int J (put_int J (put_int J
       (new_JObject J) ClientNo cno) ServerNo sno) Version 1) Timestamp ts) MessageId mid)
       Method method_hash) Param content"

lemma build_client_request_dumps:
  "build_client_request J cno sno mid ts h c = dumps J (request_object J cno sno mid ts h c)"
  by (simp add: build_client_request_def request_object_def Let_def)

lemma build_request_client:
  assumes "json_laws J" "isArray J content"
  shows "build_request J (build_client_request J cno sno mid ts h content) =
    Returns (Request J cno sno 1 ts mid h content (request_object J cno sno mid ts h content))"
proof -
  let ?o = "request_object J cno sno mid ts h content"
  have obj: "isObject J ?o"
    using assms(1) by (simp add: request_object_def json_simps)
  obtain x where x: "integer_item J ?o Method = Returns x" "word_of_int x = h"
  proof (rule item_put_size [OF assms(1), of "put_int J (put_long J (put_int J (put_int J
      (put_int J (new_JObject J) ClientNo cno) ServerNo sno) Version 1) Timestamp ts) MessageId mid"
      Method h])
    show "isObject J (put_int J (put_long J (put_int J (put_int J
      (put_int J (new_JObject J) ClientNo cno) ServerNo sno) Version 1) Timestamp ts) MessageId mid)"
      using assms(1) by (simp add: json_simps)
  qed (use assms(1) that in \<open>simp add: request_object_def json_simps key_defs\<close>)
  have items: "integer_item J ?o ClientNo = Returns (sint cno)"
      "integer_item J ?o ServerNo = Returns (sint sno)" "integer_item J ?o Version = Returns 1"
      "integer_item J ?o Timestamp = Returns (sint ts)"
      "integer_item J ?o MessageId = Returns (sint mid)" "get J ?o Param = Some content"
    using assms(1) by (simp_all add: request_object_def json_simps key_defs)
  show ?thesis
    using assms obj x items by (simp add: build_client_request_dumps build_request_def json_simps)
qed

section \<open>What the checks accept\<close>

definition integer_keys :: "string list" where
  "integer_keys = [ClientNo, ServerNo, Version, Timestamp, MessageId, Method]"

text \<open>A value that passes every check of \<open>build_request\<close>.\<close>

definition well_formed_request :: "'j jconer \<Rightarrow> 'j \<Rightarrow> bool" where
  "well_formed_request J v \<longleftrightarrow> isObject J v
     \<and> list_all (\<lambda>k. case get J v k of None \<Rightarrow> False | Some x \<Rightarrow> isInteger J x) integer_keys
     \<and> (case get J v Param of None \<Rightarrow> False | Some x \<Rightarrow> isArray J x)"

lemma integer_item_cases:
  "integer_item J v k = (case get J v k of None \<Rightarrow> not_parsed
     | Some x \<Rightarrow> if isInteger J x then Returns (getInteger J x) else not_parsed)"
  by (simp add: integer_item_def split: option.split)

lemma build_request_accepts:
  assumes "loads J msg = Some v" "well_formed_request J v"
  shows "\<exists>r. build_request J msg = Returns r \<and> msg_json r = v \<and> get J v Param = Some (sin r)"
  using assms
  by (auto simp: build_request_def well_formed_request_def integer_keys_def integer_item_cases
      Request_def split: option.splits)

lemma build_request_rejects:
  assumes "\<And>v. loads J msg = Some v \<Longrightarrow> \<not> well_formed_request J v"
  shows "build_request J msg = not_parsed"
  using assms
  by (cases "loads J msg")
     (auto simp: build_request_def well_formed_request_def integer_keys_def integer_item_cases
      split: option.splits)

lemma build_request_not_parsed_or_returns:
  "build_request J msg = not_parsed \<or> (\<exists>r. build_request J msg = Returns r)"
  using build_request_accepts build_request_rejects by metis

lemma parse_build_error:
  assumes "json_laws J"
  shows "parse_response J (build_error J (get_code e)) = Throws (Server e)"
proof -
  obtain x where x: "get J (put_int J (new_JObject J) Error (get_code e)) Error = Some x"
      "getInteger J x = sint (get_code e)"
    using get_put_int [OF assms new_object(1) [OF assms]] by metis
  then show ?thesis
    using assms
    by (cases e) (simp_all add: parse_response_def build_error_def json_simps Let_def proto_codes)
qed

lemma parse_build_response:
  assumes "json_laws J"
  shows "parse_response J (build_response J r)
       = Returns (put_value J (new_JObject J) Result (sout r))"
  using assms by (simp add: parse_response_def build_response_def json_simps key_defs)

section \<open>Properties\<close>

text \<open>
  (C13) Round trip: the server reads the text the client builds back into the request the
  client described: every field, version 1, the parameters, and a fresh response.
\<close>
theorem request_roundtrip:
  assumes "json_laws J" "isArray J content"
  shows "\<exists>r. build_request J (build_client_request J cno sno mid ts h content) = Returns r
    \<and> clientno r = cno \<and> serverno r = sno \<and> version r = 1 \<and> timestamp r = ts
    \<and> messageid r = mid \<and> handlerid r = h \<and> sin r = content \<and> resp r = new_Response J"
  using build_request_client [OF assms] by (simp add: Request_def)

theorem request_roundtrip_witness:
  "\<exists>r. build_request json_api (build_client_request json_api 7 0 1 1000 42 (ACons (JInt 5) ANil))
       = Returns r \<and> handlerid r = 42 \<and> sin r = ACons (JInt 5) ANil"
  using request_roundtrip [OF json_api_laws, of "ACons (JInt 5) ANil" 7 0 1 1000 42]
  by (auto simp: json_api_def)

text \<open>
  (C26) The checks of the server are exact: a message is turned into a request just when it
  loads as an object with the six integer fields and an array of parameters; every other
  message is answered with ServerJsonNotParsedException and nothing else.
\<close>
theorem build_request_exact:
  "build_request J msg =
     (case loads J msg of
        None \<Rightarrow> not_parsed
      | Some v \<Rightarrow> if well_formed_request J v then Returns (Request J
            (word_of_int (getInteger J (the (get J v ClientNo))))
            (word_of_int (getInteger J (the (get J v ServerNo))))
            (word_of_int (getInteger J (the (get J v Version))))
            (word_of_int (getInteger J (the (get J v Timestamp))))
            (word_of_int (getInteger J (the (get J v MessageId))))
            (word_of_int (getInteger J (the (get J v Method))))
            (the (get J v Param)) v)
          else not_parsed)"
  by (auto simp: build_request_def well_formed_request_def integer_keys_def integer_item_cases
      split: option.split)

text \<open>
  Every server exception survives the wire: the client that parses the error message
  the server builds for it throws that same exception.
\<close>
theorem error_roundtrip:
  assumes "json_laws J"
  shows "parse_response J (build_error J (get_code e)) = Throws (Server e)"
  by (rule parse_build_error [OF assms])

theorem error_roundtrip_witness:
  "parse_response json_api (build_error json_api (get_code ServerParamMismatchException))
     = Throws (Server ServerParamMismatchException)"
  by (rule error_roundtrip [OF json_api_laws])

text \<open>
  A response is never mistaken for an error: the client gets the object back, with the
  content of the server's serializer under the result key.
\<close>
theorem response_roundtrip:
  assumes "json_laws J"
  shows "\<exists>v. parse_response J (build_response J r) = Returns v \<and> contain J v Result
           \<and> get J v Result = Some (sout r)"
  using parse_build_response [OF assms, of r] assms by (simp add: json_simps)

theorem response_roundtrip_witness:
  "\<exists>v. parse_response json_api (build_response json_api \<lparr>sout = ACons (JInt 3) ANil\<rparr>) = Returns v
     \<and> get json_api v Result = Some (ACons (JInt 3) ANil)"
  using response_roundtrip [OF json_api_laws, of "\<lparr>sout = ACons (JInt 3) ANil\<rparr>"] by auto

end
