(* ===== verification/Client.thy ===== *)
theory Client
  imports Proto
begin

text \<open>
  cconn.hpp and client.hpp: the interface \<open>ClientConnector\<close> as the locale
  \<open>client_connector\<close>, and \<open>AbstractClient\<close>, whose two \<open>call\<close> functions retry over it.
  A retry loop that never ends is the value \<open>None\<close>. The argument \<open>decode\<close> is
  \<open>sin & r\<close>, the deserializer of the result type.
\<close>

section \<open>The retry loop\<close>

definition MAX_TRY :: int where "MAX_TRY = 8"

record 'c absclient =
  ac_client :: 'c
  ac_msg_id :: i32
  ac_clientno :: i32

definition AbstractClient :: "'c \<Rightarrow> i32 \<Rightarrow> 'c absclient" where
  "AbstractClient client rnd = \<lparr>ac_client = client, ac_msg_id = 0, ac_clientno = rnd\<rparr>"

text \<open>
  One turn of the loop of both \<open>call\<close>s, for the exceptions after which it reconnects: how the
  loop is left, with \<open>tried\<close> and the connector, or the state of the next turn.
\<close>

definition attempt ::
  "(bytes \<Rightarrow> 'c \<Rightarrow> (exn, bytes) outcome \<times> 'c) \<Rightarrow> ('c \<Rightarrow> (exn, unit) outcome \<times> 'c) \<Rightarrow>
   (exn \<Rightarrow> bool) \<Rightarrow> (bytes \<Rightarrow> (exn, 'r) outcome) \<Rightarrow> bytes \<Rightarrow> i32 \<times> 'c \<Rightarrow>
   ((exn, 'r) outcome \<times> i32 \<times> 'c) + i32 \<times> 'c" where
  "attempt sr rc reconnects parse msg s =
     (case s of (tried, c) \<Rightarrow>
       (case sr msg c of (rst, c') \<Rightarrow>
         (case obind rst parse of
            Throws e \<Rightarrow>
              if reconnects e
              then (case rc c' of (r, c'') \<Rightarrow>
                     (case r of
                        Returns _ \<Rightarrow> Inr (tried, c'')
                      | Throws x \<Rightarrow> Inl (Throws x, tried, c'')
                      | Faults f \<Rightarrow> Inl (Faults f, tried, c'')
                      | Waits \<Rightarrow> Inl (Waits, tried, c'')))
              else if e = ReadFailException \<or> e = WriteFailException
              then Inr (tried + 1, c')
              else Inl (Throws e, tried, c')
          | done \<Rightarrow> Inl (done, tried, c'))))"

definition call_loop ::
  "(bytes \<Rightarrow> 'c \<Rightarrow> (exn, bytes) outcome \<times> 'c) \<Rightarrow> ('c \<Rightarrow> (exn, unit) outcome \<times> 'c) \<Rightarrow>
   (exn \<Rightarrow> bool) \<Rightarrow> (bytes \<Rightarrow> (exn, 'r) outcome) \<Rightarrow> bytes \<Rightarrow> 'c \<Rightarrow>
   ((exn, 'r) outcome \<times> i32 \<times> 'c) option" where
  "call_loop sr rc reconnects parse msg c = forever (attempt sr rc reconnects parse msg) (0, c)"

text \<open>The test after the loop.\<close>

definition check_tried :: "i32 \<Rightarrow> 'r \<Rightarrow> (exn, 'r) outcome" where
  "check_tried tried v =
     (if sint tried > MAX_TRY then Throws (RuntimeError ''PRC call failed'') else Returns v)"

definition parse_void :: "'j jconer \<Rightarrow> bytes \<Rightarrow> (exn, unit) outcome" where
  "parse_void J response = obind (parse_response J response) (\<lambda>rst. Returns ())"

definition parse_result ::
  "'j jconer \<Rightarrow> ('j \<Rightarrow> (exn, 'r) outcome) \<Rightarrow> bytes \<Rightarrow> (exn, 'r) outcome" where
  "parse_result J decode response =
     obind (parse_response J response) (\<lambda>json_resp.
       if \<not> contain J json_resp Result then Throws NoResultException
       else case get J json_resp Result of
              None \<Rightarrow> Faults NullDeref
            | Some v \<Rightarrow> decode v)"

definition is_server_exception :: "exn \<Rightarrow> bool" where
  "is_server_exception e = (case e of Server s \<Rightarrow> True | _ \<Rightarrow> False)"

definition call_with ::
  "'j jconer \<Rightarrow> (bytes \<Rightarrow> 'c \<Rightarrow> (exn, bytes) outcome \<times> 'c) \<Rightarrow> ('c \<Rightarrow> (exn, unit) outcome \<times> 'c) \<Rightarrow>
   (exn \<Rightarrow> bool) \<Rightarrow> (bytes \<Rightarrow> (exn, 'r) outcome) \<Rightarrow> i64 \<Rightarrow> size_t \<Rightarrow> 'j \<Rightarrow> 'c absclient \<Rightarrow>
   ((exn, 'r) outcome \<times> 'c absclient) option" where
  "call_with J sr rc reconnects parse now method_hash content a =
     (let msg = build_client_request J (ac_clientno a) 0 (ac_msg_id a) now method_hash content;
          a' = a\<lparr>ac_msg_id := ac_msg_id a + 1\<rparr>
      in case call_loop sr rc reconnects parse msg (ac_client a) of
           None \<Rightarrow> None
         | Some (r, tried, c') \<Rightarrow> Some (obind r (check_tried tried), a'\<lparr>ac_client := c'\<rparr>))"

definition call_void ::
  "'j jconer \<Rightarrow> (bytes \<Rightarrow> 'c \<Rightarrow> (exn, bytes) outcome \<times> 'c) \<Rightarrow> ('c \<Rightarrow> (exn, unit) outcome \<times> 'c) \<Rightarrow>
   i64 \<Rightarrow> size_t \<Rightarrow> 'j \<Rightarrow> 'c absclient \<Rightarrow> ((exn, unit) outcome \<times> 'c absclient) option" where
  "call_void J sr rc = call_with J sr rc is_server_exception (parse_void J)"

definition call_result ::
  "'j jconer \<Rightarrow> (bytes \<Rightarrow> 'c \<Rightarrow> (exn, bytes) outcome \<times> 'c) \<Rightarrow> ('c \<Rightarrow> (exn, unit) outcome \<times> 'c) \<Rightarrow>
   ('j \<Rightarrow> (exn, 'r) outcome) \<Rightarrow> i64 \<Rightarrow> size_t \<Rightarrow> 'j \<Rightarrow> 'c absclient \<Rightarrow>
   ((exn, 'r) outcome \<times> 'c absclient) option" where
  "call_result J sr rc decode =
     call_with J sr rc (\<lambda>e. e = Server ServerCloseSocketException) (parse_result J decode)"

section \<open>The interface\<close>

text \<open>
  What the client relies on: a connector reports a failed transfer with one of the two
  transfer exceptions, and a failed connection with HostFailException; once linked
  (by a successful \<open>reconnect\<close>) it does not connect again by itself.
\<close>

definition transfer_exn :: "exn \<Rightarrow> bool" where
  "transfer_exn e \<longleftrightarrow> e = ReadFailException \<or> e = WriteFailException"

definition host_exn :: "exn \<Rightarrow> bool" where
  "host_exn e \<longleftrightarrow> (\<exists>d h p. e = HostFailException d h p)"

locale client_connector =
  fixes sr :: "bytes \<Rightarrow> 'c \<Rightarrow> (exn, bytes) outcome \<times> 'c"
    and rc :: "'c \<Rightarrow> (exn, unit) outcome \<times> 'c"
    and linked :: "'c \<Rightarrow> bool"
  assumes rc_links: "rc c = (Returns u, c') \<Longrightarrow> linked c'"
    and rc_throws: "rc c = (Throws e, c') \<Longrightarrow> host_exn e"
    and sr_throws: "sr m c = (Throws e, c') \<Longrightarrow> transfer_exn e \<or> host_exn e \<and> \<not> linked c"
    and sr_linked: "sr m c = (r, c') \<Longrightarrow> linked c \<or> (\<exists>v. r = Returns v) \<Longrightarrow> linked c'"
begin

text \<open>
  What can come out of the loop: a transfer exception never does, and an exception the
  loop reconnects after never does; what does is a failed connection or an
  exception of the parser of the response.
\<close>

lemma loop_throws:
  assumes "call_loop sr rc reconnects parse msg c = Some (Throws e, t, c')"
  shows "host_exn e \<or> (\<not> reconnects e \<and> \<not> transfer_exn e \<and> (\<exists>rst. parse rst = Throws e))"
proof -
  define ok where "ok x \<longleftrightarrow>
      host_exn x \<or> (\<not> reconnects x \<and> \<not> transfer_exn x \<and> (\<exists>rst. parse rst = Throws x))" for x
  define Q :: "(exn, 'a) outcome \<times> i32 \<times> 'c \<Rightarrow> bool"
    where "Q r \<longleftrightarrow> (\<forall>x. fst r = Throws x \<longrightarrow> ok x)" for r
  have "Q (Throws e, t, c')"
  proof (rule forever_result [where P = "\<lambda>_. True" and Q = Q, OF assms [unfolded call_loop_def]])
    fix s r
    assume inl: "attempt sr rc reconnects parse msg s = Inl r"
    obtain n c0 where s: "s = (n, c0)" by (cases s)
    obtain rst c1 where sr: "sr msg c0 = (rst, c1)" by (cases "sr msg c0")
    show "Q r"
    proof (cases "obind rst parse")
      case (Throws x)
      then have "transfer_exn x \<or> host_exn x \<or> (\<exists>rst. parse rst = Throws x)"
        using sr_throws [of msg c0] sr by (cases rst) auto
      then show ?thesis
        using inl s sr Throws rc_throws [of c1]
        by (auto simp: attempt_def transfer_exn_def Q_def ok_def
            split: if_splits prod.splits outcome.splits)
    qed (use inl s sr in \<open>auto simp: attempt_def Q_def\<close>)
  qed simp_all
  then show ?thesis
    by (simp add: Q_def ok_def)
qed

end

section \<open>A scripted connector\<close>

text \<open>The outcomes of the attempts to come, and the number of reconnections made.\<close>

type_synonym script = "(exn, bytes) outcome list \<times> nat"

fun script_sr :: "bytes \<Rightarrow> script \<Rightarrow> (exn, bytes) outcome \<times> script" where
  "script_sr m (x # xs, k) = (x, (xs, k))"
| "script_sr m ([], k) = (Waits, ([], k))"

fun script_rc :: "script \<Rightarrow> (exn, unit) outcome \<times> script" where
  "script_rc (xs, k) = (Returns (), (xs, Suc k))"

lemma attempts_fail:
  assumes "\<And>x. x \<in> set xs \<Longrightarrow> transfer_exn x \<and> \<not> reconnects x"
  shows "forever (attempt script_sr script_rc reconnects parse msg) (t, (map Throws xs @ ys, k))
       = forever (attempt script_sr script_rc reconnects parse msg)
           (t + word_of_nat (length xs), (ys, k))"
  using assms
proof (induction xs arbitrary: t)
  case (Cons x xs)
  have "attempt script_sr script_rc reconnects parse msg (t, (map Throws (x # xs) @ ys, k))
      = Inr (t + 1, (map Throws xs @ ys, k))"
    using Cons.prems [of x] by (simp add: attempt_def transfer_exn_def)
  then show ?case
    using Cons by (subst forever.simps) (simp add: add.assoc)
qed simp

lemma attempts_reconnect:
  assumes "parse reply = Throws e" "reconnects e"
  shows "forever (attempt script_sr script_rc reconnects parse msg)
           (t, (replicate n (Returns reply) @ ys, k))
       = forever (attempt script_sr script_rc reconnects parse msg) (t, (ys, k + n))"
proof (induction n arbitrary: k)
  case (Suc n)
  have "attempt script_sr script_rc reconnects parse msg
      (t, (replicate (Suc n) (Returns reply) @ ys, k)) = Inr (t, (replicate n (Returns reply) @ ys, Suc k))"
    using assms by (simp add: attempt_def)
  then show ?case
    using Suc.IH [of "Suc k"] by (subst forever.simps) simp
qed simp

lemma attempt_ends:
  assumes "parse reply = Returns v"
  shows "forever (attempt script_sr script_rc reconnects parse msg) (t, (Returns reply # ys, k))
       = Some (Returns v, t, (ys, k))"
  using assms by (subst forever.simps) (simp add: attempt_def)

lemma parse_result_error:
  assumes "json_laws J"
  shows "parse_result J decode (build_error J (get_code e)) = Throws (Server e)"
    and "parse_void J (build_error J (get_code e)) = Throws (Server e)"
  using parse_build_error [OF assms] by (simp_all add: parse_result_def parse_void_def)

lemma parse_result_response:
  assumes "json_laws J"
  shows "parse_result J decode (build_response J r) = decode (sout r)"
    and "parse_void J (build_response J r) = Returns ()"
  using parse_build_response [OF assms, of r] assms
  by (simp_all add: parse_result_def parse_void_def json_simps)

lemma call_with_returns:
  assumes "sr (build_client_request J (ac_clientno a) 0 (ac_msg_id a) now h content) (ac_client a) = (rst, c')"
    "obind rst parse = Returns v"
  shows "call_with J sr rc reconnects parse now h content a =
    Some (Returns v, a\<lparr>ac_msg_id := ac_msg_id a + 1, ac_client := c'\<rparr>)"
  using assms
  by (simp add: call_with_def call_loop_def Let_def attempt_def check_tried_def MAX_TRY_def forever.simps)

section \<open>Properties\<close>

text \<open>
  (C39) The limit MAX_TRY comes too late: \<open>tried\<close> is looked at only after an attempt has
  succeeded. After any number of failed transfers the client tries again; and when the call
  has then succeeded, it is reported as failed if more than 8 attempts had failed.
\<close>
theorem call_reports_success_as_failure:
  assumes "list_all transfer_exn xs" "length xs < 2 ^ 31" "parse_void J reply = Returns ()"
  shows "call_void J script_sr script_rc now h content
      \<lparr>ac_client = (map Throws xs @ Returns reply # ys, k), ac_msg_id = i, ac_clientno = c\<rparr>
    = Some (if 8 < length xs then Throws (RuntimeError ''PRC call failed'') else Returns (),
        \<lparr>ac_client = (ys, k), ac_msg_id = i + 1, ac_clientno = c\<rparr>)"
proof -
  have "\<not> is_server_exception x" if "transfer_exn x" for x
    using that by (auto simp: transfer_exn_def is_server_exception_def)
  then have "call_loop script_sr script_rc is_server_exception (parse_void J) msg
      (map Throws xs @ Returns reply # ys, k) = Some (Returns (), word_of_nat (length xs), (ys, k))"
    for msg
    using assms(1) attempt_ends [where parse = "parse_void J", OF assms(3)]
    by (simp add: call_loop_def attempts_fail list_all_iff)
  then show ?thesis
    using sint_word_of_nat32 [OF assms(2)]
    by (simp add: call_void_def call_with_def check_tried_def MAX_TRY_def Let_def)
qed

theorem call_reports_success_as_failure_witness:
  "call_void json_api script_sr script_rc 0 42 ANil
      \<lparr>ac_client = (map Throws (replicate 9 ReadFailException) @ [Returns (build_response json_api \<lparr>sout = ANil\<rparr>)], 0),
       ac_msg_id = 0, ac_clientno = 7\<rparr>
    = Some (Throws (RuntimeError ''PRC call failed''),
        \<lparr>ac_client = ([], 0), ac_msg_id = 1, ac_clientno = 7\<rparr>)"
  using call_reports_success_as_failure [of "replicate 9 ReadFailException" json_api
      "build_response json_api \<lparr>sout = ANil\<rparr>" 0 42 ANil "[]" 0 0 7]
  by (simp add: parse_result_response [OF json_api_laws] transfer_exn_def list_all_iff)

text \<open>
  A client that cannot transfer never gives up: if every attempt throws
  ReadFailException or WriteFailException, neither \<open>call\<close> ever returns.
\<close>
theorem call_never_gives_up:
  fixes sr :: "bytes \<Rightarrow> 'c \<Rightarrow> (exn, bytes) outcome \<times> 'c"
  assumes "\<And>m c. \<exists>e c'. sr m c = (Throws e, c') \<and> transfer_exn e"
  shows "call_void J sr rc now h content a = None
    \<and> call_result J sr rc decode now h content a = None"
proof -
  have never: "forever (attempt sr rc reconnects parse msg) s = None"
    if "\<And>e. transfer_exn e \<Longrightarrow> \<not> reconnects e"
    for reconnects and parse :: "bytes \<Rightarrow> (exn, 'r) outcome" and msg s
  proof (rule forever_never_stops)
    fix s :: "i32 \<times> 'c"
    obtain t c where "s = (t, c)" by (cases s)
    moreover obtain e c' where "sr msg c = (Throws e, c')" "transfer_exn e"
      using assms by blast
    ultimately show "\<exists>s'. attempt sr rc reconnects parse msg s = Inr s'"
      using that [of e] by (auto simp: attempt_def transfer_exn_def)
  qed
  have "\<not> is_server_exception e" "e \<noteq> Server x" if "transfer_exn e" for e x
    using that by (auto simp: transfer_exn_def is_server_exception_def)
  then show ?thesis
    by (simp add: call_void_def call_result_def call_with_def call_loop_def Let_def never)
qed

theorem call_never_gives_up_witness:
  "call_void json_api (\<lambda>m c. (Throws WriteFailException, c)) script_rc 0 42 ANil
     \<lparr>ac_client = ([], 0), ac_msg_id = 0, ac_clientno = 7\<rparr> = None
   \<and> call_result json_api (\<lambda>m c. (Throws WriteFailException, c)) script_rc (\<lambda>v. Returns v) 0 42 ANil
     \<lparr>ac_client = ([], 0), ac_msg_id = 0, ac_clientno = 7\<rparr> = None"
  by (rule call_never_gives_up) (simp add: transfer_exn_def)

text \<open>
  (C40) The two \<open>call\<close>s treat an error of the server differently: the typed one throws every
  error but SOCKET_CLOSED to its caller, the void one reconnects after any error and
  asks again, so that a method the server does not have keeps it asking for ever.
\<close>
theorem void_call_asks_for_ever:
  fixes sr :: "bytes \<Rightarrow> 'c \<Rightarrow> (exn, bytes) outcome \<times> 'c"
  assumes "json_laws J" "e \<noteq> ServerCloseSocketException"
    "\<And>m c. \<exists>c'. sr m c = (Returns (build_error J (get_code e)), c')"
    "\<And>c. \<exists>c'. rc c = (Returns (), c')"
  shows "call_void J sr rc now h content a = None
    \<and> (\<exists>a'. call_result J sr rc decode now h content a = Some (Throws (Server e), a'))"
proof
  have never: "forever (attempt sr rc is_server_exception (parse_void J) msg) s = None" for msg s
  proof (rule forever_never_stops)
    fix s :: "i32 \<times> 'c"
    obtain t c where "s = (t, c)" by (cases s)
    moreover obtain c' where "sr msg c = (Returns (build_error J (get_code e)), c')"
      using assms(3) by blast
    moreover obtain c'' where "rc c' = (Returns (), c'')"
      using assms(4) by blast
    ultimately show "\<exists>s'. attempt sr rc is_server_exception (parse_void J) msg s = Inr s'"
      by (simp add: attempt_def parse_result_error [OF assms(1)] is_server_exception_def)
  qed
  then show "call_void J sr rc now h content a = None"
    by (simp add: call_void_def call_with_def call_loop_def Let_def)
  obtain c' where "sr (build_client_request J (ac_clientno a) 0 (ac_msg_id a) now h content)
      (ac_client a) = (Returns (build_error J (get_code e)), c')"
    using assms(3) by blast
  then show "\<exists>a'. call_result J sr rc decode now h content a = Some (Throws (Server e), a')"
    using assms(2)
    by (simp add: call_result_def call_with_def call_loop_def forever.simps attempt_def
        parse_result_error [OF assms(1)] Let_def)
qed

theorem void_call_asks_for_ever_witness:
  "call_void json_api
     (\<lambda>m c. (Returns (build_error json_api (get_code ServerMethodNotFoundException)), c))
     script_rc 0 42 ANil \<lparr>ac_client = ([], 0), ac_msg_id = 0, ac_clientno = 7\<rparr> = None
   \<and> (\<exists>a'. call_result json_api
     (\<lambda>m c. (Returns (build_error json_api (get_code ServerMethodNotFoundException)), c))
     script_rc (\<lambda>v. Returns v) 0 42 ANil \<lparr>ac_client = ([], 0), ac_msg_id = 0, ac_clientno = 7\<rparr>
     = Some (Throws (Server ServerMethodNotFoundException), a'))"
  by (rule void_call_asks_for_ever [OF json_api_laws]) auto

text \<open>
  A client whose connection the server closes (error SOCKET_CLOSED) reconnects once for
  each such reply, sends the same request again, and returns what the first proper
  response holds.
\<close>
theorem call_survives_eviction:
  assumes "json_laws J" "decode (sout r) = Returns v"
  shows "call_result J script_sr script_rc decode now h content
      \<lparr>ac_client = (replicate n (Returns (build_error J SOCKET_CLOSED))
                    @ Returns (build_response J r) # ys, k), ac_msg_id = i, ac_clientno = c\<rparr>
    = Some (Returns v, \<lparr>ac_client = (ys, k + n), ac_msg_id = i + 1, ac_clientno = c\<rparr>)"
proof -
  have err: "parse_result J decode (build_error J SOCKET_CLOSED)
      = Throws (Server ServerCloseSocketException)"
    using parse_result_error(1) [OF assms(1), of decode ServerCloseSocketException] by simp
  have ok: "parse_result J decode (build_response J r) = Returns v"
    using parse_result_response(1) [OF assms(1), of decode r] assms(2) by simp
  show ?thesis
    by (simp add: call_result_def call_with_def call_loop_def check_tried_def MAX_TRY_def Let_def
        attempts_reconnect [where parse = "parse_result J decode", OF err]
        attempt_ends [where parse = "parse_result J decode", OF ok])
qed

theorem call_survives_eviction_witness:
  "call_result json_api script_sr script_rc (\<lambda>v. Returns v) 0 42 ANil
      \<lparr>ac_client = ([Returns (build_error json_api SOCKET_CLOSED),
                     Returns (build_response json_api \<lparr>sout = JInt 5\<rparr>)], 0),
       ac_msg_id = 0, ac_clientno = 7\<rparr>
    = Some (Returns (JInt 5), \<lparr>ac_client = ([], 1), ac_msg_id = 1, ac_clientno = 7\<rparr>)"
  using call_survives_eviction [OF json_api_laws, of "\<lambda>v. Returns v"
      "\<lparr>sout = JInt 5\<rparr>" "JInt 5" 0 42 ANil 1 "[]" 0 0 7] by simp

end
