(* ===== verification/Service.thy ===== *)
theory Service
  imports Client
begin

text \<open>
  asio.hpp and service.hpp: the interface \<open>ASIO\<close> of the servers (locale \<open>asio\<close>) and
  \<open>AbstractService\<close>, the table of handlers that provides it; with the part of the request
  handling that \<open>ConnectionThread::run\<close> and \<open>PollServer::_handle_request\<close> share. A
  handler is a function on the user's object and the request: it fills the response, and
  returns or throws.
\<close>

type_synonym ('s, 'j) handler =
  "'s \<times> 'j request \<Rightarrow> (exn, unit) outcome \<times> 's \<times> 'j request"

record ('s, 'j) service =
  sv_object :: 's
  sv_handlers :: "size_t \<rightharpoonup> ('s, 'j) handler"

section \<open>AbstractService\<close>

definition new_service :: "'s \<Rightarrow> ('s, 'j) service" where
  "new_service s = \<lparr>sv_object = s, sv_handlers = Map.empty\<rparr>"

definition reg :: "('s, 'j) service \<Rightarrow> size_t \<Rightarrow> ('s, 'j) handler \<Rightarrow> int \<times> ('s, 'j) service" where
  "reg sv handler_id handler =
     (let rst = (if sv_handlers sv handler_id \<noteq> None then 1 else 0)
      in (rst, sv\<lparr>sv_handlers := (sv_handlers sv)(handler_id \<mapsto> handler)\<rparr>))"

text \<open>\<open>register_service\<close> runs the generated \<open>_reg_wrappers\<close>: one \<open>reg\<close> per method.\<close>

fun register_service :: "('s, 'j) service \<Rightarrow> (size_t \<times> ('s, 'j) handler) list \<Rightarrow> int \<times> ('s, 'j) service"
where
  "register_service sv [] = (0, sv)"
| "register_service sv ((i, h) # wrappers) = register_service (snd (reg sv i h)) wrappers"

definition on_request ::
  "('s, 'j) service \<times> 'j request \<Rightarrow> (exn, int) outcome \<times> ('s, 'j) service \<times> 'j request" where
  "on_request s =
     (case s of (sv, request) \<Rightarrow>
       (case sv_handlers sv (handlerid request) of
          None \<Rightarrow> (Returns 0, sv, request)
        | Some handler \<Rightarrow>
            (case handler (sv_object sv, request) of (r, obj, request') \<Rightarrow>
               (case r of
                  Returns _ \<Rightarrow> Returns 1
                | Throws e \<Rightarrow>
                    if e = SerializeFailException then Throws (Server ServerParamMismatchException)
                    else Throws e
                | Faults f \<Rightarrow> Faults f
                | Waits \<Rightarrow> Waits,
                sv\<lparr>sv_object := obj\<rparr>, request'))))"

section \<open>What the servers do with a message\<close>

text \<open>
  The body of the \<open>try\<close> block of both servers, up to the response: an empty message, a
  message that is no request, a method that does not exist; then the text of the response.
\<close>

definition serve_message ::
  "'j jconer \<Rightarrow> ('v \<times> 'j request \<Rightarrow> (exn, int) outcome \<times> 'v \<times> 'j request) \<Rightarrow> 'v \<Rightarrow> bytes \<Rightarrow>
   (exn, 'j response) outcome \<times> 'v" where
  "serve_message J serve sv msg =
     (if msg = [] then (Throws (Server ServerBadMessageException), sv)
      else
        (case build_request J msg of
           Returns request \<Rightarrow>
             (case serve (sv, request) of (r, sv', request') \<Rightarrow>
               (obind r (\<lambda>rst.
                  if rst = 0 then Throws (Server ServerMethodNotFoundException)
                  else Returns (resp request')), sv'))
         | Throws e \<Rightarrow> (Throws e, sv)
         | Faults f \<Rightarrow> (Faults f, sv)
         | Waits \<Rightarrow> (Waits, sv)))"

text \<open>
  The messages that answer it. \<open>PollServer::\_handle\_request\<close> sends the response, or the error of
  any ServerException it catches; any other exception leaves it, and nothing is sent.
\<close>

definition poll_replies :: "'j jconer \<Rightarrow> (exn, 'j response) outcome \<Rightarrow> bytes list" where
  "poll_replies J r =
     (case r of
        Returns p \<Rightarrow> [build_response J p]
      | Throws (Server e) \<Rightarrow> [build_error J (get_code e)]
      | _ \<Rightarrow> [])"

text \<open>
  \<open>ConnectionThread::run\<close> does so too, with two differences: while the connection is open a
  ServerCloseSocketException is not answered, and if it was shut down while the request was served
  the response is followed by the error SOCKET_CLOSED.
\<close>

definition worker_replies :: "'j jconer \<Rightarrow> bool \<Rightarrow> (exn, 'j response) outcome \<Rightarrow> bytes list" where
  "worker_replies J connected r =
     (case r of
        Returns p \<Rightarrow> build_response J p
          # (if connected then [] else [build_error J (get_code ServerCloseSocketException)])
      | Throws (Server e) \<Rightarrow>
          (if \<not> connected \<or> get_code e \<noteq> SOCKET_CLOSED then [build_error J (get_code e)] else [])
      | _ \<Rightarrow> [])"

text \<open>
  What a server relies on: a request that is not served (result 0) changes nothing, and a
  failed deserialization is reported as a parameter mismatch, never as itself.
\<close>

locale asio =
  fixes serve :: "'v \<times> 'j request \<Rightarrow> (exn, int) outcome \<times> 'v \<times> 'j request"
  assumes unserved: "serve (sv, q) = (Returns 0, sv', q') \<Longrightarrow> sv' = sv \<and> q' = q"
    and mismatch: "fst (serve s) \<noteq> Throws SerializeFailException"
begin

lemma served_throws:
  assumes "fst (serve_message J serve sv msg) = Throws e"
  shows "e \<noteq> SerializeFailException \<and> ((\<exists>x. e = Server x) \<or> (\<exists>q. fst (serve (sv, q)) = Throws e))"
proof -
  consider "msg = []" | "msg \<noteq> []" "build_request J msg = not_parsed"
    | q where "msg \<noteq> []" "build_request J msg = Returns q"
    using build_request_not_parsed_or_returns by metis
  then show ?thesis
  proof cases
    case 3
    obtain r sv' q' where s: "serve (sv, q) = (r, sv', q')" by (cases "serve (sv, q)")
    then show ?thesis
      using assms 3 mismatch [of "(sv, q)"]
      by (auto simp: serve_message_def obind_Throws_iff split: if_splits) (metis fst_conv)
  qed (use assms in \<open>auto simp: serve_message_def\<close>)
qed

text \<open>A message that is no request, or whose method does not exist, leaves the service as it was.\<close>

lemma rejected_unchanged:
  assumes "\<And>q. build_request J msg \<noteq> Returns q"
  shows "serve_message J serve sv msg =
    (Throws (Server (if msg = [] then ServerBadMessageException else ServerJsonNotParsedException)), sv)"
  using assms build_request_not_parsed_or_returns [of J msg]
  by (auto simp: serve_message_def)

lemma not_found_unchanged:
  assumes "build_request J msg = Returns q" "msg \<noteq> []" "fst (serve (sv, q)) = Returns 0"
  shows "serve_message J serve sv msg = (Throws (Server ServerMethodNotFoundException), sv)"
  using assms unserved by (cases "serve (sv, q)") (auto simp: serve_message_def)

end

interpretation service: asio on_request
proof unfold_locales
  fix sv :: "('a, 'b) service" and q sv' q'
  assume "on_request (sv, q) = (Returns 0, sv', q')"
  then show "sv' = sv \<and> q' = q"
    by (auto simp: on_request_def split: option.splits prod.splits outcome.splits if_splits)
next
  fix s :: "('a, 'b) service \<times> 'b request"
  show "fst (on_request s) \<noteq> Throws SerializeFailException"
    by (auto simp: on_request_def split: option.splits prod.splits outcome.splits)
qed

section \<open>Lemmas\<close>

lemma register_handlers:
  "sv_handlers (snd (register_service sv ws)) = map_add (sv_handlers sv) (map_of (rev ws))"
  "sv_object (snd (register_service sv ws)) = sv_object sv"
  by (induction ws arbitrary: sv)
     (auto simp: reg_def Let_def map_add_def split: option.split)

text \<open>What the client makes of the reply to its request, by the behaviour of the handler.\<close>

lemma serve_client_request:
  assumes "json_laws J" "isArray J content"
    "request = Request J cno sno 1 ts mid h content (request_object J cno sno mid ts h content)"
  shows "serve_message J serve sv (build_client_request J cno sno mid ts h content) =
    (case serve (sv, request) of (r, sv', request') \<Rightarrow>
       (obind r (\<lambda>rst. if rst = 0 then Throws (Server ServerMethodNotFoundException)
                       else Returns (resp request')), sv'))"
proof -
  have "build_client_request J cno sno mid ts h content \<noteq> []"
    using dumps_text(1) [OF assms(1)] by (simp add: build_client_request_dumps)
  then show ?thesis
    using build_request_client [OF assms(1,2)] assms(3) by (simp add: serve_message_def)
qed

section \<open>Properties\<close>

text \<open>
  Dispatch: once the wrappers are registered, a request runs the wrapper registered last
  for its handler id, on the user's object, and no other; without one the request is
  reported as not served and nothing changes. \<open>reg\<close> says 1 just when it replaces one.
\<close>
theorem dispatch_last_registered:
  "on_request (snd (register_service (new_service obj) wrappers), q) =
     (let sv = snd (register_service (new_service obj) wrappers) in
      case map_of (rev wrappers) (handlerid q) of
        None \<Rightarrow> (Returns 0, sv, q)
      | Some handler \<Rightarrow>
          (case handler (obj, q) of (r, obj', q') \<Rightarrow>
             (if r = Throws SerializeFailException then Throws (Server ServerParamMismatchException)
              else obind r (\<lambda>_. Returns 1), sv\<lparr>sv_object := obj'\<rparr>, q')))
   \<and> (fst (reg (snd (register_service (new_service obj) wrappers)) i handler) =
        (if i \<in> fst ` set wrappers then 1 else 0))"
proof
  let ?sv = "snd (register_service (new_service obj) wrappers)"
  have h: "sv_handlers ?sv = map_of (rev wrappers)" "sv_object ?sv = obj"
    by (simp_all add: register_handlers new_service_def)
  show "on_request (?sv, q) =
     (let sv = ?sv in
      case map_of (rev wrappers) (handlerid q) of
        None \<Rightarrow> (Returns 0, sv, q)
      | Some handler \<Rightarrow>
          (case handler (obj, q) of (r, obj', q') \<Rightarrow>
             (if r = Throws SerializeFailException then Throws (Server ServerParamMismatchException)
              else obind r (\<lambda>_. Returns 1), sv\<lparr>sv_object := obj'\<rparr>, q')))"
    using h by (auto simp: on_request_def Let_def split: option.split prod.split outcome.split)
  show "fst (reg ?sv i handler) = (if i \<in> fst ` set wrappers then 1 else 0)"
    using h map_of_eq_None_iff [of "rev wrappers" i] by (auto simp: reg_def Let_def)
qed

text \<open>
  (C6) End to end, for both servers: a request built by a client is answered with one message, which
  the client takes for the content the handler wrote, through its deserializer; for an unknown
  method, a parameter that does not fit and a server exception of the handler, it is the exception of
  the same name. No message at all answers a handler that throws anything else, and on the socket
  server one that throws ServerCloseSocketException while the connection is open. The socket server
  adds SOCKET_CLOSED to the response when the connection was shut down meanwhile.
\<close>
theorem rpc_end_to_end:
  assumes "json_laws J" "isArray J content"
    "request = Request J cno sno 1 ts mid h content (request_object J cno sno mid ts h content)"
    "serve_message J on_request sv (build_client_request J cno sno mid ts h content) = (r, sv')"
  shows "case sv_handlers sv h of
      None \<Rightarrow> sv' = sv
        \<and> map (parse_result J decode) (poll_replies J r) = [Throws (Server ServerMethodNotFoundException)]
        \<and> worker_replies J connected r = poll_replies J r
    | Some handler \<Rightarrow>
        (case handler (sv_object sv, request) of (hr, obj', request') \<Rightarrow>
          sv' = sv\<lparr>sv_object := obj'\<rparr>
          \<and> map (parse_result J decode) (poll_replies J r) =
              (case hr of
                 Returns _ \<Rightarrow> [decode (sout (resp request'))]
               | Throws (Server e) \<Rightarrow> [Throws (Server e)]
               | Throws SerializeFailException \<Rightarrow> [Throws (Server ServerParamMismatchException)]
               | _ \<Rightarrow> [])
          \<and> worker_replies J connected r =
              (if connected \<and> hr = Throws (Server ServerCloseSocketException) then []
               else poll_replies J r
                 @ (if \<not> connected \<and> hr = Returns () then [build_error J SOCKET_CLOSED] else [])))"
proof -
  have id: "handlerid request = h"
    using assms(3) by (simp add: Request_def)
  note served = serve_client_request [OF assms(1-3), of on_request sv, unfolded assms(4)]
  note parsed = parse_result_error(1) [OF assms(1), of decode] parse_result_response(1) [OF assms(1), of decode]
  show ?thesis
  proof (cases "sv_handlers sv h")
    case None
    then show ?thesis
      using served id parsed(1) [of ServerMethodNotFoundException]
      by (simp add: on_request_def poll_replies_def worker_replies_def proto_codes)
  next
    case (Some handler)
    obtain hr obj' request' where hr: "handler (sv_object sv, request) = (hr, obj', request')"
      by (cases "handler (sv_object sv, request)")
    show ?thesis
    proof (cases hr)
      case (Throws e)
      then show ?thesis
        using served id Some hr parsed(1) parsed(1) [of ServerParamMismatchException] get_code_closed
        by (cases e) (simp_all add: on_request_def poll_replies_def worker_replies_def, simp_all add: proto_codes)
    qed (use served id Some hr parsed in \<open>simp_all add: on_request_def poll_replies_def worker_replies_def\<close>)
  qed
qed

definition answer_7 :: "(nat, json) handler" where
  "answer_7 = (\<lambda>(n, q). (Returns (), n + 1, q\<lparr>resp := \<lparr>sout = JInt 7\<rparr>\<rparr>))"

text \<open>A sample request and its reply.\<close>

definition sample_request :: bytes where
  "sample_request = build_client_request json_api 1 0 3 99 42 ANil"

definition sample_service :: "(nat, json) service" where
  "sample_service = snd (reg (new_service 0) 42 answer_7)"

lemma sample_length: "0 < length sample_request" "length sample_request \<le> 1024"
  by code_simp+

lemma sample_served:
  "serve_message json_api on_request sample_service sample_request =
     (Returns \<lparr>sout = JInt 7\<rparr>, sample_service\<lparr>sv_object := 1\<rparr>)"
  unfolding sample_request_def serve_message_def
  by (subst build_request_client [OF json_api_laws])
     (simp_all add: json_api_def build_client_request_def sample_service_def reg_def new_service_def
        on_request_def answer_7_def Request_def)

theorem rpc_end_to_end_witness:
  "\<exists>r sv'. serve_message json_api on_request (snd (reg (new_service 0) 42 answer_7))
       (build_client_request json_api 1 0 3 99 42 ANil) = (r, sv')
     \<and> sv_object sv' = 1 \<and> map (parse_result json_api Returns) (worker_replies json_api True r) = [Returns (JInt 7)]"
proof -
  let ?sv = "snd (reg (new_service 0) 42 answer_7)"
  obtain r sv' where r: "serve_message json_api on_request ?sv
      (build_client_request json_api 1 0 3 99 42 ANil) = (r, sv')"
    by (cases "serve_message json_api on_request ?sv (build_client_request json_api 1 0 3 99 42 ANil)")
  show ?thesis
    using rpc_end_to_end [OF json_api_laws _ refl r, of Returns True] r
    by (simp add: reg_def new_service_def answer_7_def Let_def json_api_def)
qed

end
