(* ===== verification/Sconn.thy ===== *)
theory Sconn
  imports Util Service
begin

text \<open>
  sconn.hpp, and the parts of asio.hpp and service.hpp that reach it: the server connector
  with its handler and its listening socket, and the service that registers itself with
  it. The log of the system calls stands for the state of the kernel.
\<close>

datatype lcall =
    LSocket
  | LSetsockopt int                    \<comment> \<open>SO\_REUSEADDR on a descriptor\<close>
  | LBind int
  | LListen int int                    \<comment> \<open>descriptor and length of the queue\<close>

definition MAX_QUEUE_SIZE :: int where "MAX_QUEUE_SIZE = 100"

record 'h sconn =
  sc_handler :: "'h option"            \<comment> \<open>\<open>_handler\<close>, a pointer\<close>
  sc_sock :: int

section \<open>ServerConnector\<close>

text \<open>The constructor; \<open>r\<close> is the result of \<open>getaddrinfo\<close>.\<close>

definition ServerConnector :: "string \<Rightarrow> int \<Rightarrow> (exn, 'h sconn) outcome" where
  "ServerConnector port r =
     (if r \<noteq> 0 then Throws (HostFailException ''Function getaddrinfo error'' ''localhost'' port)
      else Returns \<lparr>sc_handler = None, sc_sock = UNINIT_SOCKET\<rparr>)"

definition ServerConnector_register_service ::
  "('h, 'm) sconn_scheme \<Rightarrow> 'h \<Rightarrow> int \<times> ('h, 'm) sconn_scheme" where
  "ServerConnector_register_service c handler = (0, c\<lparr>sc_handler := Some handler\<rparr>)"

text \<open>\<open>s\<close>, \<open>b\<close> and \<open>l\<close> are the results of \<open>socket\<close>, \<open>bind\<close> and \<open>listen\<close>.\<close>

definition ServerConnector_listen ::
  "int \<times> int \<times> int \<Rightarrow> ('h, 'm) sconn_scheme \<Rightarrow> (exn, int) outcome \<times> ('h, 'm) sconn_scheme \<times> lcall list"
where
  "ServerConnector_listen k c =
     (case k of (s, b, l) \<Rightarrow>
       if sc_sock c \<noteq> UNINIT_SOCKET then (Returns (-1), c, [])
       else
         (let c' = c\<lparr>sc_sock := s\<rparr> in
          if s = UNINIT_SOCKET then (Throws (SocketFailException ''socket''), c', [LSocket])
          else if b \<noteq> 0
          then (Throws (SocketFailException ''bind''), c', [LSocket, LSetsockopt s, LBind s])
          else if l \<noteq> 0
          then (Throws (SocketFailException ''listen''), c',
                [LSocket, LSetsockopt s, LBind s, LListen s MAX_QUEUE_SIZE])
          else (Returns 0, c', [LSocket, LSetsockopt s, LBind s, LListen s MAX_QUEUE_SIZE])))"

section \<open>A service on a server\<close>

text \<open>
  The constructor of \<open>AbstractService\<close> registers the service with the connector, which
  keeps a pointer: the services live in a store, \<open>this\<close> is an address of it.
\<close>

definition AbstractService ::
  "'s \<Rightarrow> nat \<Rightarrow> (nat \<rightharpoonup> ('s, 'j) service) \<Rightarrow> (nat, 'm) sconn_scheme \<Rightarrow>
   (nat \<rightharpoonup> ('s, 'j) service) \<times> (nat, 'm) sconn_scheme" where
  "AbstractService obj this store c =
     (store(this \<mapsto> new_service obj), snd (ServerConnector_register_service c this))"

text \<open>\<open>listen\<close> and \<open>stop\<close> of the service call the connector's, whose result they drop.\<close>

definition AbstractService_listen :: "('c \<Rightarrow> (exn, int) outcome \<times> 'c) \<Rightarrow> 'c \<Rightarrow> (exn, int) outcome \<times> 'c" where
  "AbstractService_listen start c = (case start c of (r, c') \<Rightarrow> (obind r (\<lambda>_. Returns 0), c'))"

definition AbstractService_stop :: "('c \<Rightarrow> (exn, int) outcome \<times> 'c) \<Rightarrow> 'c \<Rightarrow> (exn, int) outcome \<times> 'c" where
  "AbstractService_stop stop c = (case stop c of (r, c') \<Rightarrow> (obind r (\<lambda>_. Returns 0), c'))"

text \<open>The connector holds the address of the service, so a later \<open>reg\<close> is seen through it.\<close>

lemma registered_service:
  "AbstractService obj this store c = (store', c') \<Longrightarrow>
     sc_handler c' = Some this \<and> store' this = Some (new_service obj) \<and> sc_sock c' = sc_sock c"
  by (auto simp: AbstractService_def ServerConnector_register_service_def)

end
