(* ===== verification/SocketLoops.thy ===== *)
theory SocketLoops
  imports Prelude "HOL-Library.Sublist"
begin

text \<open>
  The two loops that move a message over a socket. \<open>send_loop\<close> is the loop of
  \<open>SockClient::_send\<close> and \<open>Connection::_send\<close>, \<open>recv_loop\<close> the one of
  \<open>SockClient::_recv\<close> and \<open>Connection::_recv\<close>: the classes differ only in what they
  do with the result of a system call, which is the argument \<open>chk\<close>. The buffer is an
  argument too, known by the contracts \<open>read_buffer\<close> and \<open>write_buffer\<close>; the
  classes of buffer.hpp are shown to meet them in \<open>Buffer\<close>.

  The kernel is a script: the list of the results of the successive \<open>read\<close> (or
  \<open>write\<close>) calls on the socket. A loop that has used up the script is waiting.
\<close>

section \<open>System calls\<close>

datatype rres = RErr | RData bytes    \<comment> \<open>-1, or the bytes delivered; no bytes is end of file\<close>

fun sys_read :: "rres \<Rightarrow> nat \<Rightarrow> bytes \<Rightarrow> i32 \<times> bytes" where
  "sys_read RErr n arr = (-1, arr)"
| "sys_read (RData bs) n arr =
     (let bs' = take n bs in (word_of_nat (length bs'), overlay bs' arr))"

abbreviation CHUNK :: nat where "CHUNK \<equiv> 1024"   \<comment> \<open>\<open>MAX_BUFF_SIZE\<close>, \<open>MAX_CHUNK_SIZE\<close>\<close>

datatype 'x verdict = Go | Stop 'x | Fatal

text \<open>
  A socket as the program sees it: the results of the writes and reads to come, the bytes
  that have gone out, and the log of the descriptors given to \<open>close\<close>.
\<close>

record wire =
  n_writes :: "int list"
  n_reads :: "rres list"
  n_sent :: bytes
  n_closed :: "int list"

section \<open>The sending loop\<close>

fun send_loop ::
  "('b \<Rightarrow> bytes \<Rightarrow> size_t \<Rightarrow> fault + size_t \<times> bytes \<times> 'b) \<Rightarrow> (int \<Rightarrow> int \<Rightarrow> 'x verdict) \<Rightarrow>
   int list \<Rightarrow> 'b \<Rightarrow> bytes \<Rightarrow> bytes \<Rightarrow> ('x, unit) outcome \<times> bytes \<times> int list" where
  "send_loop rread chk ws buf chunk out =
     (case rread buf chunk (word_of_nat CHUNK) of
        Inl f \<Rightarrow> (Faults f, out, ws)
      | Inr (n, chunk', buf') \<Rightarrow>
          (let len = sint (ucast n :: i32) in
           if len \<noteq> 0
           then (case ws of
                   [] \<Rightarrow> (Waits, out, [])
                 | w # ws' \<Rightarrow>
                     (let out' = out @ take (nat w) (take (nat len) chunk') in
                      case chk w len of
                        Go \<Rightarrow> send_loop rread chk ws' buf' chunk' out'
                      | Stop x \<Rightarrow> (Throws x, out', ws')
                      | Fatal \<Rightarrow> (Faults FatalLog, out', ws')))
           else (Returns (), out, ws)))"

declare send_loop.simps [simp del]

text \<open>The results of the writes when the kernel takes every chunk whole.\<close>

fun full_writes :: "nat \<Rightarrow> int list" where
  "full_writes n = (if n = 0 then [] else int (min CHUNK n) # full_writes (n - CHUNK))"

declare full_writes.simps [simp del]

lemma full_writes_0 [simp]: "full_writes 0 = []"
  by (subst full_writes.simps) simp

lemma full_writes_pos: "0 < n \<Longrightarrow> full_writes n = int (min CHUNK n) # full_writes (n - CHUNK)"
  by (subst full_writes.simps) simp

lemma int_len: "k \<le> CHUNK \<Longrightarrow> sint (ucast (word_of_nat k :: size_t) :: i32) = int k"
  by (simp add: unsigned_of_nat take_bit_nat_eq_self sint_word_of_nat32)

text \<open>The loop throws only what the check makes it throw.\<close>

lemma send_loop_throws:
  "fst (send_loop rread chk ws b chunk out) = Throws x \<Longrightarrow> \<exists>w n. chk w n = Stop x"
proof (induction ws arbitrary: b chunk out)
  case Nil
  then show ?case
    by (subst (asm) send_loop.simps) (auto simp: Let_def split: sum.splits if_splits)
next
  case (Cons w ws)
  from Cons.prems show ?case
    by (subst (asm) send_loop.simps)
       (use Cons.IH in \<open>auto simp: Let_def split: sum.splits if_splits verdict.splits\<close>; blast)
qed

locale read_buffer =
  fixes rread :: "'b \<Rightarrow> bytes \<Rightarrow> size_t \<Rightarrow> fault + size_t \<times> bytes \<times> 'b"
    and unread :: "'b \<Rightarrow> bytes"
    and inv :: "'b \<Rightarrow> bool"
  assumes read_step:
    "inv b \<Longrightarrow> unat n \<le> length dst \<Longrightarrow> unat n < 2 ^ 62 \<Longrightarrow>
     \<exists>b'. rread b dst n = Inr (word_of_nat (length (take (unat n) (unread b))),
                              overlay (take (unat n) (unread b)) dst, b')
        \<and> inv b' \<and> unread b' = drop (unat n) (unread b)"
begin

lemma read_chunk:
  assumes "inv b" "length dst = CHUNK"
  obtains b' where
    "rread b dst 1024 = Inr (word_of_nat (length (take CHUNK (unread b))),
                             overlay (take CHUNK (unread b)) dst, b')"
    "inv b'" "unread b' = drop CHUNK (unread b)"
  using read_step [of b 1024 dst] assms by auto

text \<open>One turn of the loop, in terms of what is left to send.\<close>

lemma send_turn:
  assumes "inv b" "length chunk = CHUNK"
  obtains b' chunk' where
    "send_loop rread chk ws b chunk out =
       (if unread b = [] then (Returns (), out, ws)
        else case ws of
            [] \<Rightarrow> (Waits, out, [])
          | w # ws' \<Rightarrow>
              (let out' = out @ take (nat w) (take CHUNK (unread b)) in
               case chk w (int (length (take CHUNK (unread b)))) of
                 Go \<Rightarrow> send_loop rread chk ws' b' chunk' out'
               | Stop x \<Rightarrow> (Throws x, out', ws')
               | Fatal \<Rightarrow> (Faults FatalLog, out', ws')))"
    "inv b'" "unread b' = drop CHUNK (unread b)" "length chunk' = CHUNK"
proof -
  let ?u = "take CHUNK (unread b)"
  obtain b' where b': "rread b chunk 1024 = Inr (word_of_nat (length ?u), overlay ?u chunk, b')"
      "inv b'" "unread b' = drop CHUNK (unread b)"
    using read_chunk [OF assms] by metis
  have len: "sint (ucast (word_of_nat (length ?u) :: size_t) :: i32) = int (length ?u)"
    by (rule int_len) simp
  have chunk: "length (overlay ?u chunk) = CHUNK"
    using assms(2) by (simp add: length_overlay)
  show ?thesis
    by (rule that [of b' "overlay ?u chunk"])
       (use b' assms(2) len chunk in \<open>auto simp: send_loop.simps [of rread chk ws b] Let_def
          simp del: length_take split: list.split\<close>)
qed

text \<open>If the kernel takes every chunk whole, the loop sends exactly the unread bytes.\<close>

lemma send_all:
  assumes "inv b" "length chunk = CHUNK" "\<And>n. 0 < n \<Longrightarrow> chk n n = Go"
  shows "send_loop rread chk (full_writes (length (unread b)) @ ws) b chunk out
         = (Returns (), out @ unread b, ws)"
  using assms(1,2)
proof (induction "length (unread b)" arbitrary: b chunk out rule: less_induct)
  case less
  let ?ws = "full_writes (length (unread b)) @ ws"
  obtain b' chunk' where turn: "send_loop rread chk ?ws b chunk out =
       (if unread b = [] then (Returns (), out, ?ws)
        else case ?ws of
            [] \<Rightarrow> (Waits, out, [])
          | w # ws' \<Rightarrow>
              (let out' = out @ take (nat w) (take CHUNK (unread b)) in
               case chk w (int (length (take CHUNK (unread b)))) of
                 Go \<Rightarrow> send_loop rread chk ws' b' chunk' out'
               | Stop x \<Rightarrow> (Throws x, out', ws')
               | Fatal \<Rightarrow> (Faults FatalLog, out', ws')))"
    and b': "inv b'" "unread b' = drop CHUNK (unread b)" "length chunk' = CHUNK"
    by (rule send_turn [OF less.prems, of chk ?ws out]) (rule that)
  show ?case
  proof (cases "unread b = []")
    case True
    with turn show ?thesis by simp
  next
    case False
    then have pos: "0 < length (unread b)" by simp
    have "length (unread b') < length (unread b)" using False b'(2) by simp
    from less.hyps [OF this b'(1,3)] False b'(2) show ?thesis
      by (subst turn) (simp add: full_writes_pos [OF pos] Let_def assms(3) min.commute [of _ CHUNK])
  qed
qed

text \<open>
  Whatever the kernel does, what has gone out is a prefix of the unread bytes, if the loop
  goes on only after a full write; and if the loop returns, it is all of them.
\<close>

lemma send_prefix:
  assumes "inv b" "length chunk = CHUNK" "\<And>w n. chk w n = Go \<Longrightarrow> w = n"
  shows "\<exists>p. prefix p (unread b) \<and> fst (snd (send_loop rread chk ws b chunk out)) = out @ p
    \<and> (fst (send_loop rread chk ws b chunk out) = Returns () \<longrightarrow> p = unread b)"
  using assms(1,2)
proof (induction ws arbitrary: b chunk out)
  case Nil
  obtain b' chunk' where "send_loop rread chk [] b chunk out =
       (if unread b = [] then (Returns (), out, []) else (Waits, out, []))"
    by (rule send_turn [OF Nil, of chk "[]" out]) simp
  then show ?case by simp
next
  case (Cons w ws)
  let ?u = "take CHUNK (unread b)"
  obtain b' chunk' where turn0: "send_loop rread chk (w # ws) b chunk out =
       (if unread b = [] then (Returns (), out, w # ws)
        else case w # ws of
            [] \<Rightarrow> (Waits, out, [])
          | w # ws' \<Rightarrow>
              (let out' = out @ take (nat w) ?u in
               case chk w (int (length ?u)) of
                 Go \<Rightarrow> send_loop rread chk ws' b' chunk' out'
               | Stop x \<Rightarrow> (Throws x, out', ws')
               | Fatal \<Rightarrow> (Faults FatalLog, out', ws')))"
    and b': "inv b'" "unread b' = drop CHUNK (unread b)" "length chunk' = CHUNK"
    by (rule send_turn [OF Cons.prems, of chk "w # ws" out]) (rule that)
  note turn = turn0 [unfolded list.case]
  have stopped: "prefix (take (nat w) ?u) (unread b)"
    by (metis append_take_drop_id prefixI prefix_order.trans)
  show ?case
  proof (cases "unread b \<noteq> [] \<and> chk w (int (length ?u)) = Go")
    case True
    then have w: "take (nat w) ?u = ?u"
      using assms(3) [of w "int (length ?u)"] by (simp add: min_def)
    obtain p where "prefix p (unread b')"
        "fst (snd (send_loop rread chk ws b' chunk' (out @ ?u))) = (out @ ?u) @ p"
        "fst (send_loop rread chk ws b' chunk' (out @ ?u)) = Returns () \<longrightarrow> p = unread b'"
      using Cons.IH [OF b'(1,3)] by blast
    moreover have "prefix (?u @ p) (unread b) \<longleftrightarrow> prefix p (unread b')"
      using b'(2) by (metis append_take_drop_id same_prefix_prefix)
    ultimately show ?thesis
      using True turn w b'(2) by (intro exI [of _ "?u @ p"]) (simp add: Let_def)
  next
    case False
    then show ?thesis
      using turn stopped by (cases "unread b = []"; cases "chk w (int (length ?u))")
        (auto simp: Let_def)
  qed
qed

end

section \<open>The receiving loop\<close>

fun recv_loop ::
  "('b \<Rightarrow> bytes \<Rightarrow> size_t \<Rightarrow> fault + size_t \<times> 'b) \<Rightarrow> (i32 \<Rightarrow> 'x verdict) \<Rightarrow> i32 \<Rightarrow>
   rres list \<Rightarrow> 'b \<Rightarrow> bytes \<Rightarrow> i32 \<Rightarrow> ('x, 'b) outcome \<times> rres list" where
  "recv_loop wwrite chk msize [] buf chunk curr_size = (Waits, [])"
| "recv_loop wwrite chk msize (r # rs) buf chunk curr_size =
     (case sys_read r CHUNK chunk of (chunk_len, chunk') \<Rightarrow>
       (case chk chunk_len of
          Stop x \<Rightarrow> (Throws x, rs)
        | Fatal \<Rightarrow> (Faults FatalLog, rs)
        | Go \<Rightarrow>
            (case wwrite buf chunk' (to_size chunk_len) of
               Inl f \<Rightarrow> (Faults f, rs)
             | Inr (_, buf') \<Rightarrow>
                 (let curr_size' = curr_size + chunk_len in
                  if curr_size' = msize then (Returns buf', rs)
                  else recv_loop wwrite chk msize rs buf' chunk' curr_size'))))"

lemma recv_loop_throws:
  "fst (recv_loop wwrite chk msize rs buf chunk got) = Throws x \<Longrightarrow> \<exists>n. chk n = Stop x"
proof (induction rs arbitrary: buf chunk got)
  case (Cons r rs)
  then show ?case
    by (auto simp: Let_def split: prod.splits sum.splits if_splits verdict.splits)
qed simp

locale write_buffer =
  fixes wwrite :: "'b \<Rightarrow> bytes \<Rightarrow> size_t \<Rightarrow> fault + size_t \<times> 'b"
    and contents :: "'b \<Rightarrow> bytes"
    and accept :: "'b \<Rightarrow> nat \<Rightarrow> nat"
    and inv :: "'b \<Rightarrow> bool"
    and cap :: nat
  assumes write_step:
    "inv b \<Longrightarrow> unat n \<le> length src \<Longrightarrow> length (contents b) + unat n \<le> cap \<Longrightarrow>
     \<exists>b'. wwrite b src n = Inr (word_of_nat (accept b (unat n)), b')
        \<and> inv b' \<and> contents b' = contents b @ take (accept b (unat n)) src"
    and accept_le: "accept b k \<le> k"
    and cap_int: "cap < 2 ^ 31"
begin

text \<open>
  A message that arrives in non-empty pieces, whatever their sizes, is put together in
  order: the loop stops exactly when \<open>msize\<close> bytes have come.
\<close>

lemma recv_all:
  assumes "inv b" "length chunk = CHUNK" "\<And>n. 0 \<le> sint n \<Longrightarrow> chk n = Go"
    "\<And>b n. accept b n = n"
    "\<And>c. c \<in> set cs \<Longrightarrow> 0 < length c \<and> length c \<le> CHUNK" "cs \<noteq> []"
    "got = word_of_nat (length (contents b))" "msize = word_of_nat (length (contents b @ concat cs))"
    "length (contents b @ concat cs) \<le> cap"
  shows "\<exists>b'. recv_loop wwrite chk msize (map RData cs @ rs) b chunk got = (Returns b', rs)
            \<and> inv b' \<and> contents b' = contents b @ concat cs"
  using assms(1,2,5-9)
proof (induction cs arbitrary: b chunk got)
  case Nil
  then show ?case by simp
next
  case (Cons c cs)
  let ?ch = "overlay c chunk"
  have c: "0 < length c" "length c \<le> CHUNK" using Cons.prems(3) by auto
  have sr: "sys_read (RData c) CHUNK chunk = (word_of_nat (length c), ?ch)"
    using c by (simp add: Let_def)
  have pos: "0 \<le> sint (word_of_nat (length c) :: i32)"
    using c by (simp add: sint_word_of_nat32)
  have sz: "unat (to_size (word_of_nat (length c))) = length c"
    using c by (simp add: unat_to_size sint_word_of_nat32)
  obtain b' where b': "wwrite b ?ch (to_size (word_of_nat (length c)))
        = Inr (word_of_nat (length c), b')" "inv b'" "contents b' = contents b @ c"
    using write_step [of b "to_size (word_of_nat (length c))" ?ch] Cons.prems(1,2,7) c sz assms(4)
    by (auto simp: overlay_def)
  let ?got = "got + word_of_nat (length c)"
  have got: "?got = word_of_nat (length (contents b'))"
    using Cons.prems(5) b'(3) by simp
  show ?case
  proof (cases "cs = []")
    case True
    then show ?thesis
      using sr b' got Cons.prems(6) assms(3) [OF pos] by simp
  next
    case False
    then have "concat cs \<noteq> []" using Cons.prems(3) by (cases cs) auto
    then have less: "length (contents b') < length (contents b' @ concat cs)" by simp
    have "?got \<noteq> msize"
    proof
      assume "?got = msize"
      then have "length (contents b') = length (contents b @ concat (c # cs))"
        using Cons.prems(6,7) b'(3) cap_int unfolding got
        by (subst word_of_nat_inj32 [symmetric]) auto
      then show False
        using less b'(3) by simp
    qed
    moreover have "\<exists>b''. recv_loop wwrite chk msize (map RData cs @ rs) b' ?ch ?got = (Returns b'', rs)
        \<and> inv b'' \<and> contents b'' = contents b' @ concat cs"
      by (rule Cons.IH) (use Cons.prems c b' got False in auto)
    ultimately show ?thesis
      using sr b' assms(3) [OF pos] by auto
  qed
qed

text \<open>Pieces that do not complete the message leave the loop going, with all of them stored.\<close>

lemma recv_partial:
  assumes "inv b" "length chunk = CHUNK" "\<And>n. 0 \<le> sint n \<Longrightarrow> chk n = Go"
    "\<And>b n. accept b n = n"
    "\<And>c. c \<in> set cs \<Longrightarrow> 0 < length c \<and> length c \<le> CHUNK"
    "got = word_of_nat (length (contents b))" "msize = word_of_nat full"
    "length (contents b @ concat cs) < full" "full \<le> cap"
  shows "\<exists>b' chunk'. recv_loop wwrite chk msize (map RData cs @ rs) b chunk got
        = recv_loop wwrite chk msize rs b' chunk' (word_of_nat (length (contents b')))
      \<and> inv b' \<and> contents b' = contents b @ concat cs \<and> length chunk' = CHUNK"
  using assms(1,2,5-8)
proof (induction cs arbitrary: b chunk got)
  case Nil
  then show ?case by auto
next
  case (Cons c cs)
  let ?ch = "overlay c chunk"
  have c: "0 < length c" "length c \<le> CHUNK" using Cons.prems(3) by auto
  have sr: "sys_read (RData c) CHUNK chunk = (word_of_nat (length c), ?ch)"
    using c by (simp add: Let_def)
  have pos: "0 \<le> sint (word_of_nat (length c) :: i32)"
    using c by (simp add: sint_word_of_nat32)
  have sz: "unat (to_size (word_of_nat (length c))) = length c"
    using c by (simp add: unat_to_size sint_word_of_nat32)
  obtain b' where b': "wwrite b ?ch (to_size (word_of_nat (length c)))
        = Inr (word_of_nat (length c), b')" "inv b'" "contents b' = contents b @ c"
    using write_step [of b "to_size (word_of_nat (length c))" ?ch] Cons.prems(1,2,6) c sz assms(4,9)
    by (auto simp: overlay_def)
  have "length (contents b') \<noteq> full" "length (contents b') < 2 ^ 31" "full < 2 ^ 31"
    using Cons.prems(6) b'(3) assms(9) cap_int by auto
  then have ne: "(word_of_nat (length (contents b')) :: i32) \<noteq> msize"
    using Cons.prems(5) by (simp only: word_of_nat_inj32 not_False_eq_True)
  have "\<exists>b'' chunk'. recv_loop wwrite chk msize (map RData cs @ rs) b' ?ch (word_of_nat (length (contents b')))
        = recv_loop wwrite chk msize rs b'' chunk' (word_of_nat (length (contents b'')))
      \<and> inv b'' \<and> contents b'' = contents b' @ concat cs \<and> length chunk' = CHUNK"
    by (rule Cons.IH) (use Cons.prems c b' in auto)
  moreover have "recv_loop wwrite chk msize (map RData (c # cs) @ rs) b chunk got
      = recv_loop wwrite chk msize (map RData cs @ rs) b' ?ch (word_of_nat (length (contents b')))"
    using sr b' ne Cons.prems(4) assms(3) [OF pos] by (simp add: Let_def)
  ultimately show ?case
    using b'(3) by auto
qed

text \<open>
  End of file is not an end of the loop: a peer that closes before the message is complete
  makes \<open>read\<close> return 0 for ever, and the loop goes round for ever.
\<close>

lemma recv_eof:
  assumes "inv b" "length chunk = CHUNK" "\<And>n. 0 \<le> sint n \<Longrightarrow> chk n = Go"
    "length (contents b) \<le> cap" "got \<noteq> msize"
  shows "recv_loop wwrite chk msize (replicate k (RData [])) b chunk got = (Waits, [])"
  using assms(1,2,4)
proof (induction k arbitrary: b chunk)
  case 0
  then show ?case by simp
next
  case (Suc k)
  obtain n b' where b': "wwrite b chunk 0 = Inr (n, b')" "inv b'"
      "contents b' = contents b @ take (accept b 0) chunk"
    using write_step [of b 0 chunk] Suc.prems by auto
  then show ?case
    using Suc assms(3) [of 0] assms(5) accept_le [of b 0] by (auto simp: overlay_def)
qed

lemma recv_cut_off:
  assumes "inv b" "length chunk = CHUNK" "\<And>n. 0 \<le> sint n \<Longrightarrow> chk n = Go"
    "\<And>b n. accept b n = n"
    "\<And>c. c \<in> set cs \<Longrightarrow> 0 < length c \<and> length c \<le> CHUNK"
    "got = word_of_nat (length (contents b))" "msize = word_of_nat full"
    "length (contents b @ concat cs) < full" "full \<le> cap"
  shows "recv_loop wwrite chk msize (map RData cs @ replicate k (RData [])) b chunk got = (Waits, [])"
proof -
  have "\<exists>b' chunk'. recv_loop wwrite chk msize (map RData cs @ replicate k (RData [])) b chunk got
        = recv_loop wwrite chk msize (replicate k (RData [])) b' chunk' (word_of_nat (length (contents b')))
      \<and> inv b' \<and> contents b' = contents b @ concat cs \<and> length chunk' = CHUNK"
    by (rule recv_partial) (use assms in auto)
  then obtain b' chunk' where b': "recv_loop wwrite chk msize (map RData cs @ replicate k (RData [])) b chunk got
        = recv_loop wwrite chk msize (replicate k (RData [])) b' chunk' (word_of_nat (length (contents b')))"
      "inv b'" "contents b' = contents b @ concat cs" "length chunk' = CHUNK"
    by blast
  have "length (contents b') \<noteq> full" "length (contents b') < 2 ^ 31" "full < 2 ^ 31"
    using b'(3) assms(8,9) cap_int by auto
  then have "(word_of_nat (length (contents b')) :: i32) \<noteq> msize"
    using assms(7) by (simp only: word_of_nat_inj32 not_False_eq_True)
  then show ?thesis
    using recv_eof [OF b'(2,4) assms(3)] b'(1,3) assms(8,9) by simp
qed

text \<open>
  The loop stops only when exactly \<open>msize\<close> bytes have come: pieces of which no first few make
  up the message, be they empty or too many, are stored, and the loop waits for more.
\<close>

lemma recv_misses:
  assumes "inv b" "length chunk = CHUNK" "\<And>n. 0 \<le> sint n \<Longrightarrow> chk n = Go"
    "\<And>b n. accept b n = n"
    "\<And>c. c \<in> set cs \<Longrightarrow> length c \<le> CHUNK"
    "got = word_of_nat (length (contents b))" "msize = word_of_nat full" "full < 2 ^ 31"
    "length (contents b @ concat cs) \<le> cap"
    "\<And>k. 0 < k \<Longrightarrow> k \<le> length cs \<Longrightarrow> length (contents b @ concat (take k cs)) \<noteq> full"
  shows "recv_loop wwrite chk msize (map RData cs) b chunk got = (Waits, [])"
  using assms(1,2,5,6,9,10)
proof (induction cs arbitrary: b chunk got)
  case Nil
  then show ?case by simp
next
  case (Cons c cs)
  let ?ch = "overlay c chunk"
  have c: "length c \<le> CHUNK" using Cons.prems(3) by auto
  have sr: "sys_read (RData c) CHUNK chunk = (word_of_nat (length c), ?ch)"
    using c by (simp add: Let_def)
  have pos: "0 \<le> sint (word_of_nat (length c) :: i32)"
    using c by (simp add: sint_word_of_nat32)
  have sz: "unat (to_size (word_of_nat (length c))) = length c"
    using c by (simp add: unat_to_size sint_word_of_nat32)
  obtain b' where b': "wwrite b ?ch (to_size (word_of_nat (length c)))
        = Inr (word_of_nat (length c), b')" "inv b'" "contents b' = contents b @ c"
    using write_step [of b "to_size (word_of_nat (length c))" ?ch] Cons.prems(1,2,5) c sz assms(4)
    by (auto simp: overlay_def)
  have "length (contents b') \<noteq> full" "length (contents b') < 2 ^ 31"
    using Cons.prems(5) Cons.prems(6) [of 1] b'(3) cap_int by auto
  then have "(word_of_nat (length (contents b')) :: i32) \<noteq> msize"
    using assms(7,8) by (simp only: word_of_nat_inj32 not_False_eq_True)
  moreover have "recv_loop wwrite chk msize (map RData cs) b' ?ch (word_of_nat (length (contents b')))
      = (Waits, [])"
  proof (rule Cons.IH)
    fix k assume "0 < k" "k \<le> length cs"
    then show "length (contents b' @ concat (take k cs)) \<noteq> full"
      using Cons.prems(6) [of "Suc k"] b'(3) by simp
  qed (use Cons.prems c b' in auto)
  ultimately show ?case
    using sr b' Cons.prems(4) assms(3) [OF pos] by (simp add: Let_def)
qed

end

end
