(* ===== verification/Buffer.thy ===== *)
theory Buffer
  imports SocketLoops
begin

text \<open>
  buffer.hpp: the read-only buffers \<open>RDONBuffer\<close>, \<open>HRDONBuffer\<close>, \<open>SizedRDONBuffer\<close> and the
  write-only buffers \<open>WRONBuffer\<close>, \<open>SizedWRONBuffer\<close>, with their arrays, their \<open>size_t\<close>
  fields and every \<open>memcpy\<close> they make. \<open>unread\<close> and \<open>contents\<close> abstract a buffer to
  the bytes it still has to give, or has been given.
\<close>

definition KB :: size_t where "KB = 1024"
definition MIN_BUFFER_SIZE :: size_t where "MIN_BUFFER_SIZE = KB"

section \<open>Read-only buffers\<close>

record rdon =
  read_only_str :: bytes
  rd_size :: size_t
  rd_pos :: size_t

definition RDONBuffer :: "bytes \<Rightarrow> i32 \<Rightarrow> fault + rdon" where
  "RDONBuffer str sz =
     (let b = \<lparr>read_only_str = str, rd_size = to_size sz, rd_pos = 0\<rparr>
      in if rd_size b > 0 then Inr b else Inl AssertFailed)"

definition RDONBuffer_read :: "rdon \<Rightarrow> bytes \<Rightarrow> size_t \<Rightarrow> fault + size_t \<times> bytes \<times> rdon" where
  "RDONBuffer_read b ptr sz =
     (if rd_pos b = rd_size b then Inr (0, ptr, b)
      else
        let real_size = (if rd_pos b + sz > rd_size b then rd_size b - rd_pos b else sz)
        in case memcpy ptr 0 (read_only_str b) (unat (rd_pos b)) (unat real_size) of
             Inl f \<Rightarrow> Inl f
           | Inr ptr' \<Rightarrow> Inr (real_size, ptr', b\<lparr>rd_pos := rd_pos b + real_size\<rparr>))"

definition RDONBuffer_reset :: "rdon \<Rightarrow> rdon" where
  "RDONBuffer_reset b = b\<lparr>rd_pos := 0\<rparr>"

definition HRDONBuffer :: "(nat \<Rightarrow> char) \<Rightarrow> bytes \<Rightarrow> i32 \<Rightarrow> fault + rdon" where
  "HRDONBuffer junk str sz =
     (case RDONBuffer str sz of
        Inl f \<Rightarrow> Inl f
      | Inr b \<Rightarrow>
          (let temp = read_only_str b; arr = fresh junk (unat (rd_size b)) in
           case memcpy arr 0 temp 0 (unat (rd_size b)) of
             Inl f \<Rightarrow> Inl f
           | Inr arr' \<Rightarrow> Inr (b\<lparr>read_only_str := arr'\<rparr>)))"

definition SizedRDONBuffer :: "(nat \<Rightarrow> char) \<Rightarrow> bytes \<Rightarrow> i32 \<Rightarrow> fault + rdon" where
  "SizedRDONBuffer junk str sz =
     (case RDONBuffer str sz of
        Inl f \<Rightarrow> Inl f
      | Inr b \<Rightarrow>
          (let temp = read_only_str b; arr = fresh junk (unat (4 + rd_size b)) in
           case memcpy arr 0 (int_bytes sz) 0 4 of
             Inl f \<Rightarrow> Inl f
           | Inr arr1 \<Rightarrow>
               (case memcpy arr1 4 temp 0 (unat (rd_size b)) of
                  Inl f \<Rightarrow> Inl f
                | Inr arr2 \<Rightarrow> Inr (b\<lparr>read_only_str := arr2, rd_size := rd_size b + 4\<rparr>))))"

definition rdon_ready :: "rdon \<Rightarrow> bool" where
  "rdon_ready b \<longleftrightarrow> rd_pos b = rd_size b"

text \<open>\<open>msg.c_str()\<close> has a NUL after the last byte; \<open>msg.size()\<close> is narrowed to int.\<close>

definition c_str :: "bytes \<Rightarrow> bytes" where "c_str msg = msg @ [NUL]"

definition size_as_int :: "bytes \<Rightarrow> i32" where "size_as_int msg = word_of_nat (length msg)"

subsection \<open>What a read-only buffer has left\<close>

definition unread :: "rdon \<Rightarrow> bytes" where
  "unread b = drop (unat (rd_pos b)) (take (unat (rd_size b)) (read_only_str b))"

definition rdon_inv :: "rdon \<Rightarrow> bool" where
  "rdon_inv b \<longleftrightarrow> rd_pos b \<le> rd_size b \<and> unat (rd_size b) \<le> length (read_only_str b)
     \<and> unat (rd_size b) < 2 ^ 62"

lemma length_unread:
  "rdon_inv b \<Longrightarrow> length (unread b) = unat (rd_size b) - unat (rd_pos b)"
  by (simp add: rdon_inv_def unread_def)

lemma rdon_read_step:
  assumes "rdon_inv b" "unat n \<le> length dst" "unat n < 2 ^ 62"
  shows "\<exists>b'. RDONBuffer_read b dst n =
      Inr (word_of_nat (length (take (unat n) (unread b))), overlay (take (unat n) (unread b)) dst, b')
    \<and> rdon_inv b' \<and> unread b' = drop (unat n) (unread b)"
proof -
  let ?p = "unat (rd_pos b)" and ?s = "unat (rd_size b)"
  define k where "k = min (unat n) (?s - ?p)"
  have ps: "?p \<le> ?s" "?s \<le> length (read_only_str b)" "?s < 2 ^ 62"
    using assms(1) by (auto simp: rdon_inv_def word_le_nat_alt)
  have sum: "unat (rd_pos b + n) = ?p + unat n"
    using ps assms(3) by (intro unat_add_small) simp
  define r where "r = (if rd_pos b + n > rd_size b then rd_size b - rd_pos b else n)"
  have r: "unat r = k"
    using ps sum by (auto simp: r_def k_def word_less_nat_alt unat_sub_small word_le_nat_alt)
  have r': "r = word_of_nat k"
    using r [symmetric] by simp
  have pk: "unat (rd_pos b + r) = ?p + k"
    using ps r by (subst unat_add_small) (auto simp: k_def)
  show ?thesis
  proof (cases "rd_pos b = rd_size b")
    case True
    then show ?thesis
      using assms(1) by (simp add: RDONBuffer_read_def unread_def overlay_def)
  next
    case False
    have taken: "take (unat n) (unread b) = take k (drop ?p (read_only_str b))"
      using ps by (simp add: unread_def k_def drop_take min_def)
    have k: "length (take k (drop ?p (read_only_str b))) = k" "k \<le> length dst"
        "?p + k \<le> length (read_only_str b)"
      using ps assms(2) by (auto simp: k_def)
    have "memcpy dst 0 (read_only_str b) ?p (unat r) = Inr (overlay (take (unat n) (unread b)) dst)"
      using k by (simp add: r memcpy_Inr taken overlay_def del: length_take length_drop)
    moreover have "length (take (unat n) (unread b)) = k"
      using length_unread [OF assms(1)] by (simp add: k_def min.commute)
    moreover have "rdon_inv (b\<lparr>rd_pos := rd_pos b + r\<rparr>)"
      using ps pk by (simp add: rdon_inv_def word_le_nat_alt k_def)
    moreover have "unread (b\<lparr>rd_pos := rd_pos b + r\<rparr>) = drop (unat n) (unread b)"
      using ps pk by (simp add: unread_def k_def min_def add.commute)
    ultimately show ?thesis
      using False r' by (simp add: RDONBuffer_read_def Let_def flip: r_def)
  qed
qed

interpretation rd: read_buffer RDONBuffer_read unread rdon_inv
  by unfold_locales (rule rdon_read_step)

subsection \<open>What the constructors build\<close>

lemma sint_size_as_int: "length msg < 2 ^ 31 \<Longrightarrow> sint (size_as_int msg) = int (length msg)"
  by (simp add: size_as_int_def sint_word_of_nat32)

lemma to_size_as_int: "length msg < 2 ^ 31 \<Longrightarrow> unat (to_size (size_as_int msg)) = length msg"
  by (simp add: unat_to_size sint_size_as_int)

lemma to_size_as_int_pos: "length msg < 2 ^ 31 \<Longrightarrow> 0 < to_size (size_as_int msg) \<longleftrightarrow> msg \<noteq> []"
  by (simp add: word_less_nat_alt to_size_as_int)

text \<open>The bytes a message has on the wire: its length as an int, then the message.\<close>

definition frame :: "bytes \<Rightarrow> bytes" where
  "frame msg = int_bytes (size_as_int msg) @ msg"

lemma SizedRDONBuffer_ok:
  assumes "msg \<noteq> []" "length msg < 2 ^ 31"
  shows "SizedRDONBuffer junk (c_str msg) (size_as_int msg) =
    Inr \<lparr>read_only_str = frame msg, rd_size = word_of_nat (length (frame msg)), rd_pos = 0\<rparr>"
proof -
  let ?n = "length msg"
  have sz: "unat (to_size (size_as_int msg)) = ?n" by (rule to_size_as_int [OF assms(2)])
  have sz': "to_size (size_as_int msg) = word_of_nat ?n"
    using sz [symmetric] by simp
  have four: "unat (4 + to_size (size_as_int msg)) = 4 + ?n"
    using sz assms(2) by (subst unat_add_small) simp_all
  have "drop 4 (fresh junk (4 + ?n)) = map junk [4..<4 + ?n]"
    by (simp add: fresh_def drop_map)
  then show ?thesis
    using assms sz four sz' to_size_as_int_pos [OF assms(2)]
    by (simp add: SizedRDONBuffer_def RDONBuffer_def mem_simps Let_def c_str_def frame_def
        add.commute)
qed

lemma SizedRDONBuffer_empty:
  "SizedRDONBuffer junk (c_str []) (size_as_int []) = Inl AssertFailed"
  by (simp add: SizedRDONBuffer_def RDONBuffer_def size_as_int_def)

lemma SizedRDONBuffer_frame:
  assumes "msg \<noteq> []" "length msg < 2 ^ 31"
  obtains b where "SizedRDONBuffer junk (c_str msg) (size_as_int msg) = Inr b"
    "rdon_inv b" "unread b = frame msg"
proof
  let ?b = "\<lparr>read_only_str = frame msg, rd_size = word_of_nat (length (frame msg)), rd_pos = 0\<rparr>"
  show "SizedRDONBuffer junk (c_str msg) (size_as_int msg) = Inr ?b"
    by (rule SizedRDONBuffer_ok [OF assms])
  have "unat (word_of_nat (length (frame msg)) :: size_t) = length (frame msg)"
    using assms(2) by (intro unat_word_of_nat64) (simp add: frame_def)
  then show "rdon_inv ?b" "unread ?b = frame msg"
    using assms(2) by (simp_all add: rdon_inv_def unread_def frame_def)
qed

lemma sys_read_header: "sys_read (RData (int_bytes w)) 4 (int_bytes 0) = (4, int_bytes w)"
  by (simp add: Let_def)

lemma size_as_int_pos: "msg \<noteq> [] \<Longrightarrow> length msg < 2 ^ 31 \<Longrightarrow> 0 < sint (size_as_int msg)"
  by (simp add: sint_size_as_int)

text \<open>The pieces of a message, as the reads deliver them.\<close>

definition pieces :: "bytes \<Rightarrow> bytes list \<Rightarrow> bool" where
  "pieces msg cs \<longleftrightarrow> concat cs = msg \<and> cs \<noteq> [] \<and> list_all (\<lambda>c. 0 < length c \<and> length c \<le> CHUNK) cs"

lemma HRDONBuffer_copy:
  assumes "msg \<noteq> []" "length msg < 2 ^ 31"
  shows "HRDONBuffer junk (c_str msg) (size_as_int msg) =
    Inr \<lparr>read_only_str = msg, rd_size = word_of_nat (length msg), rd_pos = 0\<rparr>"
proof -
  have sz: "unat (to_size (size_as_int msg)) = length msg" by (rule to_size_as_int [OF assms(2)])
  then have "to_size (size_as_int msg) = word_of_nat (length msg)"
    by (simp flip: sz)
  then show ?thesis
    using assms sz to_size_as_int_pos [OF assms(2)]
    by (simp add: HRDONBuffer_def RDONBuffer_def memcpy_Inr Let_def c_str_def)
qed

section \<open>Write-only buffers\<close>

record wron =
  write_only_str :: bytes
  wr_size :: size_t
  wr_pos :: size_t

definition WRONBuffer :: "(nat \<Rightarrow> char) \<Rightarrow> wron" where
  "WRONBuffer junk =
     \<lparr>write_only_str = fresh junk (unat MIN_BUFFER_SIZE), wr_size = MIN_BUFFER_SIZE, wr_pos = 0\<rparr>"

definition WRONBuffer_sized :: "(nat \<Rightarrow> char) \<Rightarrow> size_t \<Rightarrow> fault + wron" where
  "WRONBuffer_sized junk sz =
     (if sz > 0
      then Inr \<lparr>write_only_str = fresh junk (unat sz), wr_size = sz, wr_pos = 0\<rparr>
      else Inl AssertFailed)"

text \<open>
  \<open>WRONBuffer::write\<close>. The growth stores the new array and not its size: \<open>_size\<close> keeps the
  value the constructor gave it. \<open>int new_size\<close> narrows a \<open>size_t\<close>.
\<close>

definition WRONBuffer_write :: "(nat \<Rightarrow> char) \<Rightarrow> wron \<Rightarrow> bytes \<Rightarrow> size_t \<Rightarrow> fault + size_t \<times> wron"
where
  "WRONBuffer_write junk b ptr sz =
     (case (if wr_pos b + sz > wr_size b
            then (let new_size = (ucast (if wr_size b + KB > wr_pos b + sz
                                         then wr_size b + KB else wr_pos b + sz) :: i32)
                  in if sint new_size < 0 then Inl BadAlloc
                     else memcpy (fresh junk (nat (sint new_size))) 0
                            (write_only_str b) 0 (unat (wr_pos b)))
            else Inr (write_only_str b)) of
        Inl f \<Rightarrow> Inl f
      | Inr arr \<Rightarrow>
          (case memcpy arr (unat (wr_pos b)) ptr 0 (unat sz) of
             Inl f \<Rightarrow> Inl f
           | Inr arr' \<Rightarrow> Inr (sz, b\<lparr>write_only_str := arr', wr_pos := wr_pos b + sz\<rparr>)))"

definition WRONBuffer_size :: "wron \<Rightarrow> size_t" where
  "WRONBuffer_size b = wr_pos b"

definition WRONBuffer_reset :: "wron \<Rightarrow> fault + wron" where
  "WRONBuffer_reset b =
     (case memcpy (write_only_str b) 0 (replicate (unat (wr_size b)) NUL) 0 (unat (wr_size b)) of
        Inl f \<Rightarrow> Inl f
      | Inr arr \<Rightarrow> Inr (b\<lparr>wr_pos := 0, write_only_str := arr\<rparr>))"

definition SizedWRONBuffer_write :: "wron \<Rightarrow> bytes \<Rightarrow> size_t \<Rightarrow> fault + size_t \<times> wron" where
  "SizedWRONBuffer_write b ptr sz =
     (if wr_pos b = wr_size b then Inr (0, b)
      else
        let n = (if wr_pos b + sz > wr_size b then wr_size b - wr_pos b else sz)
        in case memcpy (write_only_str b) (unat (wr_pos b)) ptr 0 (unat n) of
             Inl f \<Rightarrow> Inl f
           | Inr arr \<Rightarrow> Inr (n, b\<lparr>write_only_str := arr, wr_pos := wr_pos b + n\<rparr>))"

definition wron_ready :: "wron \<Rightarrow> bool" where
  "wron_ready b \<longleftrightarrow> wr_pos b = wr_size b"

subsection \<open>What a write-only buffer holds\<close>

definition contents :: "wron \<Rightarrow> bytes" where
  "contents b = take (unat (wr_pos b)) (write_only_str b)"

text \<open>
  The array is never shorter than \<open>_size\<close>, although \<open>_size\<close> falls behind it: this is what
  keeps \<open>write\<close> within bounds.
\<close>

definition wron_inv :: "wron \<Rightarrow> bool" where
  "wron_inv b \<longleftrightarrow> unat (wr_size b) \<le> length (write_only_str b)
     \<and> unat (wr_pos b) \<le> length (write_only_str b) \<and> unat (wr_size b) < 2 ^ 30"

lemma length_contents: "wron_inv b \<Longrightarrow> length (contents b) = unat (wr_pos b)"
  by (simp add: contents_def wron_inv_def)

lemma wron_inv_new: "wron_inv (WRONBuffer junk)"
  by (simp add: wron_inv_def WRONBuffer_def MIN_BUFFER_SIZE_def KB_def)

lemma contents_new [simp]: "contents (WRONBuffer junk) = []"
  by (simp add: contents_def WRONBuffer_def)

lemma wr_size_new [simp]: "wr_size (WRONBuffer junk) = MIN_BUFFER_SIZE"
  by (simp add: WRONBuffer_def)

lemma WRONBuffer_write_step:
  assumes "wron_inv b" "unat n \<le> length ptr" "unat (wr_pos b) + unat n < 2 ^ 31"
  shows "\<exists>b'. WRONBuffer_write junk b ptr n = Inr (n, b') \<and> wron_inv b'
    \<and> contents b' = contents b @ take (unat n) ptr \<and> wr_size b' = wr_size b"
proof -
  let ?p = "unat (wr_pos b)" and ?s = "unat (wr_size b)"
  have inv: "?s \<le> length (write_only_str b)" "?p \<le> length (write_only_str b)" "?s < 2 ^ 30"
    using assms(1) by (auto simp: wron_inv_def)
  have sum: "unat (wr_pos b + n) = ?p + unat n"
    using assms(3) by (intro unat_add_small) simp
  have kb: "unat (wr_size b + KB) = ?s + 1024"
    using inv by (subst unat_add_small) (simp_all add: KB_def)
  define m where "m = (if wr_size b + KB > wr_pos b + n then wr_size b + KB else wr_pos b + n)"
  have m: "unat m = max (?s + 1024) (?p + unat n)"
    using sum kb by (auto simp: m_def word_less_nat_alt)
  then have sm: "sint (ucast m :: i32) = int (unat m)"
    using inv assms(3) by (intro sint_ucast_small) simp
  define arr where "arr = (if wr_pos b + n > wr_size b
     then contents b @ drop ?p (fresh junk (unat m)) else write_only_str b)"
  have grown: "(if wr_pos b + n > wr_size b
            then (let new_size = (ucast m :: i32)
                  in if sint new_size < 0 then Inl BadAlloc
                     else memcpy (fresh junk (nat (sint new_size))) 0
                            (write_only_str b) 0 ?p)
            else Inr (write_only_str b)) = Inr arr"
    using inv sm m by (simp add: arr_def memcpy_Inr contents_def Let_def)
  have arr: "?p + unat n \<le> length arr" "take ?p arr = contents b" "?s \<le> length arr"
    using inv sum m by (auto simp: arr_def word_less_nat_alt contents_def)
  let ?arr' = "take ?p arr @ take (unat n) ptr @ drop (?p + unat n) arr"
  let ?b' = "b\<lparr>write_only_str := ?arr', wr_pos := wr_pos b + n\<rparr>"
  have "WRONBuffer_write junk b ptr n = Inr (n, ?b')"
    unfolding WRONBuffer_write_def m_def [symmetric] grown
    using arr assms(2) by (simp add: memcpy_Inr)
  moreover have "wron_inv ?b'"
    using inv arr assms(2) sum length_contents [OF assms(1)] by (simp add: wron_inv_def)
  moreover have "contents ?b' = contents b @ take (unat n) ptr"
    using arr assms(2) sum length_contents [OF assms(1)]
    unfolding contents_def [of ?b'] by simp
  ultimately show ?thesis by simp
qed

definition swron_inv :: "wron \<Rightarrow> bool" where
  "swron_inv b \<longleftrightarrow> length (write_only_str b) = unat (wr_size b) \<and> wr_pos b \<le> wr_size b
     \<and> unat (wr_size b) < 2 ^ 31"

text \<open>How many of \<open>n\<close> bytes the sized buffer takes.\<close>

definition room :: "wron \<Rightarrow> nat \<Rightarrow> nat" where
  "room b n = min n (unat (wr_size b) - unat (wr_pos b))"

lemma length_scontents: "swron_inv b \<Longrightarrow> length (contents b) = unat (wr_pos b)"
  by (simp add: contents_def swron_inv_def word_le_nat_alt)

lemma SizedWRONBuffer_write_step:
  assumes "swron_inv b" "unat n \<le> length ptr" "unat n < 2 ^ 31"
  shows "\<exists>b'. SizedWRONBuffer_write b ptr n = Inr (word_of_nat (room b (unat n)), b') \<and> swron_inv b'
    \<and> contents b' = contents b @ take (room b (unat n)) ptr \<and> wr_size b' = wr_size b"
proof -
  let ?p = "unat (wr_pos b)" and ?s = "unat (wr_size b)"
  have inv: "?s = length (write_only_str b)" "?p \<le> ?s" "?s < 2 ^ 31"
    using assms(1) by (auto simp: swron_inv_def word_le_nat_alt)
  have sum: "unat (wr_pos b + n) = ?p + unat n"
    using inv assms(3) by (intro unat_add_small) simp
  define k where "k = (if wr_pos b + n > wr_size b then wr_size b - wr_pos b else n)"
  have k: "unat k = room b (unat n)"
    using inv sum by (auto simp: k_def room_def word_less_nat_alt word_le_nat_alt unat_sub_small)
  have pk: "unat (wr_pos b + k) = ?p + room b (unat n)"
    using inv k by (subst unat_add_small) (auto simp: room_def)
  have bounds: "?p + room b (unat n) \<le> length (write_only_str b)" "room b (unat n) \<le> length ptr"
    using inv assms(2) by (auto simp: room_def)
  show ?thesis
  proof (cases "wr_pos b = wr_size b")
    case True
    then show ?thesis
      using assms(1) by (simp add: SizedWRONBuffer_write_def room_def)
  next
    case False
    let ?b' = "b\<lparr>write_only_str := take ?p (write_only_str b) @ take (unat k) ptr
        @ drop (?p + unat k) (write_only_str b), wr_pos := wr_pos b + k\<rparr>"
    have "SizedWRONBuffer_write b ptr n = Inr (k, ?b')"
      using False bounds k
      by (simp add: SizedWRONBuffer_write_def Let_def memcpy_Inr flip: k_def)
    moreover have "swron_inv ?b'"
      using inv bounds k pk by (simp add: swron_inv_def word_le_nat_alt)
    moreover have "contents ?b' = contents b @ take (room b (unat n)) ptr"
      using bounds k pk inv by (simp add: contents_def)
    moreover have "k = word_of_nat (room b (unat n))"
      by (simp flip: k)
    ultimately show ?thesis by simp
  qed
qed

text \<open>
  Three instances of the contract. The growing buffer takes every byte, up to the largest
  int; while it has not grown, the bytes behind its contents are still those \<open>new\<close> gave;
  the sized buffer takes what it has room for.
\<close>

interpretation wr: write_buffer "WRONBuffer_write junk" contents "\<lambda>b n. n" wron_inv "2 ^ 31 - 1"
  for junk
proof unfold_locales
  fix b and n :: size_t and src :: bytes
  assume "wron_inv b" "unat n \<le> length src" "length (contents b) + unat n \<le> 2 ^ 31 - 1"
  then show "\<exists>b'. WRONBuffer_write junk b src n = Inr (word_of_nat (unat n), b')
      \<and> wron_inv b' \<and> contents b' = contents b @ take (unat n) src"
    using WRONBuffer_write_step [of b n src junk] length_contents [of b] by auto
qed simp_all

definition ungrown :: "(nat \<Rightarrow> char) \<Rightarrow> wron \<Rightarrow> bool" where
  "ungrown junk b \<longleftrightarrow> wr_size b = 1024 \<and> unat (wr_pos b) \<le> 1024
     \<and> length (write_only_str b) = 1024
     \<and> write_only_str b = contents b @ drop (unat (wr_pos b)) (fresh junk 1024)"

lemma ungrown_new: "ungrown junk (WRONBuffer junk)"
  by (simp add: ungrown_def WRONBuffer_def contents_def MIN_BUFFER_SIZE_def KB_def)

lemma length_ungrown: "ungrown junk b \<Longrightarrow> length (contents b) = unat (wr_pos b)"
  by (simp add: contents_def ungrown_def)

interpretation wr_small: write_buffer "WRONBuffer_write junk" contents "\<lambda>b n. n" "ungrown junk" CHUNK
  for junk
proof unfold_locales
  fix b and n :: size_t and src :: bytes
  assume a: "ungrown junk b" "unat n \<le> length src" "length (contents b) + unat n \<le> CHUNK"
  let ?p = "unat (wr_pos b)"
  have p: "length (contents b) = ?p" by (rule length_ungrown [OF a(1)])
  have len: "length (write_only_str b) = 1024"
    using a(1) p by (simp add: ungrown_def)
  have sum: "unat (wr_pos b + n) = ?p + unat n"
    using a(3) p by (intro unat_add_small) simp
  then have small: "\<not> wr_pos b + n > wr_size b"
    using a p by (simp add: ungrown_def word_less_nat_alt)
  let ?b' = "b\<lparr>write_only_str := contents b @ take (unat n) src
      @ drop (?p + unat n) (write_only_str b), wr_pos := wr_pos b + n\<rparr>"
  have "WRONBuffer_write junk b src n = Inr (n, ?b')"
    using a(2,3) p len small by (simp add: WRONBuffer_write_def memcpy_Inr contents_def)
  moreover have c: "contents ?b' = contents b @ take (unat n) src"
    using a(2) p sum unfolding contents_def [of ?b'] by simp
  moreover have "drop (?p + unat n) (write_only_str b) = drop (?p + unat n) (fresh junk 1024)"
    using a(1) p unfolding ungrown_def by (metis drop_drop add.commute append_eq_conv_conj)
  then have "ungrown junk ?b'"
    using a p sum c by (simp add: ungrown_def)
  ultimately show "\<exists>b'. WRONBuffer_write junk b src n = Inr (word_of_nat (unat n), b')
      \<and> ungrown junk b' \<and> contents b' = contents b @ take (unat n) src"
    by auto
qed simp_all

interpretation swr: write_buffer SizedWRONBuffer_write contents room swron_inv "2 ^ 31 - 1"
proof unfold_locales
  fix b and n :: size_t and src :: bytes
  assume "swron_inv b" "unat n \<le> length src" "length (contents b) + unat n \<le> 2 ^ 31 - 1"
  then show "\<exists>b'. SizedWRONBuffer_write b src n = Inr (word_of_nat (room b (unat n)), b')
      \<and> swron_inv b' \<and> contents b' = contents b @ take (room b (unat n)) src"
    using SizedWRONBuffer_write_step [of b n src] by auto
qed (simp_all add: room_def)

section \<open>Properties\<close>

text \<open>A sequence of writes, each with the length of its piece, up to the first fault.\<close>

fun write_all :: "(wron \<Rightarrow> bytes \<Rightarrow> size_t \<Rightarrow> fault + size_t \<times> wron) \<Rightarrow> wron \<Rightarrow> bytes list \<Rightarrow> fault + wron"
where
  "write_all wwrite b [] = Inr b"
| "write_all wwrite b (c # cs) =
     (case wwrite b c (word_of_nat (length c)) of
        Inl f \<Rightarrow> Inl f
      | Inr (_, b') \<Rightarrow> write_all wwrite b' cs)"

lemma write_all_WRON:
  assumes "wron_inv b" "length (contents b @ concat cs) < 2 ^ 31"
  shows "\<exists>b'. write_all (WRONBuffer_write junk) b cs = Inr b' \<and> wron_inv b'
     \<and> contents b' = contents b @ concat cs \<and> wr_size b' = wr_size b"
  using assms
proof (induction cs arbitrary: b)
  case (Cons c cs)
  have n: "unat (word_of_nat (length c) :: size_t) = length c"
    using Cons.prems(2) by (intro unat_word_of_nat64) simp
  obtain b' where b': "WRONBuffer_write junk b c (word_of_nat (length c)) = Inr (word_of_nat (length c), b')"
      "wron_inv b'" "contents b' = contents b @ c" "wr_size b' = wr_size b"
    using WRONBuffer_write_step [of b "word_of_nat (length c)" c junk] Cons.prems n
      length_contents [of b] by auto
  then show ?case
    using Cons.IH [of b'] Cons.prems(2) by simp
qed simp

lemma write_all_SizedWRON:
  assumes "swron_inv b" "length (concat cs) < 2 ^ 31"
  shows "\<exists>b'. write_all SizedWRONBuffer_write b cs = Inr b' \<and> swron_inv b' \<and> wr_size b' = wr_size b
     \<and> contents b' = contents b @ take (unat (wr_size b) - unat (wr_pos b)) (concat cs)"
  using assms
proof (induction cs arbitrary: b)
  case (Cons c cs)
  let ?m = "unat (wr_size b) - unat (wr_pos b)"
  have n: "unat (word_of_nat (length c) :: size_t) = length c"
    using Cons.prems(2) by (intro unat_word_of_nat64) simp
  obtain k b' where b': "SizedWRONBuffer_write b c (word_of_nat (length c)) = Inr (k, b')"
      "swron_inv b'" "contents b' = contents b @ take ?m c" "wr_size b' = wr_size b"
    using SizedWRONBuffer_write_step [of b "word_of_nat (length c)" c] Cons.prems n
    by (auto simp: room_def)
  have "unat (wr_pos b') = unat (wr_pos b) + min (length c) ?m"
    using length_scontents [OF b'(2)] length_scontents [OF Cons.prems(1)] b'(3) by simp
  then show ?case
    using Cons.IH [of b'] Cons.prems(2) b' by (auto simp: min_def)
qed simp

lemma SizedWRON_new:
  assumes "0 < n" "n < 2 ^ 31"
  shows "WRONBuffer_sized junk (word_of_nat n)
       = Inr \<lparr>write_only_str = fresh junk n, wr_size = word_of_nat n, wr_pos = 0\<rparr>"
    "swron_inv \<lparr>write_only_str = fresh junk n, wr_size = word_of_nat n, wr_pos = 0\<rparr>"
  using assms unat_word_of_nat64 [of n]
  by (simp_all add: WRONBuffer_sized_def swron_inv_def word_less_nat_alt)

lemma swron_ready_iff: "swron_inv b \<Longrightarrow> wron_ready b \<longleftrightarrow> length (contents b) = unat (wr_size b)"
  using length_scontents [of b] by (simp add: wron_ready_def word_unat_eq_iff)

text \<open>
  (C15) The growing buffer never leaves its array and keeps every byte in order, for any
  sequence of writes that stays below the largest int, although \<open>write\<close> never updates
  \<open>_size\<close> when it grows: \<open>_size\<close> still has its first value at the end.
\<close>
theorem wron_keeps_all_bytes:
  assumes "length (concat cs) < 2 ^ 31"
  shows "\<exists>b'. write_all (WRONBuffer_write junk) (WRONBuffer junk) cs = Inr b'
     \<and> contents b' = concat cs \<and> WRONBuffer_size b' = word_of_nat (length (concat cs))
     \<and> wr_size b' = MIN_BUFFER_SIZE"
proof -
  obtain b' where b': "write_all (WRONBuffer_write junk) (WRONBuffer junk) cs = Inr b'"
      "wron_inv b'" "contents b' = concat cs" "wr_size b' = MIN_BUFFER_SIZE"
    using write_all_WRON [OF wron_inv_new, of junk cs junk] assms by auto
  then have "wr_pos b' = word_of_nat (length (concat cs))"
    using length_contents [of b'] by simp
  then show ?thesis
    using b' by (simp add: WRONBuffer_size_def)
qed

theorem wron_keeps_all_bytes_witness:
  "\<exists>b'. write_all (WRONBuffer_write (\<lambda>_. CHR ''?'')) (WRONBuffer (\<lambda>_. CHR ''?''))
          [replicate 1000 CHR ''a'', replicate 1000 CHR ''b''] = Inr b'
     \<and> contents b' = replicate 1000 CHR ''a'' @ replicate 1000 CHR ''b''
     \<and> wr_size b' = MIN_BUFFER_SIZE"
  using wron_keeps_all_bytes [of "[replicate 1000 CHR ''a'', replicate 1000 CHR ''b'']" "\<lambda>_. CHR ''?''"]
  by auto

text \<open>
  A sized buffer of \<open>n\<close> bytes takes the first \<open>n\<close> of the bytes it is given, in any
  pieces, ignores the rest without leaving its array, and is ready just when \<open>n\<close> came.
\<close>
theorem sized_wron_fills:
  assumes "0 < n" "n < 2 ^ 31" "length (concat cs) < 2 ^ 31"
  shows "\<exists>b b'. WRONBuffer_sized junk (word_of_nat n) = Inr b
     \<and> write_all SizedWRONBuffer_write b cs = Inr b' \<and> contents b' = take n (concat cs)
     \<and> (wron_ready b' \<longleftrightarrow> n \<le> length (concat cs))"
proof -
  let ?b = "\<lparr>write_only_str = fresh junk n, wr_size = word_of_nat n, wr_pos = 0\<rparr>"
  have n: "unat (word_of_nat n :: size_t) = n"
    using assms(2) by (intro unat_word_of_nat64) simp
  obtain b' where b': "write_all SizedWRONBuffer_write ?b cs = Inr b'" "swron_inv b'"
      "contents b' = take n (concat cs)" "wr_size b' = word_of_nat n"
    using write_all_SizedWRON [OF SizedWRON_new(2) [OF assms(1,2)] assms(3), of junk] n
    by (auto simp: contents_def)
  then have "wron_ready b' \<longleftrightarrow> n \<le> length (concat cs)"
    using swron_ready_iff [of b'] n by auto
  then show ?thesis
    using SizedWRON_new(1) [OF assms(1,2)] b' by blast
qed

theorem sized_wron_fills_witness:
  "\<exists>b b'. WRONBuffer_sized (\<lambda>_. CHR ''?'') (word_of_nat 4) = Inr b
     \<and> write_all SizedWRONBuffer_write b [''ab'', ''cdef''] = Inr b' \<and> contents b' = ''abcd''
     \<and> (wron_ready b' \<longleftrightarrow> 4 \<le> length (concat [''ab'', ''cdef'']))"
  using sized_wron_fills [of 4 "[''ab'', ''cdef'']" "\<lambda>_. CHR ''?''"] by simp

text \<open>
  The buffer a message is sent from holds exactly its frame, the length as an int
  and then the bytes, and a read of \<open>k\<close> bytes takes the next \<open>k\<close> of it, without
  leaving either array; the empty message fails the assertion of the constructor.
\<close>
theorem sized_rdon_frames:
  assumes "length msg < 2 ^ 31" "k \<le> length dst" "k < 2 ^ 62"
  shows "(msg = [] \<longrightarrow> SizedRDONBuffer junk (c_str msg) (size_as_int msg) = Inl AssertFailed) \<and>
    (msg \<noteq> [] \<longrightarrow> (\<exists>b b'. SizedRDONBuffer junk (c_str msg) (size_as_int msg) = Inr b
       \<and> RDONBuffer_read b dst (word_of_nat k) =
           Inr (word_of_nat (length (take k (frame msg))), overlay (take k (frame msg)) dst, b')
       \<and> unread b' = drop k (frame msg) \<and> (rdon_ready b' \<longleftrightarrow> length (frame msg) \<le> k)))"
proof (cases "msg = []")
  case True
  then show ?thesis by (simp add: SizedRDONBuffer_empty)
next
  case False
  obtain b where b: "SizedRDONBuffer junk (c_str msg) (size_as_int msg) = Inr b" "rdon_inv b"
      "unread b = frame msg"
    by (rule SizedRDONBuffer_frame [OF False assms(1)])
  have k: "unat (word_of_nat k :: size_t) = k"
    using assms(3) by (intro unat_word_of_nat64) simp
  obtain b' where b': "RDONBuffer_read b dst (word_of_nat k) =
      Inr (word_of_nat (length (take k (frame msg))), overlay (take k (frame msg)) dst, b')"
      "rdon_inv b'" "unread b' = drop k (frame msg)"
    using rdon_read_step [OF b(2), of "word_of_nat k" dst] assms(2,3) k b(3) by auto
  have "rdon_ready b' \<longleftrightarrow> length (unread b') = 0"
    using length_unread [OF b'(2)] b'(2)
    by (auto simp: rdon_ready_def rdon_inv_def word_le_nat_alt word_unat_eq_iff)
  then show ?thesis
    using False b b' by (intro conjI impI exI [of _ b] exI [of _ b']) auto
qed

theorem sized_rdon_frames_witness:
  "\<exists>b b'. SizedRDONBuffer (\<lambda>_. CHR ''?'') (c_str ''hi'') (size_as_int ''hi'') = Inr b
     \<and> RDONBuffer_read b (replicate 5 NUL) (word_of_nat 5) =
         Inr (word_of_nat (length (take 5 (frame ''hi''))), overlay (take 5 (frame ''hi'')) (replicate 5 NUL), b')
     \<and> unread b' = ''i''"
proof -
  have "frame ''hi'' = int_bytes 2 @ ''hi''" by (simp add: frame_def size_as_int_def)
  then have "drop 5 (frame ''hi'') = ''i''" by (simp add: int_bytes_def)
  then show ?thesis
    using sized_rdon_frames [of "''hi''" 5 "replicate 5 NUL" "\<lambda>_. CHR ''?''"] by fastforce
qed

end
