(* ===== verification/Connection.thy ===== *)
theory Connection
  imports Buffer Service
begin

text \<open>
  sockserver.hpp and sockserver.cpp, one connection: \<open>Connection::_recv\<close> and \<open>_send\<close>, the
  thread \<open>ConnectionThread::run\<close> that serves it, and \<open>Connection::shutdown\<close>, which the
  server's thread calls while the first one runs. The two threads are programs with a
  program counter each, a shared flag \<open>_connected\<close> and a mutex; \<open>conn_step\<close> interleaves
  them, and lets the kernel deliver more data at any time.
\<close>

section \<open>Receiving and sending\<close>

definition server_write_chk :: "int \<Rightarrow> int \<Rightarrow> exn verdict" where
  "server_write_chk real_len len =
     (if real_len = 0 then Stop (Server ServerCloseSocketException)
      else if real_len \<noteq> len then Fatal else Go)"

definition Connection_send :: "(nat \<Rightarrow> char) \<Rightarrow> wire \<Rightarrow> bytes \<Rightarrow> (exn, unit) outcome \<times> wire" where
  "Connection_send junk n msg =
     (case SizedRDONBuffer junk (c_str msg) (size_as_int msg) of
        Inl f \<Rightarrow> (Faults f, n)
      | Inr b \<Rightarrow>
          (case send_loop RDONBuffer_read server_write_chk (n_writes n) b (fresh junk CHUNK) (n_sent n)
           of (r, out, ws) \<Rightarrow> (r, n\<lparr>n_sent := out, n_writes := ws\<rparr>)))"

text \<open>\<open>std::string msg (p, n)\<close> copies \<open>n\<close> bytes of an array.\<close>

definition string_of :: "bytes \<Rightarrow> size_t \<Rightarrow> (exn, bytes) outcome" where
  "string_of arr n =
     (if unat n \<le> length arr then Returns (take (unat n) arr) else Faults OutOfBounds)"

text \<open>The result of a \<open>read\<close> inside a message is not looked at.\<close>

definition server_read_chk :: "i32 \<Rightarrow> exn verdict" where
  "server_read_chk chunk_len = Go"

definition Connection_recv :: "(nat \<Rightarrow> char) \<Rightarrow> wire \<Rightarrow> (exn, bytes) outcome \<times> wire" where
  "Connection_recv junk n =
     (case n_reads n of
        [] \<Rightarrow> (Waits, n)
      | r # rs \<Rightarrow>
          (case sys_read r 4 (int_bytes 0) of
             (len, size_bytes) \<Rightarrow>
               (let msize = bytes_int size_bytes in
                if len = 0 then (Throws (Server ServerCloseSocketException), n\<lparr>n_reads := rs\<rparr>)
                else if len \<noteq> 4 \<or> sint msize \<le> 0 then (Returns [], n\<lparr>n_reads := rs\<rparr>)
                else
                  (case recv_loop (WRONBuffer_write junk) server_read_chk msize rs
                          (WRONBuffer junk) (fresh junk CHUNK) 0 of
                     (r', rs') \<Rightarrow>
                       (obind r' (\<lambda>wr_buffer. string_of (write_only_str wr_buffer) (WRONBuffer_size wr_buffer)),
                        n\<lparr>n_reads := rs'\<rparr>)))))"

definition Connection_send_response ::
  "'j jconer \<Rightarrow> (nat \<Rightarrow> char) \<Rightarrow> wire \<Rightarrow> 'j response \<Rightarrow> (exn, unit) outcome \<times> wire" where
  "Connection_send_response J junk n r = Connection_send junk n (build_response J r)"

definition Connection_send_error ::
  "'j jconer \<Rightarrow> (nat \<Rightarrow> char) \<Rightarrow> wire \<Rightarrow> i32 \<Rightarrow> (exn, unit) outcome \<times> wire" where
  "Connection_send_error J junk n code = Connection_send junk n (build_error J code)"

section \<open>The connection and its two threads\<close>

datatype party = Worker | Evictor

text \<open>Where \<open>ConnectionThread::run\<close> is; a dead process makes no step.\<close>

datatype 'j worker_pc =
    AtLoop                             \<comment> \<open>before the test of \<open>while\<close>\<close>
  | AtRecv
  | AtMessage bytes
  | AtReply "'j response"
  | AtCheck                            \<comment> \<open>before \<open>if (!\_pconn->\_connected)\<close>\<close>
  | AtCatch server_exception           \<comment> \<open>in the handler, before \<open>lock\<close>\<close>
  | AtLocked server_exception
  | AtUnlock
  | AtEnd
  | AtDead fault

text \<open>Where the thread that shuts the connection down is; \<open>n\<close> more calls of \<open>shutdown\<close> follow.\<close>

datatype evictor_pc =
    ECall nat                          \<comment> \<open>\<open>n\<close> calls left\<close>
  | ELocked nat
  | EMarked nat                        \<comment> \<open>\<open>\_connected = false\<close> done\<close>
  | EShut nat                          \<comment> \<open>\<open>::shutdown\<close> done\<close>
  | EUnlocked nat
  | EJoined nat

record ('v, 'j) conn =
  cn_pc :: "'j worker_pc"
  cn_ev :: evictor_pc
  cn_sock :: int                       \<comment> \<open>\<open>\_client\_sock\<close>\<close>
  cn_connected :: bool
  cn_mutex :: "party option"
  cn_wire :: wire
  cn_service :: 'v

definition Connection :: "int \<Rightarrow> 'v \<Rightarrow> nat \<Rightarrow> ('v, 'j) conn" where
  "Connection sock sv n =
     \<lparr>cn_pc = AtLoop, cn_ev = ECall n, cn_sock = sock, cn_connected = True, cn_mutex = None,
      cn_wire = \<lparr>n_writes = [], n_reads = [], n_sent = [], n_closed = []\<rparr>,
      cn_service = sv\<rparr>"

text \<open>
  Where an exception takes the thread: a ServerException to the handler, any other out of
  \<open>run\<close>, which ends the process.
\<close>

fun caught :: "exn \<Rightarrow> 'j worker_pc" where
  "caught (Server e) = AtCatch e"
| "caught _ = AtDead Terminate"

text \<open>One step of \<open>ConnectionThread::run\<close>; \<open>None\<close> when it waits or has ended.\<close>

fun worker_step ::
  "'j jconer \<Rightarrow> ('v \<times> 'j request \<Rightarrow> (exn, int) outcome \<times> 'v \<times> 'j request) \<Rightarrow> (nat \<Rightarrow> char) \<Rightarrow>
   ('v, 'j) conn \<Rightarrow> ('v, 'j) conn option" where
  "worker_step J serve junk s =
     (case cn_pc s of
        AtLoop \<Rightarrow> Some (s\<lparr>cn_pc := if cn_connected s then AtRecv else AtEnd\<rparr>)
      | AtRecv \<Rightarrow>
          (case Connection_recv junk (cn_wire s) of (r, w) \<Rightarrow>
            (case r of
               Returns msg \<Rightarrow> Some (s\<lparr>cn_pc := AtMessage msg, cn_wire := w\<rparr>)
             | Throws e \<Rightarrow> Some (s\<lparr>cn_pc := caught e, cn_wire := w\<rparr>)
             | Faults f \<Rightarrow> Some (s\<lparr>cn_pc := AtDead f, cn_wire := w\<rparr>)
             | Waits \<Rightarrow> None))
      | AtMessage msg \<Rightarrow>
          (case serve_message J serve (cn_service s) msg of (r, sv) \<Rightarrow>
            (case r of
               Returns p \<Rightarrow> Some (s\<lparr>cn_pc := AtReply p, cn_service := sv\<rparr>)
             | Throws e \<Rightarrow> Some (s\<lparr>cn_pc := caught e, cn_service := sv\<rparr>)
             | Faults f \<Rightarrow> Some (s\<lparr>cn_pc := AtDead f, cn_service := sv\<rparr>)
             | Waits \<Rightarrow> None))
      | AtReply p \<Rightarrow>
          (case Connection_send_response J junk (cn_wire s) p of (r, w) \<Rightarrow>
            (case r of
               Returns _ \<Rightarrow> Some (s\<lparr>cn_pc := AtCheck, cn_wire := w\<rparr>)
             | Throws e \<Rightarrow> Some (s\<lparr>cn_pc := caught e, cn_wire := w\<rparr>)
             | Faults f \<Rightarrow> Some (s\<lparr>cn_pc := AtDead f, cn_wire := w\<rparr>)
             | Waits \<Rightarrow> None))
      | AtCheck \<Rightarrow>
          Some (s\<lparr>cn_pc := if cn_connected s then AtLoop else AtCatch ServerCloseSocketException\<rparr>)
      | AtCatch e \<Rightarrow>
          (if cn_mutex s = None then Some (s\<lparr>cn_pc := AtLocked e, cn_mutex := Some Worker\<rparr>) else None)
      | AtLocked e \<Rightarrow>
          (if \<not> cn_connected s \<or> get_code e \<noteq> SOCKET_CLOSED
           then
             (case Connection_send_error J junk (cn_wire s) (get_code e) of (r, w) \<Rightarrow>
               (case r of
                  Returns _ \<Rightarrow> Some (s\<lparr>cn_pc := AtUnlock, cn_wire := w\<rparr>)
                | Throws e \<Rightarrow> Some (s\<lparr>cn_pc := AtDead Terminate, cn_wire := w\<rparr>)
                | Faults f \<Rightarrow> Some (s\<lparr>cn_pc := AtDead f, cn_wire := w\<rparr>)
                | Waits \<Rightarrow> None))
           else Some (s\<lparr>cn_pc := AtUnlock, cn_connected := False\<rparr>))
      | AtUnlock \<Rightarrow> Some (s\<lparr>cn_pc := AtEnd, cn_mutex := None\<rparr>)
      | AtEnd \<Rightarrow> None
      | AtDead f \<Rightarrow> None)"

declare worker_step.simps [simp del]

definition is_dead :: "'j worker_pc \<Rightarrow> bool" where
  "is_dead pc = (case pc of AtDead f \<Rightarrow> True | _ \<Rightarrow> False)"

text \<open>
  \<open>::shutdown (\_client\_sock, SHUT\_RD)\<close>: what has arrived can still be read, and after it comes end
  of file; this is what gets the worker out of a \<open>read\<close> that waits. (The second call, by the
  destructor, finds a descriptor that is closed and a thread that has ended: nobody reads what it adds.)
\<close>

definition shut_rd :: "wire \<Rightarrow> wire" where
  "shut_rd w = w\<lparr>n_reads := n_reads w @ [RData []]\<rparr>"

lemma shut_rd_simps [simp]:
  "n_reads (shut_rd w) = n_reads w @ [RData []]" "n_writes (shut_rd w) = n_writes w"
  "n_sent (shut_rd w) = n_sent w" "n_closed (shut_rd w) = n_closed w"
  "shut_rd (w\<lparr>n_closed := x\<rparr>) = (shut_rd w)\<lparr>n_closed := x\<rparr>" "(shut_rd w)\<lparr>n_reads := rs\<rparr> = w\<lparr>n_reads := rs\<rparr>"
  by (simp_all add: shut_rd_def)

text \<open>
  One step of \<open>Connection::shutdown\<close>. The join goes on when the thread has ended, as
  \<open>is_active\<close> is false then. (\<open>Thread\<close> and \<open>Mutex\<close> belong to another library; the model
  takes them at their names.)
\<close>

fun evictor_step :: "('v, 'j) conn \<Rightarrow> ('v, 'j) conn option" where
  "evictor_step s =
     (if is_dead (cn_pc s) then None
      else
        (case cn_ev s of
           ECall 0 \<Rightarrow> None
         | ECall (Suc n) \<Rightarrow>
             (if cn_mutex s = None then Some (s\<lparr>cn_ev := ELocked n, cn_mutex := Some Evictor\<rparr>) else None)
         | ELocked n \<Rightarrow> Some (s\<lparr>cn_ev := EMarked n, cn_connected := False\<rparr>)
         | EMarked n \<Rightarrow> Some (s\<lparr>cn_ev := EShut n, cn_wire := shut_rd (cn_wire s)\<rparr>)
         | EShut n \<Rightarrow> Some (s\<lparr>cn_ev := EUnlocked n, cn_mutex := None\<rparr>)
         | EUnlocked n \<Rightarrow> (if cn_pc s = AtEnd then Some (s\<lparr>cn_ev := EJoined n\<rparr>) else None)
         | EJoined n \<Rightarrow>
             Some (s\<lparr>cn_ev := ECall n,
                     cn_wire := (cn_wire s)\<lparr>n_closed := n_closed (cn_wire s) @ [cn_sock s]\<rparr>\<rparr>)))"

declare evictor_step.simps [simp del]

definition deliver :: "rres list \<Rightarrow> int list \<Rightarrow> ('v, 'j) conn \<Rightarrow> ('v, 'j) conn" where
  "deliver rs ws s = s\<lparr>cn_wire := (cn_wire s)\<lparr>n_reads := n_reads (cn_wire s) @ rs,
                                            n_writes := n_writes (cn_wire s) @ ws\<rparr>\<rparr>"

inductive conn_step ::
  "'j jconer \<Rightarrow> ('v \<times> 'j request \<Rightarrow> (exn, int) outcome \<times> 'v \<times> 'j request) \<Rightarrow> (nat \<Rightarrow> char) \<Rightarrow>
   ('v, 'j) conn \<Rightarrow> ('v, 'j) conn \<Rightarrow> bool"
  for J serve junk where
  worker: "worker_step J serve junk s = Some t \<Longrightarrow> conn_step J serve junk s t"
| evictor: "evictor_step s = Some t \<Longrightarrow> conn_step J serve junk s t"
| kernel: "conn_step J serve junk s (deliver rs ws s)"

inductive_cases conn_stepE: "conn_step J serve junk s t"

abbreviation conn_steps where "conn_steps J serve junk \<equiv> (conn_step J serve junk)\<^sup>*\<^sup>*"

section \<open>Lemmas on a message sent and received\<close>

lemma Connection_send_all:
  assumes "msg \<noteq> []" "length msg < 2 ^ 31" "n_writes n = full_writes (length (frame msg)) @ ws"
  shows "Connection_send junk n msg = (Returns (), n\<lparr>n_sent := n_sent n @ frame msg, n_writes := ws\<rparr>)"
proof -
  obtain b where b: "SizedRDONBuffer junk (c_str msg) (size_as_int msg) = Inr b" "rdon_inv b"
      "unread b = frame msg"
    by (rule SizedRDONBuffer_frame [OF assms(1,2)])
  have "send_loop RDONBuffer_read server_write_chk (full_writes (length (frame msg)) @ ws) b
      (fresh junk CHUNK) (n_sent n) = (Returns (), n_sent n @ frame msg, ws)"
    using rd.send_all [OF b(2) length_fresh, of server_write_chk ws junk "n_sent n"] b(3)
    by (simp add: server_write_chk_def)
  then show ?thesis
    using b assms(3) by (simp add: Connection_send_def)
qed

lemma Connection_send_returns:
  assumes "fst (Connection_send junk n msg) = Returns ()" "msg \<noteq> []" "length msg < 2 ^ 31"
  shows "n_sent (snd (Connection_send junk n msg)) = n_sent n @ frame msg"
proof -
  obtain b where b: "SizedRDONBuffer junk (c_str msg) (size_as_int msg) = Inr b" "rdon_inv b"
      "unread b = frame msg"
    by (rule SizedRDONBuffer_frame [OF assms(2,3)])
  have "w = k" if "server_write_chk w k = Go" for w k
    using that by (simp add: server_write_chk_def split: if_splits)
  then show ?thesis
    using rd.send_prefix [OF b(2) length_fresh, of server_write_chk "n_writes n" junk "n_sent n"]
      b(1,3) assms(1)
    by (auto simp: Connection_send_def split: prod.splits)
qed

lemma transfer_keeps_closed:
  "n_closed (snd (Connection_send junk n msg)) = n_closed n"
  "n_closed (snd (Connection_recv junk n)) = n_closed n"
  by (auto simp: Connection_send_def Connection_recv_def Let_def split: sum.split prod.split list.split)

lemma recv_keeps_sent: "n_sent (snd (Connection_recv junk n)) = n_sent n"
  by (auto simp: Connection_recv_def Let_def split: prod.split list.split)

lemma server_recv_loop:
  assumes "pieces msg cs" "length msg < 2 ^ 31"
  shows "\<exists>b. recv_loop (WRONBuffer_write junk) server_read_chk (size_as_int msg)
      (map RData cs @ rs) (WRONBuffer junk) (fresh junk CHUNK) 0 = (Returns b, rs)
    \<and> wron_inv b \<and> contents b = msg"
  using wr.recv_all [OF wron_inv_new, of "fresh junk CHUNK" server_read_chk cs 0 junk
      "size_as_int msg" junk rs] assms
  by (auto simp: pieces_def list_all_iff size_as_int_def server_read_chk_def)

lemma string_of_buffer: "wron_inv b \<Longrightarrow> string_of (write_only_str b) (WRONBuffer_size b) = Returns (contents b)"
  by (simp add: string_of_def WRONBuffer_size_def wron_inv_def contents_def)

lemma Connection_recv_frame:
  assumes "pieces msg cs" "length msg < 2 ^ 31"
    "n_reads n = RData (int_bytes (size_as_int msg)) # map RData cs @ rs"
  shows "Connection_recv junk n = (Returns msg, n\<lparr>n_reads := rs\<rparr>)"
proof -
  have "msg \<noteq> []" using assms(1) by (cases cs) (auto simp: pieces_def)
  then have "\<not> sint (size_as_int msg) \<le> 0"
    using size_as_int_pos assms(2) by (simp add: not_le)
  then show ?thesis
    using server_recv_loop [OF assms(1,2), of junk rs] assms(3)
    by (auto simp: Connection_recv_def sys_read_header Let_def string_of_buffer)
qed

lemma Connection_recv_eof:
  "n_reads n = RData [] # rs \<Longrightarrow>
     Connection_recv junk n = (Throws (Server ServerCloseSocketException), n\<lparr>n_reads := rs\<rparr>)"
  by (simp add: Connection_recv_def)

text \<open>A \<open>read\<close> that fails in the middle of a message gives -1, which \<open>write\<close> takes for a length.\<close>

lemma WRONBuffer_write_minus_1:
  assumes "wron_inv b" "length src < 2 ^ 31" "unat (wr_pos b) < 2 ^ 31"
  shows "WRONBuffer_write junk b src (-1) = Inl (if wr_pos b = 0 then BadAlloc else OutOfBounds)"
proof -
  have all: "unat (-1 :: size_t) = 2 ^ 64 - 1"
    by (simp add: unsigned_minus_1_eq_mask mask_eq_exp_minus_1)
  have oob: "memcpy arr d src 0 (unat (-1 :: size_t)) = Inl OutOfBounds" for arr d
    unfolding all using assms(2) by (intro memcpy_Inl) simp
  have sz: "unat (wr_size b) < 2 ^ 30"
    using assms(1) by (simp add: wron_inv_def)
  then have kb: "unat (wr_size b + KB) = unat (wr_size b) + 1024"
    by (subst unat_add_small) (simp_all add: KB_def)
  show ?thesis
  proof (cases "wr_pos b = 0")
    case True
    have "\<not> -1 < wr_size b + KB" "wr_size b < -1"
      using sz kb all by (simp_all add: word_less_nat_alt)
    moreover have "(ucast (-1 :: size_t) :: i32) = -1"
      by (rule bit_word_eqI) (simp add: bit_simps)
    ultimately show ?thesis
      using True by (simp add: WRONBuffer_write_def Let_def)
  next
    case False
    define m where "m = (if wr_size b + KB > wr_pos b + -1 then wr_size b + KB else wr_pos b + -1)"
    have "1 \<le> wr_pos b"
      using False by (simp add: word_le_nat_alt Suc_le_eq unat_gt_0)
    then have "unat (wr_pos b + -1) = unat (wr_pos b) - 1"
      using unat_sub_small [of 1 "wr_pos b"] by simp
    then have "unat m < 2 ^ 31"
      using sz kb assms(3) by (simp add: m_def less_imp_diff_less)
    then have "sint (ucast m :: i32) = int (unat m)"
      by (rule sint_ucast_small)
    then show ?thesis
      unfolding WRONBuffer_write_def m_def [symmetric]
      using False by (simp add: Let_def oob memcpy_def [of "fresh junk _"])
  qed
qed

text \<open>So a client that breaks off inside a message stops the server.\<close>

lemma Connection_recv_breaks:
  assumes "list_all (\<lambda>c. 0 < length c \<and> length c \<le> CHUNK) cs" "length (concat cs) < sz"
    "0 < sz" "sz < 2 ^ 31"
    "n_reads n = RData (int_bytes (word_of_nat sz)) # map RData cs @ RErr # rs"
  shows "fst (Connection_recv junk n) = Faults (if cs = [] then BadAlloc else OutOfBounds)"
proof -
  have "\<exists>b chunk'. recv_loop (WRONBuffer_write junk) server_read_chk (word_of_nat sz)
        (map RData cs @ RErr # rs) (WRONBuffer junk) (fresh junk CHUNK) 0
      = recv_loop (WRONBuffer_write junk) server_read_chk (word_of_nat sz) (RErr # rs) b chunk'
          (word_of_nat (length (contents b)))
      \<and> wron_inv b \<and> contents b = contents (WRONBuffer junk) @ concat cs \<and> length chunk' = CHUNK"
    by (rule wr.recv_partial [OF wron_inv_new])
       (use assms in \<open>auto simp: server_read_chk_def list_all_iff\<close>)
  then obtain b chunk' where b: "recv_loop (WRONBuffer_write junk) server_read_chk (word_of_nat sz)
        (map RData cs @ RErr # rs) (WRONBuffer junk) (fresh junk CHUNK) 0
      = recv_loop (WRONBuffer_write junk) server_read_chk (word_of_nat sz) (RErr # rs) b chunk'
          (word_of_nat (length (contents b)))"
      "wron_inv b" "contents b = contents (WRONBuffer junk) @ concat cs" "length chunk' = CHUNK"
    by blast
  have pos: "unat (wr_pos b) = length (concat cs)"
    using length_contents [OF b(2)] b(3) by simp
  have "wr_pos b = 0 \<longleftrightarrow> cs = []"
    using assms(1) pos by (cases cs) (auto simp: unat_eq_0 [symmetric])
  moreover have "(to_size (-1) :: size_t) = -1"
    by (rule bit_word_eqI) (simp add: bit_simps)
  ultimately have "WRONBuffer_write junk b chunk' (to_size (-1)) =
      Inl (if cs = [] then BadAlloc else OutOfBounds)"
    using WRONBuffer_write_minus_1 [OF b(2), of chunk' junk] b(4) pos assms(2,4) by simp
  then show ?thesis
    using assms(3-5) b(1) sint_word_of_nat32 [of sz]
    by (simp add: Connection_recv_def sys_read_header Let_def server_read_chk_def)
qed

section \<open>The invariant of the two threads\<close>

definition in_lock :: "'j worker_pc \<Rightarrow> bool" where
  "in_lock pc = (case pc of AtLocked e \<Rightarrow> True | AtUnlock \<Rightarrow> True | _ \<Rightarrow> False)"

definition ev_in_lock :: "evictor_pc \<Rightarrow> bool" where
  "ev_in_lock ev = (case ev of ELocked n \<Rightarrow> True | EMarked n \<Rightarrow> True | EShut n \<Rightarrow> True | _ \<Rightarrow> False)"

definition joined :: "evictor_pc \<Rightarrow> bool" where
  "joined ev = (case ev of EJoined n \<Rightarrow> True | _ \<Rightarrow> False)"

text \<open>The number of times the socket is still to be closed.\<close>

definition to_close :: "evictor_pc \<Rightarrow> nat" where
  "to_close ev = (case ev of ECall n \<Rightarrow> n | ELocked n \<Rightarrow> Suc n | EMarked n \<Rightarrow> Suc n
     | EShut n \<Rightarrow> Suc n | EUnlocked n \<Rightarrow> Suc n | EJoined n \<Rightarrow> Suc n)"

lemmas pc_defs = in_lock_def ev_in_lock_def joined_def to_close_def is_dead_def

definition lock_inv :: "('v, 'j) conn \<Rightarrow> bool" where
  "lock_inv s \<longleftrightarrow> (in_lock (cn_pc s) \<longrightarrow> cn_mutex s = Some Worker)
     \<and> (cn_mutex s = Some Worker \<longrightarrow> in_lock (cn_pc s) \<or> is_dead (cn_pc s))
     \<and> (cn_mutex s = Some Evictor \<longleftrightarrow> ev_in_lock (cn_ev s))"

definition close_inv :: "int \<Rightarrow> nat \<Rightarrow> ('v, 'j) conn \<Rightarrow> bool" where
  "close_inv sock n s \<longleftrightarrow> cn_sock s = sock \<and> to_close (cn_ev s) \<le> n
     \<and> n_closed (cn_wire s) = replicate (n - to_close (cn_ev s)) sock
     \<and> (joined (cn_ev s) \<or> n_closed (cn_wire s) \<noteq> [] \<longrightarrow> cn_pc s = AtEnd)"

lemma caught_cases [simp]: "\<not> in_lock (caught e)" "caught e \<noteq> AtEnd"
  by (cases e; simp add: in_lock_def)+

lemma send_keeps_closed:
  "Connection_send_response J junk n p = (r, w) \<Longrightarrow> n_closed w = n_closed n"
  "Connection_send_error J junk n code = (r, w) \<Longrightarrow> n_closed w = n_closed n"
  "Connection_recv junk n = (q, w) \<Longrightarrow> n_closed w = n_closed n"
  using transfer_keeps_closed [of junk n]
  by (metis Connection_send_response_def Connection_send_error_def snd_conv)+

text \<open>What a step of the worker does to the mutex, and what it leaves alone.\<close>

lemma worker_moves:
  assumes "worker_step J serve junk s = Some t"
  shows "cn_pc s \<noteq> AtEnd \<and> \<not> is_dead (cn_pc s) \<and> cn_ev t = cn_ev s \<and> cn_sock t = cn_sock s
     \<and> n_closed (cn_wire t) = n_closed (cn_wire s)
     \<and> (\<not> in_lock (cn_pc s) \<and> \<not> in_lock (cn_pc t) \<and> cn_mutex t = cn_mutex s
        \<or> \<not> in_lock (cn_pc s) \<and> cn_mutex s = None \<and> in_lock (cn_pc t) \<and> cn_mutex t = Some Worker
        \<or> in_lock (cn_pc s) \<and> (in_lock (cn_pc t) \<or> is_dead (cn_pc t)) \<and> cn_mutex t = cn_mutex s
        \<or> in_lock (cn_pc s) \<and> cn_pc t = AtEnd \<and> cn_mutex t = None)"
proof (cases "cn_pc s")
  case AtRecv
  then show ?thesis
    using assms by (auto simp: worker_step.simps in_lock_def is_dead_def dest: send_keeps_closed
        split: prod.splits outcome.splits) (simp_all flip: in_lock_def)
next
  case (AtMessage m)
  then show ?thesis
    using assms by (auto simp: worker_step.simps in_lock_def is_dead_def
        split: prod.splits outcome.splits) (simp_all flip: in_lock_def)
next
  case (AtReply p)
  then show ?thesis
    using assms by (auto simp: worker_step.simps in_lock_def is_dead_def dest: send_keeps_closed
        split: prod.splits outcome.splits) (simp_all flip: in_lock_def)
next
  case (AtLocked e)
  then show ?thesis
    using assms by (auto simp: worker_step.simps in_lock_def is_dead_def dest: send_keeps_closed
        split: prod.splits outcome.splits if_splits)
qed (use assms in \<open>auto simp: worker_step.simps in_lock_def is_dead_def split: if_splits\<close>)

lemma worker_lock_inv:
  assumes "worker_step J serve junk s = Some t" "lock_inv s"
  shows "lock_inv t"
  using assms(2) worker_moves [OF assms(1)] by (auto simp: lock_inv_def in_lock_def)

lemma worker_close_inv:
  assumes "worker_step J serve junk s = Some t" "close_inv sock n s"
  shows "close_inv sock n t"
  using assms(2) worker_moves [OF assms(1)] by (auto simp: close_inv_def)

lemma evictor_lock_inv:
  assumes "evictor_step s = Some t" "lock_inv s"
  shows "lock_inv t"
proof (cases "cn_ev s")
  case (ECall k)
  then show ?thesis
    using assms by (cases k) (auto simp: evictor_step.simps lock_inv_def ev_in_lock_def in_lock_def
        split: if_splits worker_pc.splits)
qed (use assms in \<open>auto simp: evictor_step.simps lock_inv_def ev_in_lock_def split: if_splits\<close>)

lemma evictor_close_inv:
  assumes "evictor_step s = Some t" "close_inv sock n s"
  shows "close_inv sock n t"
proof (cases "cn_ev s")
  case (ECall k)
  then show ?thesis
    using assms by (cases k) (auto simp: evictor_step.simps close_inv_def joined_def to_close_def
        split: if_splits)
next
  case (EJoined k)
  have "Suc k \<le> n \<Longrightarrow> n - k = Suc (n - Suc k)"
    by simp
  then show ?thesis
    using assms EJoined by (auto simp: evictor_step.simps close_inv_def joined_def to_close_def
        replicate_append_same split: if_splits)
qed (use assms in \<open>auto simp: evictor_step.simps close_inv_def joined_def to_close_def split: if_splits\<close>)

lemma deliver_inv:
  "lock_inv (deliver rs ws s) = lock_inv s" "close_inv sock n (deliver rs ws s) = close_inv sock n s"
  by (simp_all add: deliver_def lock_inv_def close_inv_def)

lemma conn_invariant:
  assumes "conn_steps J serve junk (Connection sock sv n) s"
  shows "lock_inv s \<and> close_inv sock n s"
  using assms
proof (induction rule: rtranclp_induct)
  case base
  show ?case by (simp add: Connection_def lock_inv_def close_inv_def pc_defs)
next
  case (step s t)
  then show ?case
    by (auto elim!: conn_stepE dest: worker_lock_inv evictor_lock_inv worker_close_inv evictor_close_inv
        simp: deliver_inv)
qed

section \<open>Runs of the worker\<close>

text \<open>\<open>k\<close> steps of the worker alone.\<close>

fun worker_run ::
  "'j jconer \<Rightarrow> ('v \<times> 'j request \<Rightarrow> (exn, int) outcome \<times> 'v \<times> 'j request) \<Rightarrow> (nat \<Rightarrow> char) \<Rightarrow>
   nat \<Rightarrow> ('v, 'j) conn \<Rightarrow> ('v, 'j) conn option" where
  "worker_run J serve junk 0 s = Some s"
| "worker_run J serve junk (Suc k) s =
     Option.bind (worker_step J serve junk s) (worker_run J serve junk k)"

fun evictor_run :: "nat \<Rightarrow> ('v, 'j) conn \<Rightarrow> ('v, 'j) conn option" where
  "evictor_run 0 s = Some s"
| "evictor_run (Suc k) s = Option.bind (evictor_step s) (evictor_run k)"

lemma worker_run_steps: "worker_run J serve junk k s = Some t \<Longrightarrow> conn_steps J serve junk s t"
proof (induction k arbitrary: s)
  case (Suc k)
  then obtain u where "worker_step J serve junk s = Some u" "worker_run J serve junk k u = Some t"
    by (auto simp: Option.bind_eq_Some_conv)
  then show ?case
    using Suc.IH by (meson conn_step.worker converse_rtranclp_into_rtranclp)
qed simp

lemma evictor_run_steps: "evictor_run k s = Some t \<Longrightarrow> conn_steps J serve junk s t"
proof (induction k arbitrary: s)
  case (Suc k)
  then obtain u where "evictor_step s = Some u" "evictor_run k u = Some t"
    by (auto simp: Option.bind_eq_Some_conv)
  then show ?case
    using Suc.IH by (meson conn_step.evictor converse_rtranclp_into_rtranclp)
qed simp

lemma worker_run_add:
  "worker_run J serve junk (j + k) s = Option.bind (worker_run J serve junk j s) (worker_run J serve junk k)"
  by (induction j arbitrary: s) (auto simp: Option.bind_assoc intro!: bind_option_cong)

lemma evictor_run_add:
  "evictor_run (j + k) s = Option.bind (evictor_run j s) (evictor_run k)"
  by (induction j arbitrary: s) (auto simp: Option.bind_assoc intro!: bind_option_cong)

text \<open>A request that is answered: the bytes that come in, the reply that goes out.\<close>

definition request_reads :: "bytes \<Rightarrow> bytes list \<Rightarrow> rres list" where
  "request_reads msg cs = RData (int_bytes (size_as_int msg)) # map RData cs"

definition all_writes :: "bytes \<Rightarrow> int list" where
  "all_writes text = full_writes (length (frame text))"

lemma recv_request:
  assumes "pieces msg cs" "length msg < 2 ^ 31" "n_reads n = request_reads msg cs @ rs"
  shows "Connection_recv junk n = (Returns msg, n\<lparr>n_reads := rs\<rparr>)"
  using Connection_recv_frame [OF assms(1,2)] assms(3) by (simp add: request_reads_def)

lemma worker_answers:
  assumes "json_laws J" "cn_pc s = AtLoop" "cn_connected s"
    "pieces msg cs" "length msg < 2 ^ 31" "n_reads (cn_wire s) = request_reads msg cs @ rs"
    "serve_message J serve (cn_service s) msg = (Returns p, sv)"
    "length (build_response J p) < 2 ^ 31"
    "n_writes (cn_wire s) = all_writes (build_response J p) @ ws"
  shows "worker_run J serve junk 5 s = Some (s\<lparr>cn_service := sv,
     cn_wire := (cn_wire s)\<lparr>n_reads := rs, n_writes := ws,
        n_sent := n_sent (cn_wire s) @ frame (build_response J p)\<rparr>\<rparr>)"
proof -
  let ?w = "(cn_wire s)\<lparr>n_reads := rs\<rparr>"
  have five: "(5 :: nat) = Suc (Suc (Suc (Suc (Suc 0))))" by simp
  have ne: "build_response J p \<noteq> []"
    using dumps_text(1) [OF assms(1)] by (simp add: build_response_def)
  have send: "Connection_send_response J junk ?w p =
      (Returns (), ?w\<lparr>n_sent := n_sent ?w @ frame (build_response J p), n_writes := ws\<rparr>)"
    unfolding Connection_send_response_def
    by (rule Connection_send_all [OF ne assms(8)]) (use assms(9) in \<open>simp add: all_writes_def\<close>)
  show ?thesis
    unfolding five using assms(2,3,7) recv_request [OF assms(4-6), of junk] send
    by (simp add: worker_step.simps)
qed

lemma worker_reports:
  assumes "json_laws J" "cn_pc s = AtCatch e" "cn_mutex s = None"
    "\<not> cn_connected s \<or> e \<noteq> ServerCloseSocketException"
    "length (build_error J (get_code e)) < 2 ^ 31"
    "n_writes (cn_wire s) = all_writes (build_error J (get_code e)) @ ws"
  shows "worker_run J serve junk 3 s = Some (s\<lparr>cn_pc := AtEnd, cn_wire := (cn_wire s)
     \<lparr>n_sent := n_sent (cn_wire s) @ frame (build_error J (get_code e)), n_writes := ws\<rparr>\<rparr>)"
proof -
  have three: "(3 :: nat) = Suc (Suc (Suc 0))" by simp
  have ne: "build_error J (get_code e) \<noteq> []"
    using dumps_text(1) [OF assms(1)] by (simp add: build_error_def)
  have send: "Connection_send_error J junk (cn_wire s) (get_code e) = (Returns (), (cn_wire s)
      \<lparr>n_sent := n_sent (cn_wire s) @ frame (build_error J (get_code e)), n_writes := ws\<rparr>)"
    unfolding Connection_send_error_def
    by (rule Connection_send_all [OF ne assms(5)]) (use assms(6) in \<open>simp add: all_writes_def\<close>)
  have same: "s\<lparr>cn_mutex := None\<rparr> = s"
    using assms(3) by simp
  have "worker_run J serve junk 3 s = Some (s\<lparr>cn_mutex := None\<rparr>\<lparr>cn_pc := AtEnd, cn_wire := (cn_wire s)
     \<lparr>n_sent := n_sent (cn_wire s) @ frame (build_error J (get_code e)), n_writes := ws\<rparr>\<rparr>)"
    unfolding three using assms(2-4) send by (simp add: worker_step.simps)
  then show ?thesis
    unfolding same .
qed

text \<open>What the worker sends for a message is the messages of \<open>worker_replies\<close>, each in its frame.\<close>

lemma worker_sends_replies:
  assumes "json_laws J" "cn_pc s = AtMessage msg" "cn_mutex s = None"
    "serve_message J serve (cn_service s) msg = (r, sv)" "r \<noteq> Waits"
    "list_all (\<lambda>t. length t < 2 ^ 31) (worker_replies J (cn_connected s) r)"
    "n_writes (cn_wire s) = concat (map all_writes (worker_replies J (cn_connected s) r)) @ ws"
  shows "\<exists>k t. worker_run J serve junk k s = Some t \<and> cn_service t = sv
    \<and> n_sent (cn_wire t) = n_sent (cn_wire s) @ concat (map frame (worker_replies J (cn_connected s) r))
    \<and> n_writes (cn_wire t) = ws \<and> cn_connected t = (cn_connected s \<and> r \<noteq> Throws (Server ServerCloseSocketException))
    \<and> (cn_pc t = (if cn_connected s then AtLoop else AtEnd) \<and> (\<exists>p. r = Returns p)
       \<or> cn_pc t = AtEnd \<and> (\<exists>e. r = Throws (Server e)) \<or> is_dead (cn_pc t))"
proof -
  let ?s = "s\<lparr>cn_service := sv\<rparr>"
  consider p where "r = Returns p" | e where "r = Throws (Server e)" "\<not> cn_connected s \<or> e \<noteq> ServerCloseSocketException"
    | "r = Throws (Server ServerCloseSocketException)" "cn_connected s"
    | f where "worker_step J serve junk s = Some (s\<lparr>cn_pc := AtDead f, cn_service := sv\<rparr>)" "worker_replies J (cn_connected s) r = []"
      "r \<noteq> Throws (Server ServerCloseSocketException)"
  proof (cases r)
    case (Throws e)
    then show ?thesis
      using that(2-4) assms(2,4) by (cases e) (auto simp: worker_step.simps worker_replies_def)
  qed (use that assms(2,4,5) in \<open>simp_all add: worker_step.simps worker_replies_def\<close>)
  then show ?thesis
  proof cases
    case (1 p)
    let ?ws = "concat (map all_writes (if cn_connected s then [] else [build_error J SOCKET_CLOSED])) @ ws"
    let ?t = "?s\<lparr>cn_wire := (cn_wire s)\<lparr>n_sent := n_sent (cn_wire s) @ frame (build_response J p), n_writes := ?ws\<rparr>\<rparr>"
    have "build_response J p \<noteq> []"
      using dumps_text(1) [OF assms(1)] by (simp add: build_response_def)
    then have "Connection_send_response J junk (cn_wire s) p = (Returns (), cn_wire ?t)"
      unfolding Connection_send_response_def using assms(6,7) 1
      by (subst Connection_send_all [where ws = ?ws]) (simp_all add: worker_replies_def all_writes_def)
    then have "worker_run J serve junk 3 s = worker_run J serve junk 1 (?t\<lparr>cn_pc := AtCheck\<rparr>)"
      using assms(2,4) 1 by (simp add: numeral_3_eq_3 worker_step.simps)
    then have three: "worker_run J serve junk 3 s = Some (?t\<lparr>cn_pc := if cn_connected s then AtLoop else AtCatch ServerCloseSocketException\<rparr>)"
      by (simp add: worker_step.simps)
    show ?thesis
    proof (cases "cn_connected s")
      case True
      then show ?thesis
        using three 1 by (intro exI [of _ 3] exI) (auto simp: worker_replies_def)
    next
      case False
      let ?c = "?t\<lparr>cn_pc := AtCatch ServerCloseSocketException\<rparr>"
      have "worker_run J serve junk 3 ?c = Some (?c\<lparr>cn_pc := AtEnd, cn_wire := (cn_wire ?c)
         \<lparr>n_sent := n_sent (cn_wire ?c) @ frame (build_error J (get_code ServerCloseSocketException)), n_writes := ws\<rparr>\<rparr>)"
        using assms(1,3,6) False 1 by (intro worker_reports) (simp_all add: worker_replies_def)
      then show ?thesis
        using three 1 False worker_run_add [of J serve junk 3 3 s]
        by (intro exI [of _ "3 + 3"] exI) (auto simp: worker_replies_def)
    qed
  next
    case (2 e)
    let ?c = "?s\<lparr>cn_pc := AtCatch e\<rparr>"
    have "worker_run J serve junk 3 ?c = Some (?c\<lparr>cn_pc := AtEnd, cn_wire := (cn_wire ?c)
         \<lparr>n_sent := n_sent (cn_wire ?c) @ frame (build_error J (get_code e)), n_writes := ws\<rparr>\<rparr>)"
      using assms(1,3,6,7) 2 by (intro worker_reports) (auto simp: worker_replies_def)
    moreover have "worker_run J serve junk 1 s = Some ?c"
      using assms(2,4) 2(1) by (simp add: worker_step.simps)
    ultimately show ?thesis
      using 2 worker_run_add [of J serve junk 1 3 s] by (intro exI [of _ "1 + 3"] exI) (auto simp: worker_replies_def)
  next
    case 3
    then have "worker_run J serve junk 4 s = Some (?s\<lparr>cn_pc := AtEnd, cn_connected := False, cn_mutex := None\<rparr>)"
      using assms(2-4) by (simp add: numeral_Bit0 numeral_3_eq_3 worker_step.simps)
    then show ?thesis
      using 3 assms(7) by (intro exI [of _ 4] exI) (auto simp: worker_replies_def)
  next
    case (4 f)
    then have "worker_run J serve junk 1 s = Some (s\<lparr>cn_pc := AtDead f, cn_service := sv\<rparr>)"
      by simp
    then show ?thesis
      using 4 assms(7) by (intro exI [of _ 1] exI) (auto simp: is_dead_def)
  qed
qed

text \<open>The phases of an eviction: to the unlocking, the worker's way out, the join and the close.\<close>

lemma evictor_marks:
  assumes "\<not> is_dead (cn_pc s)" "cn_mutex s = None" "cn_ev s = ECall (Suc n)"
  shows "evictor_run 4 s = Some (s\<lparr>cn_ev := EUnlocked n, cn_connected := False, cn_wire := shut_rd (cn_wire s)\<rparr>)"
proof -
  have "evictor_run 4 s
      = Some (s\<lparr>cn_mutex := None\<rparr>\<lparr>cn_ev := EUnlocked n, cn_connected := False, cn_wire := shut_rd (cn_wire s)\<rparr>)"
    using assms by (simp add: numeral_Bit0 numeral_3_eq_3 evictor_step.simps)
  then show ?thesis
    using assms(2) by simp
qed

lemma evictor_closes:
  assumes "cn_pc s = AtEnd" "cn_ev s = EUnlocked n"
  shows "evictor_run 2 s = Some (s\<lparr>cn_ev := ECall n,
     cn_wire := (cn_wire s)\<lparr>n_closed := n_closed (cn_wire s) @ [cn_sock s]\<rparr>\<rparr>)"
  using assms by (simp add: numeral_2_eq_2 evictor_step.simps is_dead_def)

lemma evictor_call:
  assumes "cn_pc s = AtEnd" "cn_mutex s = None" "cn_ev s = ECall (Suc n)"
  shows "evictor_run 6 s = Some (s\<lparr>cn_ev := ECall n, cn_connected := False,
     cn_wire := (shut_rd (cn_wire s))\<lparr>n_closed := n_closed (cn_wire s) @ [cn_sock s]\<rparr>\<rparr>)"
proof -
  have "\<not> is_dead (cn_pc s)"
    using assms(1) by (simp add: is_dead_def)
  then show ?thesis
    using evictor_run_add [of 4 2 s] evictor_marks [OF _ assms(2,3)] assms(1)
      evictor_closes [of "s\<lparr>cn_ev := EUnlocked n, cn_connected := False, cn_wire := shut_rd (cn_wire s)\<rparr>" n]
    by simp
qed

lemma worker_announces:
  assumes "json_laws J" "cn_pc s = AtRecv" "cn_mutex s = None" "\<not> cn_connected s"
    "n_reads (cn_wire s) = [RData []]" "length (build_error J SOCKET_CLOSED) < 2 ^ 31"
    "n_writes (cn_wire s) = all_writes (build_error J SOCKET_CLOSED) @ ws"
  shows "worker_run J serve junk 4 s = Some (s\<lparr>cn_pc := AtEnd, cn_wire := (cn_wire s)
     \<lparr>n_reads := [], n_sent := n_sent (cn_wire s) @ frame (build_error J SOCKET_CLOSED), n_writes := ws\<rparr>\<rparr>)"
proof -
  let ?c = "s\<lparr>cn_pc := AtCatch ServerCloseSocketException, cn_wire := (cn_wire s)\<lparr>n_reads := []\<rparr>\<rparr>"
  have "worker_run J serve junk 4 s = worker_run J serve junk 3 ?c"
    using assms(2) Connection_recv_eof [OF assms(5), of junk]
    by (simp add: numeral_Bit0 numeral_3_eq_3 worker_step.simps)
  also have "\<dots> = Some (?c\<lparr>cn_pc := AtEnd, cn_wire := (cn_wire ?c)
     \<lparr>n_sent := n_sent (cn_wire ?c) @ frame (build_error J (get_code ServerCloseSocketException)),
      n_writes := ws\<rparr>\<rparr>)"
    by (rule worker_reports) (use assms in simp_all)
  finally show ?thesis
    by simp
qed

text \<open>The replies to a sequence of messages, if none of them fails.\<close>

fun serve_all ::
  "'j jconer \<Rightarrow> ('v \<times> 'j request \<Rightarrow> (exn, int) outcome \<times> 'v \<times> 'j request) \<Rightarrow> 'v \<Rightarrow> bytes list \<Rightarrow>
   ('j response list \<times> 'v) option" where
  "serve_all J serve sv [] = Some ([], sv)"
| "serve_all J serve sv (m # ms) =
     (case serve_message J serve sv m of
        (Returns p, sv') \<Rightarrow> map_option (\<lambda>(ps, u). (p # ps, u)) (serve_all J serve sv' ms)
      | _ \<Rightarrow> None)"

lemma worker_session:
  assumes "json_laws J" "list_all2 (\<lambda>m cs. pieces m cs \<and> length m < 2 ^ 31) ms css"
    "serve_all J serve (cn_service s) ms = Some (ps, sv)"
    "list_all (\<lambda>p. length (build_response J p) < 2 ^ 31) ps"
    "cn_pc s = AtLoop" "cn_connected s"
    "n_reads (cn_wire s) = concat (map2 request_reads ms css) @ rs"
    "n_writes (cn_wire s) = concat (map (\<lambda>p. all_writes (build_response J p)) ps) @ ws"
  shows "worker_run J serve junk (5 * length ms) s = Some (s\<lparr>cn_service := sv,
     cn_wire := (cn_wire s)\<lparr>n_reads := rs, n_writes := ws,
        n_sent := n_sent (cn_wire s) @ concat (map (\<lambda>p. frame (build_response J p)) ps)\<rparr>\<rparr>)"
  using assms(2-8)
proof (induction ms css arbitrary: s ps rule: list_all2_induct)
  case Nil
  then show ?case by simp
next
  case (Cons m ms cs css)
  obtain p sv' ps' where p: "serve_message J serve (cn_service s) m = (Returns p, sv')"
      "serve_all J serve sv' ms = Some (ps', sv)" "ps = p # ps'"
    using Cons.prems(1) by (auto split: prod.splits outcome.splits)
  let ?w = "concat (map (\<lambda>p. all_writes (build_response J p)) ps') @ ws"
  let ?t = "s\<lparr>cn_service := sv', cn_wire := (cn_wire s)\<lparr>n_writes := ?w,
     n_reads := concat (map2 request_reads ms css) @ rs,
     n_sent := n_sent (cn_wire s) @ frame (build_response J p)\<rparr>\<rparr>"
  have "worker_run J serve junk 5 s = Some ?t"
    by (subst worker_answers [OF assms(1) Cons.prems(3,4)]) (use Cons.hyps(1) Cons.prems p in auto)
  moreover have "worker_run J serve junk (5 * length ms) ?t = Some (?t\<lparr>cn_service := sv,
     cn_wire := (cn_wire ?t)\<lparr>n_reads := rs, n_writes := ws,
        n_sent := n_sent (cn_wire ?t) @ concat (map (\<lambda>p. frame (build_response J p)) ps')\<rparr>\<rparr>)"
    by (rule Cons.IH) (use Cons.prems p in auto)
  ultimately show ?case
    using p(3) by (simp add: worker_run_add)
qed

text \<open>Nor does end of file inside a message end the loop of \<open>\_recv\<close>.\<close>

lemma Connection_recv_cut_off:
  assumes "list_all (\<lambda>c. 0 < length c \<and> length c \<le> CHUNK) cs" "length (concat cs) < sz" "sz < 2 ^ 31"
    "n_reads n = RData (int_bytes (word_of_nat sz)) # map RData cs @ replicate k (RData [])"
  shows "fst (Connection_recv junk n) = Waits"
proof -
  have "recv_loop (WRONBuffer_write junk) server_read_chk (word_of_nat sz)
      (map RData cs @ replicate k (RData [])) (WRONBuffer junk) (fresh junk CHUNK) 0 = (Waits, [])"
    by (rule wr.recv_cut_off [OF wron_inv_new])
       (use assms in \<open>auto simp: server_read_chk_def list_all_iff\<close>)
  then show ?thesis
    using assms(2-4) sint_word_of_nat32 [of sz]
    by (simp add: Connection_recv_def sys_read_header Let_def)
qed

section \<open>Properties\<close>

text \<open>
  (C21) The server reads a message whole and exactly, in whatever pieces it comes and whatever
  bytes it holds (NUL included, unlike the client); end of file instead of a length is the
  end of the connection, a length that is cut short or not positive an empty message.
\<close>
theorem server_recv_message:
  assumes "pieces msg cs" "length msg < 2 ^ 31"
  shows "Connection_recv junk (n\<lparr>n_reads := request_reads msg cs @ rs\<rparr>) = (Returns msg, n\<lparr>n_reads := rs\<rparr>)
    \<and> Connection_recv junk (n\<lparr>n_reads := RData [] # rs\<rparr>)
        = (Throws (Server ServerCloseSocketException), n\<lparr>n_reads := rs\<rparr>)
    \<and> (bs \<noteq> [] \<and> length bs < 4 \<or> length bs = 4 \<and> sint (bytes_int bs) \<le> 0 \<longrightarrow>
        Connection_recv junk (n\<lparr>n_reads := RData bs # rs\<rparr>) = (Returns [], n\<lparr>n_reads := rs\<rparr>))"
proof (intro conjI impI)
  show "Connection_recv junk (n\<lparr>n_reads := request_reads msg cs @ rs\<rparr>) = (Returns msg, n\<lparr>n_reads := rs\<rparr>)"
    by (subst recv_request [OF assms]) simp_all
  show "Connection_recv junk (n\<lparr>n_reads := RData [] # rs\<rparr>)
        = (Throws (Server ServerCloseSocketException), n\<lparr>n_reads := rs\<rparr>)"
    by (subst Connection_recv_eof) simp_all
  assume bs: "bs \<noteq> [] \<and> length bs < 4 \<or> length bs = 4 \<and> sint (bytes_int bs) \<le> 0"
  then have "length bs \<le> 4" by auto
  then have "(word_of_nat (length bs) :: i32) = 0 \<longleftrightarrow> bs = []"
      "(word_of_nat (length bs) :: i32) = 4 \<longleftrightarrow> length bs = 4"
    using word_of_nat_inj32 [of "length bs" 0] word_of_nat_inj32 [of "length bs" 4] by auto
  then show "Connection_recv junk (n\<lparr>n_reads := RData bs # rs\<rparr>) = (Returns [], n\<lparr>n_reads := rs\<rparr>)"
    using bs \<open>length bs \<le> 4\<close> by (auto simp: Connection_recv_def Let_def)
qed

theorem server_recv_message_witness:
  "Connection_recv (\<lambda>_. NUL) (\<lparr>n_writes = [], n_reads = [], n_sent = [], n_closed = []\<rparr>
      \<lparr>n_reads := request_reads (''a'' @ [NUL] @ ''b'') [''a'' @ [NUL], ''b''] @ [RData []]\<rparr>)
   = (Returns (''a'' @ [NUL] @ ''b''), \<lparr>n_writes = [], n_reads = [RData []], n_sent = [], n_closed = []\<rparr>)"
  using server_recv_message [where msg = "''a'' @ [NUL] @ ''b''" and cs = "[''a'' @ [NUL], ''b'']"
      and junk = "\<lambda>_. NUL" and n = "\<lparr>n_writes = [], n_reads = [], n_sent = [], n_closed = []\<rparr>"
      and rs = "[RData []]"]
  by (simp add: pieces_def)

text \<open>
  One client can stop the whole server: when a \<open>read\<close> inside a message fails (the client
  reset the connection), the unchecked -1 becomes a length of 2^64 - 1, and \<open>write\<close> either
  asks for an array of a negative size or copies outside its arrays. No step of either
  thread is possible after it.
\<close>
theorem reset_inside_message_is_fatal:
  assumes "list_all (\<lambda>c. 0 < length c \<and> length c \<le> CHUNK) cs" "length (concat cs) < sz"
    "0 < sz" "sz < 2 ^ 31" "cn_pc s = AtRecv"
    "n_reads (cn_wire s) = RData (int_bytes (word_of_nat sz)) # map RData cs @ RErr # rs"
  shows "\<exists>t. worker_step J serve junk s = Some t
     \<and> cn_pc t = AtDead (if cs = [] then BadAlloc else OutOfBounds)
     \<and> worker_step J serve junk t = None \<and> evictor_step t = None"
  using Connection_recv_breaks [OF assms(1-4,6), of junk] assms(5)
  by (cases "Connection_recv junk (cn_wire s)")
     (auto simp: worker_step.simps evictor_step.simps is_dead_def)

theorem reset_inside_message_is_fatal_witness:
  "\<exists>t. worker_step json_api on_request (\<lambda>_. NUL)
       (deliver (RData (int_bytes (word_of_nat 100)) # map RData [''{''] @ [RErr]) []
         ((Connection 5 sample_service 1)\<lparr>cn_pc := AtRecv\<rparr>)) = Some t
     \<and> cn_pc t = AtDead OutOfBounds \<and> evictor_step t = None"
  using reset_inside_message_is_fatal [of "[''{'']" 100
      "deliver (RData (int_bytes (word_of_nat 100)) # map RData [''{''] @ [RErr]) []
         ((Connection 5 sample_service 1)\<lparr>cn_pc := AtRecv\<rparr>)" "[]" json_api on_request "\<lambda>_. NUL"]
  by (fastforce simp: deliver_def Connection_def)

text \<open>
  (C4) A session: requests that come in order, in any pieces, are answered in order, each with
  one frame that holds its response and nothing between them; the service goes through
  the states its handlers make, and the worker is back at its loop.
\<close>
theorem session_in_order:
  assumes "json_laws J" "list_all2 (\<lambda>m cs. pieces m cs \<and> length m < 2 ^ 31) ms css"
    "serve_all J serve (cn_service s) ms = Some (ps, sv)"
    "list_all (\<lambda>p. length (build_response J p) < 2 ^ 31) ps"
    "cn_pc s = AtLoop" "cn_connected s"
    "n_reads (cn_wire s) = concat (map2 request_reads ms css) @ rs"
    "n_writes (cn_wire s) = concat (map (\<lambda>p. all_writes (build_response J p)) ps) @ ws"
  shows "worker_run J serve junk (5 * length ms) s = Some (s\<lparr>cn_service := sv,
     cn_wire := (cn_wire s)\<lparr>n_reads := rs, n_writes := ws,
        n_sent := n_sent (cn_wire s) @ concat (map (\<lambda>p. frame (build_response J p)) ps)\<rparr>\<rparr>)"
  by (rule worker_session [OF assms])

lemma pieces_whole: "0 < length msg \<Longrightarrow> length msg \<le> CHUNK \<Longrightarrow> pieces msg [msg]"
  by (simp add: pieces_def)

theorem session_in_order_witness:
  "\<exists>t. worker_run json_api on_request (\<lambda>_. NUL) (5 * length [sample_request])
      (deliver (request_reads sample_request [sample_request])
        (all_writes (build_response json_api \<lparr>sout = JInt 7\<rparr>)) (Connection 5 sample_service 0)) = Some t
    \<and> n_sent (cn_wire t) = frame (build_response json_api \<lparr>sout = JInt 7\<rparr>)
    \<and> sv_object (cn_service t) = 1"
proof -
  let ?s = "deliver (request_reads sample_request [sample_request])
        (all_writes (build_response json_api \<lparr>sout = JInt 7\<rparr>)) (Connection 5 sample_service 0)
        :: ((nat, json) service, json) conn"
  have "length (build_response json_api \<lparr>sout = JInt 7\<rparr>) \<le> 1024"
    by code_simp
  then have len: "length (build_response json_api \<lparr>sout = JInt 7\<rparr>) < 2 ^ 31"
    by (rule le_less_trans) simp
  have sl: "length sample_request < 2 ^ 31"
    using sample_length(2) by (rule le_less_trans) simp
  have all: "list_all2 (\<lambda>m cs. pieces m cs \<and> length m < 2 ^ 31) [sample_request] [[sample_request]]"
    using sample_length sl by (simp only: list_all2_Cons list_all2_Nil pieces_whole simp_thms)
  have served: "serve_all json_api on_request (cn_service ?s) [sample_request]
      = Some ([\<lparr>sout = JInt 7\<rparr>], sample_service\<lparr>sv_object := 1\<rparr>)"
    by (simp add: deliver_def Connection_def sample_served)
  have "worker_run json_api on_request (\<lambda>_. NUL) (5 * length [sample_request]) ?s
     = Some (?s\<lparr>cn_service := sample_service\<lparr>sv_object := 1\<rparr>, cn_wire := (cn_wire ?s)\<lparr>n_reads := [],
        n_writes := [], n_sent := n_sent (cn_wire ?s)
          @ concat (map (\<lambda>p. frame (build_response json_api p)) [\<lparr>sout = JInt 7\<rparr>])\<rparr>\<rparr>)"
    by (rule session_in_order [OF json_api_laws all served])
       (simp_all only: list.pred_inject len simp_thms, simp_all add: deliver_def Connection_def)
  then show ?thesis
    by (simp add: deliver_def Connection_def)
qed

text \<open>
  An error ends the service of a connection without ending the connection: a message that
  cannot be served (any ServerException but SOCKET_CLOSED) is answered with its error code,
  the worker ends, and \<open>_connected\<close> stays true and the socket open. Whatever the
  client sends then, no step of the worker reads it.
\<close>
theorem error_ends_worker_not_connection:
  assumes "json_laws J" "cn_pc s = AtMessage msg" "cn_connected s" "cn_mutex s = None"
    "serve_message J serve (cn_service s) msg = (Throws (Server e), sv)"
    "e \<noteq> ServerCloseSocketException" "length (build_error J (get_code e)) < 2 ^ 31"
    "n_writes (cn_wire s) = all_writes (build_error J (get_code e)) @ ws"
  shows "\<exists>t. worker_run J serve junk 4 s = Some t
    \<and> n_sent (cn_wire t) = n_sent (cn_wire s) @ frame (build_error J (get_code e))
    \<and> cn_pc t = AtEnd \<and> cn_connected t \<and> cn_mutex t = None
    \<and> n_closed (cn_wire t) = n_closed (cn_wire s)
    \<and> (\<forall>rs ws. worker_step J serve junk (deliver rs ws t) = None)"
proof -
  let ?u = "s\<lparr>cn_pc := AtCatch e, cn_service := sv\<rparr>"
  have "worker_run J serve junk 4 s = worker_run J serve junk 3 ?u"
    using assms(2,5) by (simp add: numeral_Bit0 numeral_3_eq_3 worker_step.simps)
  also have "\<dots> = Some (?u\<lparr>cn_pc := AtEnd, cn_wire := (cn_wire ?u)
     \<lparr>n_sent := n_sent (cn_wire ?u) @ frame (build_error J (get_code e)), n_writes := ws\<rparr>\<rparr>)"
    by (rule worker_reports) (use assms in simp_all)
  finally show ?thesis
    using assms(3,4) by (simp add: worker_step.simps deliver_def)
qed

theorem error_ends_worker_not_connection_witness:
  "\<exists>t. worker_run json_api on_request (\<lambda>_. NUL) 4
        (deliver [] (all_writes (build_error json_api BAD_MESSAGE))
          ((Connection 5 sample_service 1)\<lparr>cn_pc := AtMessage []\<rparr>)) = Some t
    \<and> n_sent (cn_wire t) = frame (build_error json_api BAD_MESSAGE)
    \<and> cn_pc t = AtEnd \<and> cn_connected t \<and> n_closed (cn_wire t) = []"
proof -
  let ?s = "deliver [] (all_writes (build_error json_api BAD_MESSAGE))
          ((Connection 5 sample_service 1)\<lparr>cn_pc := AtMessage []\<rparr>)
        :: ((nat, json) service, json) conn"
  have "length (build_error json_api BAD_MESSAGE) \<le> 1024"
    by code_simp
  then have len: "length (build_error json_api (get_code ServerBadMessageException)) < 2 ^ 31"
    by (simp add: le_less_trans)
  have fails: "serve_message json_api on_request (cn_service ?s) []
      = (Throws (Server ServerBadMessageException), sample_service)"
    by (simp add: serve_message_def deliver_def Connection_def)
  show ?thesis
    using error_ends_worker_not_connection [OF json_api_laws _ _ _ fails _ len, of "[]" "\<lambda>_. NUL"]
    by (auto simp: deliver_def Connection_def)
qed

text \<open>
  (C34) A client that has sent only a part of a message cannot be evicted: \<open>::shutdown\<close> gives the
  worker end of file inside the message, where the result 0 of \<open>read\<close> is not checked. From then on
  the worker does not get out of \<open>_recv\<close>, however often \<open>read\<close> returns end of file, and
  \<open>shutdown\<close>, which joins it, does not go on: neither thread can make a step, and the socket is
  not closed.
\<close>
theorem eviction_inside_message_hangs:
  assumes "list_all (\<lambda>c. 0 < length c \<and> length c \<le> CHUNK) cs" "length (concat cs) < sz"
    "sz < 2 ^ 31" "cn_pc s = AtRecv" "cn_mutex s = None" "cn_ev s = ECall (Suc n)"
    "n_reads (cn_wire s) = RData (int_bytes (word_of_nat sz)) # map RData cs"
  shows "\<exists>u. evictor_run 4 s = Some u \<and> cn_pc u = AtRecv \<and> cn_ev u = EUnlocked n
    \<and> n_reads (cn_wire u) = n_reads (cn_wire s) @ [RData []] \<and> n_closed (cn_wire u) = n_closed (cn_wire s)
    \<and> (\<forall>k ws. worker_step J serve junk (deliver (replicate k (RData [])) ws u) = None
             \<and> evictor_step (deliver (replicate k (RData [])) ws u) = None)"
proof -
  let ?u = "s\<lparr>cn_ev := EUnlocked n, cn_connected := False, cn_wire := shut_rd (cn_wire s)\<rparr>"
  have "worker_step J serve junk (deliver (replicate k (RData [])) ws ?u) = None" for k ws
    using Connection_recv_cut_off [OF assms(1-3), of "cn_wire (deliver (replicate k (RData [])) ws ?u)" "Suc k" junk]
      assms(4,7)
    by (auto simp: deliver_def worker_step.simps split: prod.splits)
  moreover have "evictor_run 4 s = Some ?u"
    by (rule evictor_marks) (use assms(4-6) in \<open>simp_all add: is_dead_def\<close>)
  ultimately show ?thesis
    using assms(4) by (intro exI [of _ ?u]) (simp add: deliver_def evictor_step.simps)
qed

theorem eviction_inside_message_hangs_witness:
  "\<exists>u. evictor_run 4 (deliver (RData (int_bytes (word_of_nat 100)) # map RData [''{'']) []
         ((Connection 5 sample_service 2)\<lparr>cn_pc := AtRecv\<rparr>)) = Some u
    \<and> n_closed (cn_wire u) = []
    \<and> (\<forall>k. worker_step json_api on_request (\<lambda>_. NUL) (deliver (replicate k (RData [])) [] u) = None
          \<and> evictor_step (deliver (replicate k (RData [])) [] u) = None)"
  using eviction_inside_message_hangs [of "[''{'']" 100
      "deliver (RData (int_bytes (word_of_nat 100)) # map RData [''{'']) []
         ((Connection 5 sample_service 2)\<lparr>cn_pc := AtRecv\<rparr>)" 1 json_api on_request "\<lambda>_. NUL"]
  by (fastforce simp: deliver_def Connection_def)

text \<open>
  (C9) In every interleaving of the worker, the thread that shuts the connection down and the
  kernel: the mutex excludes the two from their critical sections, the socket is closed
  only after the worker has ended (so nothing is read from or written to a closed
  descriptor), and when the \<open>n\<close> calls of \<open>shutdown\<close> are over it has been closed \<open>n\<close> times:
  twice for an evicted connection, whose destructor shuts it down again.
\<close>
theorem no_transfer_on_closed_socket:
  assumes "conn_steps J serve junk (Connection sock sv n) s"
  shows "\<not> (in_lock (cn_pc s) \<and> ev_in_lock (cn_ev s))
    \<and> (n_closed (cn_wire s) \<noteq> [] \<longrightarrow> cn_pc s = AtEnd \<and> worker_step J serve junk s = None)
    \<and> set (n_closed (cn_wire s)) \<subseteq> {sock} \<and> length (n_closed (cn_wire s)) \<le> n
    \<and> (cn_ev s = ECall 0 \<longrightarrow> n_closed (cn_wire s) = replicate n sock)"
proof -
  have "lock_inv s" and c: "close_inv sock n s"
    using conn_invariant [OF assms] by auto
  then have "\<not> (in_lock (cn_pc s) \<and> ev_in_lock (cn_ev s))"
    by (auto simp: lock_inv_def)
  moreover have "n_closed (cn_wire s) \<noteq> [] \<longrightarrow> cn_pc s = AtEnd \<and> worker_step J serve junk s = None"
    using c by (auto simp: close_inv_def worker_step.simps)
  ultimately show ?thesis
    using c by (auto simp: close_inv_def to_close_def)
qed

lemma evicted_at_loop:
  assumes "cn_pc s = AtLoop" "cn_mutex s = None" "cn_ev s = ECall (Suc (Suc 0))"
  shows "\<exists>u v. evictor_run 4 s = Some u \<and> worker_run J serve junk 1 u = Some v
     \<and> evictor_run 8 v = Some (s\<lparr>cn_pc := AtEnd, cn_ev := ECall 0, cn_connected := False,
          cn_wire := (shut_rd (shut_rd (cn_wire s)))\<lparr>n_closed := n_closed (cn_wire s) @ [cn_sock s, cn_sock s]\<rparr>\<rparr>)"
proof -
  let ?u = "s\<lparr>cn_ev := EUnlocked (Suc 0), cn_connected := False, cn_wire := shut_rd (cn_wire s)\<rparr>"
  let ?v = "?u\<lparr>cn_pc := AtEnd\<rparr>"
  let ?w = "?v\<lparr>cn_ev := ECall (Suc 0), cn_wire := (cn_wire ?v)\<lparr>n_closed := n_closed (cn_wire ?v) @ [cn_sock ?v]\<rparr>\<rparr>"
  have "evictor_run 4 s = Some ?u"
    using assms by (intro evictor_marks) (simp_all add: is_dead_def)
  moreover have "worker_run J serve junk 1 ?u = Some ?v"
    using assms(1) by (simp add: worker_step.simps)
  moreover have "evictor_run 8 ?v = Some (s\<lparr>cn_pc := AtEnd, cn_ev := ECall 0, cn_connected := False,
          cn_wire := (shut_rd (shut_rd (cn_wire s)))\<lparr>n_closed := n_closed (cn_wire s) @ [cn_sock s, cn_sock s]\<rparr>\<rparr>)"
    using evictor_run_add [of 2 6 ?v] evictor_closes [of ?v "Suc 0"] evictor_call [of ?w 0] assms(2) by simp
  ultimately show ?thesis
    by blast
qed

lemma evicted_at_loop_steps:
  assumes "cn_pc s = AtLoop" "cn_mutex s = None" "cn_ev s = ECall (Suc (Suc 0))"
  shows "conn_steps J serve junk s (s\<lparr>cn_pc := AtEnd, cn_ev := ECall 0, cn_connected := False,
     cn_wire := (shut_rd (shut_rd (cn_wire s)))\<lparr>n_closed := n_closed (cn_wire s) @ [cn_sock s, cn_sock s]\<rparr>\<rparr>)"
  using evicted_at_loop [OF assms, of J serve junk]
  by (meson evictor_run_steps worker_run_steps rtranclp_trans)

theorem no_transfer_on_closed_socket_witness:
  "\<exists>s. conn_steps json_api on_request (\<lambda>_. NUL) (Connection 5 sample_service 2) s
     \<and> cn_ev s = ECall 0 \<and> n_closed (cn_wire s) = [5, 5] \<and> cn_pc s = AtEnd"
proof -
  obtain s where s: "conn_steps json_api on_request (\<lambda>_. NUL) (Connection 5 sample_service 2) s"
      "cn_ev s = ECall 0"
    using evicted_at_loop_steps [of "Connection 5 sample_service 2" json_api on_request "\<lambda>_. NUL"]
    by (simp add: Connection_def numeral_2_eq_2)
  then show ?thesis
    using no_transfer_on_closed_socket [OF s(1)] by (auto simp: numeral_2_eq_2)
qed

text \<open>
  An eviction may be silent: when the worker is at the head of its loop (a connection that
  has just been accepted, or has just answered) as the server evicts it, the worker leaves
  through the test of \<open>while\<close>. The client is sent nothing, not even SOCKET_CLOSED, which is
  what would make it connect again; the descriptor is closed twice.
\<close>
theorem eviction_may_be_silent:
  assumes "cn_pc s = AtLoop" "cn_mutex s = None" "cn_ev s = ECall 2"
  shows "\<exists>t. conn_steps J serve junk s t \<and> cn_pc t = AtEnd \<and> cn_ev t = ECall 0
    \<and> n_sent (cn_wire t) = n_sent (cn_wire s)
    \<and> n_closed (cn_wire t) = n_closed (cn_wire s) @ [cn_sock s, cn_sock s]"
  using evicted_at_loop_steps [of s J serve junk] assms
  by (intro exI [of _ "s\<lparr>cn_pc := AtEnd, cn_ev := ECall 0, cn_connected := False,
      cn_wire := (shut_rd (shut_rd (cn_wire s)))\<lparr>n_closed := n_closed (cn_wire s) @ [cn_sock s, cn_sock s]\<rparr>\<rparr>"])
     (simp add: numeral_2_eq_2)

theorem eviction_may_be_silent_witness:
  "\<exists>t. conn_steps json_api on_request (\<lambda>_. NUL) (Connection 5 sample_service 2) t
    \<and> cn_pc t = AtEnd \<and> n_sent (cn_wire t) = [] \<and> n_closed (cn_wire t) = [5, 5]"
  using eviction_may_be_silent [of "Connection 5 sample_service 2" json_api on_request "\<lambda>_. NUL"]
  by (auto simp: Connection_def)

text \<open>
  (C35) An eviction of a worker that waits for a message is announced: \<open>::shutdown\<close> ends the read that
  waits (no byte has come, and none comes from the client), the worker sends the error SOCKET_CLOSED and ends, the socket is closed
  after that, and the client that reads this frame throws ServerCloseSocketException.
\<close>
theorem eviction_is_announced:
  assumes "json_laws J" "cn_pc s = AtRecv" "cn_mutex s = None" "cn_ev s = ECall (Suc n)"
    "n_reads (cn_wire s) = []" "length (build_error J SOCKET_CLOSED) < 2 ^ 31"
    "n_writes (cn_wire s) = all_writes (build_error J SOCKET_CLOSED)"
  shows "worker_step J serve junk s = None
    \<and> (\<exists>u v t. evictor_run 4 s = Some u \<and> worker_run J serve junk 4 u = Some v
    \<and> evictor_run 2 v = Some t \<and> cn_pc v = AtEnd \<and> n_closed (cn_wire v) = n_closed (cn_wire s)
    \<and> n_sent (cn_wire t) = n_sent (cn_wire s) @ frame (build_error J SOCKET_CLOSED)
    \<and> n_closed (cn_wire t) = n_closed (cn_wire s) @ [cn_sock s] \<and> cn_ev t = ECall n)
    \<and> parse_response J (build_error J SOCKET_CLOSED) = Throws (Server ServerCloseSocketException)"
proof -
  let ?u = "s\<lparr>cn_ev := EUnlocked n, cn_connected := False, cn_wire := shut_rd (cn_wire s)\<rparr>"
  let ?v = "?u\<lparr>cn_pc := AtEnd, cn_wire := (cn_wire ?u)
     \<lparr>n_reads := [], n_sent := n_sent (cn_wire ?u) @ frame (build_error J SOCKET_CLOSED), n_writes := []\<rparr>\<rparr>"
  have "evictor_run 4 s = Some ?u"
    using assms(2-4) by (intro evictor_marks) (simp_all add: is_dead_def)
  moreover have "worker_run J serve junk 4 ?u = Some ?v"
    by (rule worker_announces [where ws = "[]"]) (use assms in simp_all)
  moreover have "evictor_run 2 ?v = Some (?v\<lparr>cn_ev := ECall n,
      cn_wire := (cn_wire ?v)\<lparr>n_closed := n_closed (cn_wire ?v) @ [cn_sock ?v]\<rparr>\<rparr>)"
    by (rule evictor_closes) simp_all
  moreover have "worker_step J serve junk s = None"
    using assms(2,5) by (simp add: worker_step.simps Connection_recv_def)
  ultimately show ?thesis
    using parse_build_error [OF assms(1), of ServerCloseSocketException] by simp
qed

lemma json_api_closed_text: "length (build_error json_api SOCKET_CLOSED) < 2 ^ 31"
proof -
  have "length (build_error json_api SOCKET_CLOSED) \<le> 1024"
    by code_simp
  then show ?thesis
    by (rule le_less_trans) simp
qed

theorem eviction_is_announced_witness:
  "\<exists>u v t. evictor_run 4 (deliver [] (all_writes (build_error json_api SOCKET_CLOSED))
        ((Connection 5 sample_service 2)\<lparr>cn_pc := AtRecv\<rparr>)) = Some u
    \<and> worker_run json_api on_request (\<lambda>_. NUL) 4 u = Some v \<and> evictor_run 2 v = Some t
    \<and> n_sent (cn_wire t) = frame (build_error json_api SOCKET_CLOSED) \<and> n_closed (cn_wire t) = [5]"
proof -
  let ?s = "deliver [] (all_writes (build_error json_api SOCKET_CLOSED))
        ((Connection 5 sample_service 2)\<lparr>cn_pc := AtRecv\<rparr>) :: ((nat, json) service, json) conn"
  have "cn_ev ?s = ECall (Suc 1)"
    by (simp add: deliver_def Connection_def)
  from eviction_is_announced [OF json_api_laws _ _ this _ json_api_closed_text, of on_request "\<lambda>_. NUL"]
  show ?thesis
    by (auto simp: deliver_def Connection_def)
qed

end
