(* ===== verification/SockServer.thy ===== *)
theory SockServer
  imports Sconn Connection
begin

text \<open>
  sockserver.hpp and sockserver.cpp, the server: the pool of connections, the thread that
  accepts and evicts, and \<open>stop\<close>, which runs in another thread. A connection is named by
  its descriptor; what \<open>shutdown\<close> does inside one is the matter of \<open>Connection\<close> and
  \<open>SockSystem\<close>, here it is one step and one \<open>close\<close> in the log.
\<close>

definition POOL_SIZE :: i32 where "POOL_SIZE = 16"

text \<open>
  Where \<open>SockServer::loop\<close> is, with the descriptor just accepted and the connection it takes
  out of the pool, and where \<open>stop\<close> is. The iterator of \<open>\_close_connections\<close> is given by the
  number of elements from it to the end of the list, which does not change when elements before
  it are popped.
\<close>

datatype loop_pc =
    LIdle                              \<comment> \<open>the thread is not started\<close>
  | LHead                              \<comment> \<open>before the test of \<open>while\<close>\<close>
  | LAccept
  | LCheck int                         \<comment> \<open>before the test of the size\<close>
  | LFront int                         \<comment> \<open>before \<open>front ()\<close>\<close>
  | LShutdown int int                  \<comment> \<open>before \<open>oldconn->shutdown ()\<close>\<close>
  | LPop int int
  | LDelete int int
  | LLock int                          \<comment> \<open>before \<open>\_mutex.lock ()\<close>\<close>
  | LPush int                          \<comment> \<open>with the mutex\<close>
  | LStart int                         \<comment> \<open>before \<open>newconn->start ()\<close>\<close>
  | LEnd
  | LDead fault

datatype stop_pc =
    PIdle
  | PClose nat                         \<comment> \<open>with the mutex, before the test of \<open>for\<close>\<close>
  | PNext nat                          \<comment> \<open>with the mutex, before \<open>it ++\<close>\<close>
  | PClosed
  | PStopped
  | PJoined
  | PDead fault

record 'h sockserver = "'h sconn" +
  ss_pool_size :: i32
  ss_stop :: bool
  ss_mutex :: bool                     \<comment> \<open>\<open>\_mutex\<close> is held\<close>
  ss_conns :: "int list"               \<comment> \<open>\<open>\_connections\<close>, the oldest first\<close>
  ss_pc :: loop_pc
  ss_stopper :: stop_pc
  ss_started :: "int list"             \<comment> \<open>log of the connections started\<close>
  ss_closed :: "int list"              \<comment> \<open>log of \<open>close\<close>\<close>

definition SockServer :: "string \<Rightarrow> int \<Rightarrow> (exn, 'h sockserver) outcome" where
  "SockServer port r =
     obind (ServerConnector port r) (\<lambda>c. Returns (sconn.extend c
       \<lparr>ss_pool_size = POOL_SIZE, ss_stop = False, ss_mutex = False, ss_conns = [], ss_pc = LIdle,
        ss_stopper = PIdle, ss_started = [], ss_closed = []\<rparr>))"

text \<open>\<open>start\<close>: \<open>_listen\<close>, whose result is dropped, then the thread.\<close>

definition SockServer_start ::
  "int \<times> int \<times> int \<Rightarrow> 'h sockserver \<Rightarrow> (exn, int) outcome \<times> 'h sockserver \<times> lcall list" where
  "SockServer_start k s =
     (case ServerConnector_listen k s of (r, s', log) \<Rightarrow>
       (case r of
          Returns _ \<Rightarrow> (Returns 0, s'\<lparr>ss_pc := LHead\<rparr>, log)
        | Throws e \<Rightarrow> (Throws e, s', log)
        | Faults f \<Rightarrow> (Faults f, s', log)
        | Waits \<Rightarrow> (Waits, s', log)))"

text \<open>
  One step of \<open>\_close_connections\<close>. A step that reads through the iterator after its element
  was popped ends the program with a fault.
\<close>

definition SockServer_close_connections :: "'h sockserver \<Rightarrow> 'h sockserver option" where
  "SockServer_close_connections s =
     (case ss_stopper s of
        PClose r \<Rightarrow>
          (if r = 0 then Some (s\<lparr>ss_conns := [], ss_mutex := False, ss_stopper := PClosed\<rparr>)
           else if length (ss_conns s) < r then Some (s\<lparr>ss_stopper := PDead UseAfterFree\<rparr>)
           else Some (s\<lparr>ss_closed := ss_closed s @ [ss_conns s ! (length (ss_conns s) - r)],
                        ss_stopper := PNext r\<rparr>))
      | PNext r \<Rightarrow>
          (if length (ss_conns s) < r then Some (s\<lparr>ss_stopper := PDead UseAfterFree\<rparr>)
           else Some (s\<lparr>ss_stopper := PClose (r - 1)\<rparr>))
      | _ \<Rightarrow>
          (if ss_mutex s then None
           else Some (s\<lparr>ss_mutex := True, ss_stopper := PClose (length (ss_conns s))\<rparr>)))"

text \<open>One step of \<open>loop\<close>; \<open>client_sock\<close> is what \<open>accept\<close> returns, -1 included.\<close>

definition loop_step :: "int \<Rightarrow> 'h sockserver \<Rightarrow> 'h sockserver option" where
  "loop_step client_sock s =
     (case ss_pc s of
        LHead \<Rightarrow> Some (s\<lparr>ss_pc := if ss_stop s then LEnd else LAccept\<rparr>)
      | LAccept \<Rightarrow> Some (s\<lparr>ss_pc := LCheck client_sock\<rparr>)
      | LCheck c \<Rightarrow>
          Some (s\<lparr>ss_pc := if to_size (ss_pool_size s) \<le> word_of_nat (length (ss_conns s))
                          then LFront c else LLock c\<rparr>)
      | LFront c \<Rightarrow>
          (case ss_conns s of
             [] \<Rightarrow> Some (s\<lparr>ss_pc := LDead OutOfBounds\<rparr>)
           | oldconn # _ \<Rightarrow> Some (s\<lparr>ss_pc := LShutdown c oldconn\<rparr>))
      | LShutdown c oldconn \<Rightarrow> Some (s\<lparr>ss_pc := LPop c oldconn, ss_closed := ss_closed s @ [oldconn]\<rparr>)
      | LPop c oldconn \<Rightarrow>
          (case ss_conns s of
             [] \<Rightarrow> Some (s\<lparr>ss_pc := LDead OutOfBounds\<rparr>)
           | _ # rest \<Rightarrow> Some (s\<lparr>ss_pc := LDelete c oldconn, ss_conns := rest\<rparr>))
      | LDelete c oldconn \<Rightarrow> Some (s\<lparr>ss_pc := LLock c, ss_closed := ss_closed s @ [oldconn]\<rparr>)
      | LLock c \<Rightarrow> (if ss_mutex s then None else Some (s\<lparr>ss_pc := LPush c, ss_mutex := True\<rparr>))
      | LPush c \<Rightarrow> Some (s\<lparr>ss_pc := LStart c, ss_conns := ss_conns s @ [c], ss_mutex := False\<rparr>)
      | LStart c \<Rightarrow> Some (s\<lparr>ss_pc := LHead, ss_started := ss_started s @ [c]\<rparr>)
      | _ \<Rightarrow> None)"

text \<open>
  One step of \<open>stop\<close>; the destructor does the same and may follow, so a second round begins
  after the first.
\<close>

definition stop_step :: "'h sockserver \<Rightarrow> 'h sockserver option" where
  "stop_step s =
     (case ss_stopper s of
        PClosed \<Rightarrow> Some (s\<lparr>ss_stop := True, ss_stopper := PStopped\<rparr>)
      | PStopped \<Rightarrow> (if ss_pc s = LEnd \<or> ss_pc s = LIdle then Some (s\<lparr>ss_stopper := PJoined\<rparr>) else None)
      | PDead _ \<Rightarrow> None
      | _ \<Rightarrow> SockServer_close_connections s)"

inductive srv_step :: "'h sockserver \<Rightarrow> 'h sockserver \<Rightarrow> bool" where
  loop: "loop_step client_sock s = Some t \<Longrightarrow> \<forall>f. ss_stopper s \<noteq> PDead f \<Longrightarrow> srv_step s t"
| stop: "stop_step s = Some t \<Longrightarrow> \<forall>f. ss_pc s \<noteq> LDead f \<Longrightarrow> srv_step s t"

inductive_cases srv_stepE: "srv_step s t"

abbreviation srv_steps where "srv_steps \<equiv> srv_step\<^sup>*\<^sup>*"

text \<open>A server whose \<open>start\<close> has succeeded.\<close>

definition running :: "'h sockserver \<Rightarrow> bool" where
  "running s \<longleftrightarrow> ss_pool_size s = POOL_SIZE \<and> \<not> ss_stop s \<and> \<not> ss_mutex s \<and> ss_conns s = [] \<and> ss_pc s = LHead
     \<and> ss_stopper s = PIdle \<and> ss_started s = [] \<and> ss_closed s = []"

section \<open>Invariants\<close>

text \<open>
  What the place of the thread says of the pool: how many connections it holds once it has been
  full, the connection that is in it but not started, the one that is shut down but still in it,
  and the one that is out of it with its destructor still to run.
\<close>

definition kept :: "loop_pc \<Rightarrow> nat" where
  "kept pc = (case pc of LDelete c d \<Rightarrow> 15 | LLock c \<Rightarrow> 15 | LPush c \<Rightarrow> 15 | _ \<Rightarrow> 16)"

definition starting :: "loop_pc \<Rightarrow> int list" where
  "starting pc = (case pc of LStart c \<Rightarrow> [c] | _ \<Rightarrow> [])"

definition shut :: "loop_pc \<Rightarrow> int list" where
  "shut pc = (case pc of LPop c d \<Rightarrow> [d] | _ \<Rightarrow> [])"

definition owed :: "loop_pc \<Rightarrow> int list" where
  "owed pc = (case pc of LDelete c d \<Rightarrow> [d] | _ \<Rightarrow> [])"

definition twice :: "int list \<Rightarrow> int list" where
  "twice cs = concat (map (\<lambda>c. [c, c]) cs)"

lemma twice_snoc [simp]: "twice (cs @ [c]) = twice cs @ [c, c]"
  by (simp add: twice_def)

text \<open>The connections whose thread was started or is about to be, the oldest first.\<close>

definition made :: "'h sockserver \<Rightarrow> int list" where
  "made s = ss_started s @ starting (ss_pc s)"

text \<open>The elements that \<open>\_close_connections\<close> has passed.\<close>

definition passed :: "stop_pc \<Rightarrow> int list \<Rightarrow> int list" where
  "passed pc cs = (case pc of
       PClose r \<Rightarrow> take (length cs - r) cs
     | PNext r \<Rightarrow> take (Suc (length cs) - r) cs
     | _ \<Rightarrow> [])"

definition pushing :: "loop_pc \<Rightarrow> bool" where
  "pushing pc = (case pc of LPush c \<Rightarrow> True | _ \<Rightarrow> False)"

definition closing :: "stop_pc \<Rightarrow> bool" where
  "closing pc = (case pc of PClose r \<Rightarrow> True | PNext r \<Rightarrow> True | PDead f \<Rightarrow> True | _ \<Rightarrow> False)"

definition mutex_inv :: "'h sockserver \<Rightarrow> bool" where
  "mutex_inv s \<longleftrightarrow> (ss_mutex s \<longleftrightarrow> pushing (ss_pc s) \<or> closing (ss_stopper s))
     \<and> \<not> (pushing (ss_pc s) \<and> closing (ss_stopper s))"

definition front_inv :: "'h sockserver \<Rightarrow> bool" where
  "front_inv s \<longleftrightarrow> (case ss_pc s of
       LShutdown c d \<Rightarrow> d \<in> set (made s) \<and> (ss_conns s = [] \<or> hd (ss_conns s) = d)
     | LPop c d \<Rightarrow> d \<in> set (ss_closed s) \<and> (ss_conns s = [] \<or> hd (ss_conns s) = d)
     | LDelete c d \<Rightarrow> d \<in> set (ss_closed s)
     | _ \<Rightarrow> True)"

definition pool_inv :: "'h sockserver \<Rightarrow> bool" where
  "pool_inv s \<longleftrightarrow> ss_pool_size s = POOL_SIZE \<and> length (ss_conns s) \<le> kept (ss_pc s)
     \<and> set (made s) = set (ss_conns s) \<union> set (ss_closed s)
     \<and> set (passed (ss_stopper s) (ss_conns s)) \<subseteq> set (ss_closed s) \<and> front_inv s"

definition fifo_inv :: "'h sockserver \<Rightarrow> bool" where
  "fifo_inv s \<longleftrightarrow> (ss_stopper s = PIdle \<longrightarrow>
     (\<exists>old. made s = old @ ss_conns s \<and> ss_closed s @ owed (ss_pc s) = twice old @ shut (ss_pc s)
        \<and> (old \<noteq> [] \<longrightarrow> length (ss_conns s) = kept (ss_pc s)))
     \<and> (case ss_pc s of LFront c \<Rightarrow> length (ss_conns s) = 16
          | LShutdown c d \<Rightarrow> length (ss_conns s) = 16 \<and> hd (ss_conns s) = d
          | LPop c d \<Rightarrow> length (ss_conns s) = 16 \<and> hd (ss_conns s) = d
          | LDead f \<Rightarrow> False | _ \<Rightarrow> True))"

lemmas place_defs = kept_def starting_def shut_def owed_def made_def

lemma pool_full_iff:
  assumes "ss_pool_size s = POOL_SIZE" "n \<le> 16"
  shows "to_size (ss_pool_size s) \<le> word_of_nat n \<longleftrightarrow> n = 16"
proof -
  have "to_size POOL_SIZE = 16"
    by (simp add: POOL_SIZE_def)
  moreover have "unat (word_of_nat n :: size_t) = n"
    using assms(2) by (intro unat_word_of_nat64) simp
  ultimately show ?thesis
    using assms by (auto simp: word_le_nat_alt)
qed

lemma loop_mutex_inv: "loop_step c s = Some t \<Longrightarrow> mutex_inv s \<Longrightarrow> mutex_inv t"
  by (auto simp: loop_step_def mutex_inv_def pushing_def
      split: loop_pc.splits list.splits if_splits)

lemma stop_mutex_inv: "stop_step s = Some t \<Longrightarrow> mutex_inv s \<Longrightarrow> mutex_inv t"
  by (auto simp: stop_step_def SockServer_close_connections_def mutex_inv_def closing_def
      split: stop_pc.splits if_splits)

lemma passed_tl: "set (passed pc rest) \<subseteq> set (passed pc (d # rest))"
  by (auto simp: passed_def take_Cons' Suc_diff_le split: stop_pc.splits)

lemma passed_not_closing: "\<not> closing pc \<Longrightarrow> passed pc cs = []"
  by (simp add: passed_def closing_def split: stop_pc.splits)

lemma loop_pool_inv:
  assumes "loop_step c s = Some t" "mutex_inv s" "pool_inv s"
  shows "pool_inv t"
proof (cases "ss_pc s")
  case (LCheck d)
  then show ?thesis
    using assms pool_full_iff [of s "length (ss_conns s)"]
    by (auto simp: loop_step_def pool_inv_def front_inv_def place_defs)
next
  case (LFront d)
  then show ?thesis
    using assms by (auto simp: loop_step_def pool_inv_def front_inv_def place_defs split: list.splits)
next
  case (LPop d e)
  show ?thesis
  proof (cases "ss_conns s")
    case (Cons o' rest)
    then have "set (passed (ss_stopper s) rest) \<subseteq> set (ss_closed s)"
      using assms(3) passed_tl [of "ss_stopper s" rest o'] by (auto simp: pool_inv_def)
    then show ?thesis
      using Cons LPop assms
      by (auto simp: loop_step_def pool_inv_def front_inv_def place_defs)
  qed (use LPop assms in \<open>auto simp: loop_step_def pool_inv_def front_inv_def place_defs\<close>)
next
  case (LPush d)
  then have "\<not> closing (ss_stopper s)"
    using assms(2) by (simp add: mutex_inv_def pushing_def)
  then show ?thesis
    using LPush assms
    by (auto simp: loop_step_def pool_inv_def front_inv_def place_defs passed_not_closing)
qed (use assms in \<open>auto simp: loop_step_def pool_inv_def front_inv_def place_defs split: if_splits\<close>)

lemma pool_inv_stopI:
  assumes "pool_inv s" "ss_pool_size t = ss_pool_size s" "ss_pc t = ss_pc s"
    and "ss_started t = ss_started s" "ss_conns t = ss_conns s \<or> ss_conns t = []"
    and "set (ss_closed s) \<subseteq> set (ss_closed t)"
    and "set (ss_conns t) \<union> set (ss_closed t) = set (ss_conns s) \<union> set (ss_closed s)"
    and "set (passed (ss_stopper t) (ss_conns t)) \<subseteq> set (ss_closed t)"
  shows "pool_inv t"
proof -
  have made: "made t = made s"
    using assms(3,4) by (simp add: made_def)
  have "front_inv t"
    using assms(1,3,5,6) made by (cases "ss_pc s") (auto simp: pool_inv_def front_inv_def)
  moreover have "length (ss_conns t) \<le> length (ss_conns s)"
    using assms(5) by auto
  ultimately show ?thesis
    using assms(1-3,7,8) made by (simp add: pool_inv_def)
qed

lemma stop_outside:
  assumes "stop_step s = Some t" "\<not> closing (ss_stopper s)"
  obtains b m p where "t = s\<lparr>ss_stop := b, ss_mutex := m, ss_stopper := p\<rparr>" "passed p (ss_conns s) = []"
proof -
  have "t = s\<lparr>ss_stop := ss_stop t, ss_mutex := ss_mutex t, ss_stopper := ss_stopper t\<rparr>
      \<and> passed (ss_stopper t) (ss_conns s) = []"
    using assms
    by (cases "ss_stopper s") (auto simp: stop_step_def SockServer_close_connections_def closing_def
        passed_def split: if_splits)
  then show ?thesis
    using that by blast
qed

lemma stop_pool_inv:
  assumes "stop_step s = Some t" "pool_inv s"
  shows "pool_inv t"
proof (cases "ss_stopper s")
  case (PClose r)
  have passed: "set (passed (PClose r) (ss_conns s)) \<subseteq> set (ss_closed s)"
    using assms(2) PClose by (simp add: pool_inv_def)
  consider "r = 0" | "r \<noteq> 0" "length (ss_conns s) < r" | "r \<noteq> 0" "r \<le> length (ss_conns s)"
    by linarith
  then show ?thesis
  proof cases
    case 1
    then have "set (ss_conns s) \<subseteq> set (ss_closed s)"
      using passed by (simp add: passed_def)
    then show ?thesis
      using 1 PClose assms by (intro pool_inv_stopI [OF assms(2)])
        (auto simp: stop_step_def SockServer_close_connections_def passed_def)
  next
    case 2
    then show ?thesis
      using PClose assms by (intro pool_inv_stopI [OF assms(2)])
        (auto simp: stop_step_def SockServer_close_connections_def passed_def)
  next
    case 3
    define i where "i = length (ss_conns s) - r"
    have i: "i < length (ss_conns s)" "length (ss_conns s) - r = i" "Suc (length (ss_conns s)) - r = Suc i"
      using 3 by (auto simp: i_def)
    have t: "t = s\<lparr>ss_closed := ss_closed s @ [ss_conns s ! i], ss_stopper := PNext r\<rparr>"
      using PClose 3 i assms(1) by (simp add: stop_step_def SockServer_close_connections_def)
    have "passed (PNext r) (ss_conns s) = passed (PClose r) (ss_conns s) @ [ss_conns s ! i]"
      using i by (simp add: passed_def take_Suc_conv_app_nth)
    then show ?thesis
      using passed i(1) by (intro pool_inv_stopI [OF assms(2)]) (auto simp: t)
  qed
next
  case (PNext r)
  have "passed (PClose (r - 1)) (ss_conns s) = passed (PNext r) (ss_conns s)"
    by (cases r) (simp_all add: passed_def)
  then have "set (passed (PClose (r - 1)) (ss_conns s)) \<subseteq> set (ss_closed s)"
    using assms(2) PNext by (simp add: pool_inv_def)
  moreover have "t = s\<lparr>ss_stopper := PDead UseAfterFree\<rparr> \<or> t = s\<lparr>ss_stopper := PClose (r - 1)\<rparr>"
    using assms(1) PNext by (auto simp: stop_step_def SockServer_close_connections_def split: if_splits)
  moreover have "passed (PDead UseAfterFree) (ss_conns s) = []"
    by (simp add: passed_def)
  ultimately show ?thesis
    by (intro pool_inv_stopI [OF assms(2)]) auto
next
  case (PDead f)
  then show ?thesis
    using assms(1) by (simp add: stop_step_def)
qed (use assms in \<open>auto simp: closing_def elim!: stop_outside intro!: pool_inv_stopI [OF assms(2)]\<close>)

lemma loop_fifo_inv:
  assumes "loop_step c s = Some t" "pool_inv s" "fifo_inv s"
  shows "fifo_inv t"
proof (cases "ss_stopper s = PIdle")
  case idle: True
  then obtain old where old: "made s = old @ ss_conns s"
      "ss_closed s @ owed (ss_pc s) = twice old @ shut (ss_pc s)"
      "old \<noteq> [] \<Longrightarrow> length (ss_conns s) = kept (ss_pc s)"
    using assms(3) by (auto simp: fifo_inv_def)
  show ?thesis
  proof (cases "ss_pc s")
    case (LCheck d)
    then show ?thesis
      using assms(1,2) old idle pool_full_iff [of s "length (ss_conns s)"]
      by (auto simp: loop_step_def pool_inv_def fifo_inv_def place_defs)
  next
    case (LFront d)
    then show ?thesis
      using assms(1,3) old idle
      by (cases "ss_conns s") (auto simp: loop_step_def fifo_inv_def place_defs)
  next
    case (LPop d e)
    then obtain rest where "ss_conns s = e # rest" "length rest = 15"
      using assms(3) idle by (cases "ss_conns s") (auto simp: fifo_inv_def)
    then show ?thesis
      using LPop assms(1) old(1,2) idle
      by (auto simp: loop_step_def fifo_inv_def place_defs intro!: exI [of _ "old @ [e]"])
  qed (use assms(1,3) old idle in \<open>auto simp: loop_step_def fifo_inv_def place_defs split: if_splits\<close>)
next
  case False
  then show ?thesis
    using assms(1) by (auto simp: loop_step_def fifo_inv_def split: loop_pc.splits list.splits if_splits)
qed

lemma stop_fifo_inv: "stop_step s = Some t \<Longrightarrow> fifo_inv t"
  by (auto simp: stop_step_def SockServer_close_connections_def fifo_inv_def split: stop_pc.splits if_splits)

lemma server_invariant:
  assumes "running s0" "srv_steps s0 s"
  shows "mutex_inv s \<and> pool_inv s \<and> fifo_inv s"
  using assms(2)
proof (induction rule: rtranclp_induct)
  case base
  show ?case
    using assms(1)
    by (simp add: running_def mutex_inv_def pushing_def closing_def pool_inv_def fifo_inv_def
        front_inv_def passed_def place_defs twice_def)
next
  case (step s t)
  then show ?case
    using loop_mutex_inv stop_mutex_inv loop_pool_inv loop_fifo_inv stop_pool_inv stop_fifo_inv
    by (blast elim: srv_stepE)
qed

text \<open>Runs of one of the two threads.\<close>

fun loop_run :: "int list \<Rightarrow> 'h sockserver \<Rightarrow> 'h sockserver option" where
  "loop_run [] s = Some s"
| "loop_run (c # cs) s = Option.bind (loop_step c s) (loop_run cs)"

lemma loop_step_stopper: "loop_step c s = Some t \<Longrightarrow> ss_stopper t = ss_stopper s"
  by (auto simp: loop_step_def split: loop_pc.splits list.splits if_splits)

lemma loop_run_steps:
  "loop_run cs s = Some t \<Longrightarrow> \<forall>f. ss_stopper s \<noteq> PDead f \<Longrightarrow> srv_steps s t"
proof (induction cs arbitrary: s)
  case (Cons c cs)
  then obtain u where "loop_step c s = Some u" "loop_run cs u = Some t"
    by (auto simp: Option.bind_eq_Some_conv)
  then show ?case
    using Cons.IH Cons.prems(2) loop_step_stopper
    by (metis srv_step.loop converse_rtranclp_into_rtranclp)
qed simp

lemma stop_closes:
  assumes "ss_stopper s = PClose r" "r \<le> length (ss_conns s)" "\<forall>f. ss_pc s \<noteq> LDead f"
  shows "srv_steps s (s\<lparr>ss_closed := ss_closed s @ drop (length (ss_conns s) - r) (ss_conns s),
      ss_conns := [], ss_mutex := False, ss_stopper := PClosed\<rparr>)"
  using assms
proof (induction r arbitrary: s)
  case 0
  have "stop_step s = Some (s\<lparr>ss_conns := [], ss_mutex := False, ss_stopper := PClosed\<rparr>)"
    using 0 by (simp add: stop_step_def SockServer_close_connections_def)
  then show ?case
    using 0 by (auto dest!: srv_step.stop)
next
  case (Suc r)
  define i where "i = length (ss_conns s) - Suc r"
  have i: "i < length (ss_conns s)" "length (ss_conns s) - r = Suc i"
    using Suc.prems(2) by (auto simp: i_def)
  let ?s = "s\<lparr>ss_closed := ss_closed s @ [ss_conns s ! i], ss_stopper := PNext (Suc r)\<rparr>"
  have "srv_step s ?s" "srv_step ?s (?s\<lparr>ss_stopper := PClose r\<rparr>)"
    using Suc.prems by (auto intro!: srv_step.stop simp: stop_step_def SockServer_close_connections_def i_def)
  moreover have "srv_steps (?s\<lparr>ss_stopper := PClose r\<rparr>) (s\<lparr>ss_closed := ss_closed s @ drop i (ss_conns s),
      ss_conns := [], ss_mutex := False, ss_stopper := PClosed\<rparr>)"
    using Suc.IH [of "?s\<lparr>ss_stopper := PClose r\<rparr>"] Suc.prems i by (simp add: Cons_nth_drop_Suc)
  ultimately show ?case
    unfolding i_def by (meson converse_rtranclp_into_rtranclp)
qed

lemma stop_empties_pool:
  assumes "ss_stopper s = PIdle" "\<not> ss_mutex s" "\<forall>f. ss_pc s \<noteq> LDead f"
  shows "srv_steps s (s\<lparr>ss_closed := ss_closed s @ ss_conns s, ss_conns := [], ss_mutex := False,
      ss_stopper := PClosed\<rparr>)"
proof -
  let ?s = "s\<lparr>ss_mutex := True, ss_stopper := PClose (length (ss_conns s))\<rparr>"
  have "srv_step s ?s"
    using assms by (intro srv_step.stop) (simp_all add: stop_step_def SockServer_close_connections_def)
  moreover have "srv_steps ?s (s\<lparr>ss_closed := ss_closed s @ ss_conns s, ss_conns := [], ss_mutex := False,
      ss_stopper := PClosed\<rparr>)"
    using stop_closes [of ?s "length (ss_conns s)"] assms(3) by simp
  ultimately show ?thesis
    by (rule converse_rtranclp_into_rtranclp)
qed

section \<open>Properties\<close>

text \<open>
  A first \<open>start\<close> returns just when \<open>socket\<close>, \<open>bind\<close> and \<open>listen\<close> all succeed, in this
  order and with SO_REUSEADDR set before \<open>bind\<close>; otherwise it throws the exception that
  names the call that failed, makes no later call and does not start the thread.
\<close>
theorem start_binds_then_listens:
  assumes "sc_sock srv = UNINIT_SOCKET"
  shows "SockServer_start (s, b, l) srv =
     (if s = UNINIT_SOCKET then (Throws (SocketFailException ''socket''), srv, [LSocket])
      else if b \<noteq> 0 then (Throws (SocketFailException ''bind''), srv\<lparr>sc_sock := s\<rparr>,
             [LSocket, LSetsockopt s, LBind s])
      else if l \<noteq> 0 then (Throws (SocketFailException ''listen''), srv\<lparr>sc_sock := s\<rparr>,
             [LSocket, LSetsockopt s, LBind s, LListen s 100])
      else (Returns 0, srv\<lparr>sc_sock := s, ss_pc := LHead\<rparr>,
            [LSocket, LSetsockopt s, LBind s, LListen s 100]))"
proof -
  have same: "srv\<lparr>sc_sock := UNINIT_SOCKET\<rparr> = srv"
    using assms by simp
  show ?thesis
    by (simp add: SockServer_start_def ServerConnector_listen_def Let_def assms same MAX_QUEUE_SIZE_def)
qed

definition new_server :: "unit sockserver" where
  "new_server = \<lparr>sc_handler = Some (), sc_sock = UNINIT_SOCKET, ss_pool_size = POOL_SIZE,
     ss_stop = False, ss_mutex = False, ss_conns = [], ss_pc = LIdle, ss_stopper = PIdle, ss_started = [], ss_closed = []\<rparr>"

theorem start_binds_then_listens_witness:
  "SockServer_start (3, -1, 0) new_server =
     (Throws (SocketFailException ''bind''), new_server\<lparr>sc_sock := 3\<rparr>, [LSocket, LSetsockopt 3, LBind 3])"
  using start_binds_then_listens [of new_server 3 "-1" 0] by (simp add: new_server_def UNINIT_SOCKET_def)

text \<open>
  A retry after a failed \<open>bind\<close> is a false success: \<open>_sock\<close> still holds the descriptor,
  so \<open>_listen\<close> makes no call and returns -1, \<open>start\<close> drops that result, starts the
  thread and returns 0, although the descriptor was never made to listen.
\<close>
theorem retried_start_does_not_listen:
  assumes "sc_sock srv = UNINIT_SOCKET" "s \<noteq> UNINIT_SOCKET" "b \<noteq> 0" "ss_pc srv = LIdle"
  shows "\<exists>srv' log. SockServer_start (s, b, l) srv = (Throws (SocketFailException ''bind''), srv', log)
     \<and> list_all (\<lambda>e. e \<noteq> LListen s MAX_QUEUE_SIZE) log \<and> ss_pc srv' = LIdle \<and> sc_sock srv' = s
     \<and> SockServer_start k srv' = (Returns 0, srv'\<lparr>ss_pc := LHead\<rparr>, [])"
  using assms
  by (cases k) (auto simp: SockServer_start_def ServerConnector_listen_def Let_def)

theorem retried_start_does_not_listen_witness:
  "\<exists>srv' log. SockServer_start (3, -1, 0) new_server = (Throws (SocketFailException ''bind''), srv', log)
     \<and> SockServer_start (4, 0, 0) srv' = (Returns 0, srv'\<lparr>ss_pc := LHead\<rparr>, []) \<and> sc_sock srv' = 3"
  using retried_start_does_not_listen [of new_server 3 "-1" 0 "(4, 0, 0)"]
  by (auto simp: new_server_def UNINIT_SOCKET_def)

text \<open>
  (C18) The pool keeps the newest connections: it never holds more than 16, and every connection
  that was made is in the pool or has been closed. Until \<open>stop\<close> runs they are the last 16 made,
  in the order of their arrival (15 from the removal of the oldest to the entry of the new
  one); the older ones were closed in that order, each of them twice, but for the one whose
  eviction is under way, and the thread meets no fault.
\<close>
theorem pool_keeps_newest:
  assumes "running s0" "srv_steps s0 s"
  shows "length (ss_conns s) \<le> 16 \<and> set (made s) = set (ss_conns s) \<union> set (ss_closed s)
    \<and> (ss_stopper s = PIdle \<longrightarrow>
        ss_conns s = drop (length (made s) - kept (ss_pc s)) (made s)
        \<and> ss_closed s @ owed (ss_pc s)
            = twice (take (length (made s) - kept (ss_pc s)) (made s)) @ shut (ss_pc s)
        \<and> (\<forall>f. ss_pc s \<noteq> LDead f))"
proof -
  have pool: "pool_inv s" and fifo: "fifo_inv s"
    using server_invariant [OF assms] by auto
  have "kept (ss_pc s) \<le> 16"
    by (simp add: kept_def split: loop_pc.split)
  moreover have "ss_conns s = drop (length (made s) - kept (ss_pc s)) (made s)
        \<and> ss_closed s @ owed (ss_pc s)
            = twice (take (length (made s) - kept (ss_pc s)) (made s)) @ shut (ss_pc s)
        \<and> (\<forall>f. ss_pc s \<noteq> LDead f)"
    if idle: "ss_stopper s = PIdle"
  proof -
    obtain old where old: "made s = old @ ss_conns s"
        "ss_closed s @ owed (ss_pc s) = twice old @ shut (ss_pc s)"
        "old \<noteq> [] \<Longrightarrow> length (ss_conns s) = kept (ss_pc s)"
      using fifo idle by (auto simp: fifo_inv_def)
    have "length (made s) - kept (ss_pc s) = length old"
      using old(1,3) pool by (cases "old = []") (auto simp: pool_inv_def)
    moreover have "\<forall>f. ss_pc s \<noteq> LDead f"
      using fifo idle by (auto simp: fifo_inv_def)
    ultimately show ?thesis
      using old(1,2) by simp
  qed
  ultimately show ?thesis
    using pool by (auto simp: pool_inv_def)
qed

lemma seventeen_accepts:
  "loop_run (concat (map (\<lambda>c. [0, c, 0, 0, 0, 0]) [1, 2, 3, 4, 5, 6, 7, 8, 9, 10, 11, 12, 13, 14, 15, 16])
      @ [0, 17, 0, 0, 0, 0, 0, 0, 0, 0]) (new_server\<lparr>ss_pc := LHead\<rparr>)
   = Some (new_server\<lparr>ss_pc := LHead, ss_conns := [2, 3, 4, 5, 6, 7, 8, 9, 10, 11, 12, 13, 14, 15, 16, 17],
      ss_started := [1, 2, 3, 4, 5, 6, 7, 8, 9, 10, 11, 12, 13, 14, 15, 16, 17], ss_closed := [1, 1]\<rparr>)"
  by (simp add: loop_step_def new_server_def POOL_SIZE_def word_le_nat_alt)

theorem pool_keeps_newest_witness:
  "\<exists>s. srv_steps (new_server\<lparr>ss_pc := LHead\<rparr>) s \<and> length (ss_started s) = 17
    \<and> ss_conns s = drop 1 (made s) \<and> ss_closed s = twice (take 1 (made s))"
proof -
  let ?s = "new_server\<lparr>ss_pc := LHead, ss_conns := [2, 3, 4, 5, 6, 7, 8, 9, 10, 11, 12, 13, 14, 15, 16, 17],
      ss_started := [1, 2, 3, 4, 5, 6, 7, 8, 9, 10, 11, 12, 13, 14, 15, 16, 17], ss_closed := [1, 1]\<rparr>"
  have steps: "srv_steps (new_server\<lparr>ss_pc := LHead\<rparr>) ?s"
    by (rule loop_run_steps [OF seventeen_accepts]) (simp add: new_server_def)
  moreover have "length (made ?s) - kept (ss_pc ?s) = 1" "owed (ss_pc ?s) = []" "shut (ss_pc ?s) = []"
    by (simp_all add: place_defs)
  moreover have "ss_stopper ?s = PIdle"
    by (simp add: new_server_def)
  moreover have "running (new_server\<lparr>ss_pc := LHead\<rparr>)"
    by (simp add: running_def new_server_def)
  ultimately show ?thesis
    using pool_keeps_newest [OF _ steps] by (intro exI [of _ ?s]) simp
qed

section \<open>How stop ends\<close>

text \<open>The part of \<open>loop\<close> from \<open>accept\<close> to the end of its body.\<close>

definition in_body :: "loop_pc \<Rightarrow> bool" where
  "in_body pc = (case pc of LIdle \<Rightarrow> False | LHead \<Rightarrow> False | LEnd \<Rightarrow> False | _ \<Rightarrow> True)"

lemma loop_step_body:
  assumes "loop_step c s = Some t"
  shows "ss_stopper t = ss_stopper s \<and> length (ss_started s) \<le> length (ss_started t)
    \<and> (in_body (ss_pc s) \<longrightarrow> in_body (ss_pc t) \<and> ss_started t = ss_started s
         \<or> length (ss_started s) < length (ss_started t))"
  using assms
  by (cases "ss_pc s") (auto simp: loop_step_def in_body_def split: if_splits list.splits)

lemma stop_step_body:
  assumes "stop_step s = Some t"
  shows "ss_started t = ss_started s \<and> ss_pc t = ss_pc s \<and> (ss_stopper t = PJoined \<longrightarrow> \<not> in_body (ss_pc s))"
  using assms
  by (cases "ss_stopper s")
     (auto simp: stop_step_def in_body_def SockServer_close_connections_def split: if_splits)

lemma body_until_accept:
  assumes "ss_pc s = LAccept" "ss_stopper s = PIdle" "srv_steps s t"
  shows "(in_body (ss_pc t) \<and> ss_started t = ss_started s \<or> length (ss_started s) < length (ss_started t))
    \<and> (ss_stopper t = PJoined \<longrightarrow> length (ss_started s) < length (ss_started t))"
  using assms(3)
proof (induction rule: rtranclp_induct)
  case base
  show ?case using assms(1,2) by (simp add: in_body_def)
next
  case (step t u)
  from step.hyps(2) show ?case
    using step.IH by (auto elim!: srv_stepE dest!: loop_step_body stop_step_body)
qed

text \<open>
  \<open>stop\<close> waits for one more client: while the server's thread is blocked in \<open>accept\<close>,
  \<open>stop\<close> cannot return before another connection has been accepted and started; and that
  connection may be left in the pool, open, when \<open>stop\<close> returns.
\<close>
theorem stop_needs_one_more_client:
  assumes "ss_pc s = LAccept" "ss_stopper s = PIdle" "ss_pool_size s = POOL_SIZE" "\<not> ss_mutex s"
  shows "(srv_steps s t \<and> ss_stopper t = PJoined \<longrightarrow> length (ss_started s) < length (ss_started t))
    \<and> (\<exists>u. srv_steps s u \<and> ss_stopper u = PJoined \<and> ss_pc u = LEnd
         \<and> ss_started u = ss_started s @ [c] \<and> ss_conns u = [c] \<and> ss_closed u = ss_closed s @ ss_conns s)"
proof
  show "srv_steps s t \<and> ss_stopper t = PJoined \<longrightarrow> length (ss_started s) < length (ss_started t)"
    using body_until_accept [OF assms(1,2)] by blast
  let ?p = "s\<lparr>ss_closed := ss_closed s @ ss_conns s, ss_conns := [], ss_mutex := False, ss_stopper := PClosed\<rparr>"
  let ?q = "?p\<lparr>ss_stop := True, ss_stopper := PStopped\<rparr>"
  let ?r = "?q\<lparr>ss_pc := LEnd, ss_conns := [c], ss_started := ss_started s @ [c]\<rparr>"
  have "srv_steps s ?p"
    by (rule stop_empties_pool) (simp_all add: assms)
  moreover have "srv_step ?p ?q"
    by (rule srv_step.stop) (simp_all add: stop_step_def assms)
  moreover have "srv_steps ?q ?r"
    by (rule loop_run_steps [of "[c, 0, 0, 0, 0, 0]"])
       (use assms pool_full_iff [of s 0] in \<open>simp_all add: loop_step_def\<close>)
  moreover have "srv_step ?r (?r\<lparr>ss_stopper := PJoined\<rparr>)"
    by (rule srv_step.stop) (simp_all add: stop_step_def)
  ultimately have "srv_steps s (?r\<lparr>ss_stopper := PJoined\<rparr>)"
    by (meson rtranclp_trans converse_rtranclp_into_rtranclp rtranclp.rtrancl_into_rtrancl)
  then show "\<exists>u. srv_steps s u \<and> ss_stopper u = PJoined \<and> ss_pc u = LEnd
         \<and> ss_started u = ss_started s @ [c] \<and> ss_conns u = [c] \<and> ss_closed u = ss_closed s @ ss_conns s"
    by (intro exI [of _ "?r\<lparr>ss_stopper := PJoined\<rparr>"]) simp
qed

theorem stop_needs_one_more_client_witness:
  "\<exists>u. srv_steps (new_server\<lparr>ss_pc := LAccept, ss_conns := [4], ss_started := [4]\<rparr>) u
     \<and> ss_stopper u = PJoined \<and> ss_started u = [4, 5] \<and> ss_conns u = [5] \<and> ss_closed u = [4]"
  using stop_needs_one_more_client [of "new_server\<lparr>ss_pc := LAccept, ss_conns := [4], ss_started := [4]\<rparr>" _ 5]
  by (auto simp: new_server_def)

text \<open>The pool in the second round, which finds the thread ended.\<close>

definition ended_inv :: "'h sockserver \<Rightarrow> bool" where
  "ended_inv s \<longleftrightarrow> ss_pc s = LEnd \<and> (case ss_stopper s of
       PClose r \<Rightarrow> r \<le> length (ss_conns s)
     | PNext r \<Rightarrow> 0 < r \<and> r \<le> length (ss_conns s)
     | PIdle \<Rightarrow> False | PDead f \<Rightarrow> False
     | _ \<Rightarrow> ss_conns s = [])"

lemma ended_step:
  assumes "srv_step s t" "ended_inv s \<or> ss_stopper s = PJoined \<and> ss_pc s = LEnd"
  shows "ended_inv t"
  using assms
  by (auto elim!: srv_stepE simp: ended_inv_def loop_step_def stop_step_def
      SockServer_close_connections_def split: stop_pc.splits if_splits)

lemma ended_steps:
  assumes "srv_step\<^sup>+\<^sup>+ s t" "ss_stopper s = PJoined" "ss_pc s = LEnd"
  shows "ended_inv t"
  using assms by (induction rule: tranclp_induct) (blast intro: ended_step)+

lemma joined_ended:
  assumes "srv_steps s0 s" "running s0"
  shows "ss_pc s \<noteq> LIdle \<and> (ss_stopper s = PJoined \<longrightarrow> ss_pc s = LEnd)"
  using assms(1)
proof (induction rule: rtranclp_induct)
  case base
  show ?case using assms(2) by (simp add: running_def)
next
  case (step s t)
  then show ?case
    by (auto elim!: srv_stepE simp: loop_step_def stop_step_def SockServer_close_connections_def
        split: loop_pc.splits stop_pc.splits list.splits if_splits)
qed

text \<open>
  The destructor closes what \<open>stop\<close> has left: when \<open>stop\<close> has joined the thread, the second round of
  the same statements, in the destructor, meets no fault, and once it is over the pool is empty
  and the connections that were closed are just those that were ever started.
\<close>
theorem destructor_closes_rest:
  assumes "running s0" "srv_steps s0 s" "ss_stopper s = PJoined" "srv_step\<^sup>+\<^sup>+ s t"
  shows "(\<forall>f. ss_stopper t \<noteq> PDead f \<and> ss_pc t \<noteq> LDead f)
    \<and> (ss_stopper t = PJoined \<longrightarrow> ss_conns t = [] \<and> set (ss_started t) = set (ss_closed t))"
proof -
  have "srv_steps s0 t"
    using assms(2,4) by (meson rtranclp_trans tranclp_into_rtranclp)
  then have pool: "pool_inv t"
    using server_invariant [OF assms(1)] by blast
  have ended: "ended_inv t"
    using assms(3,4) joined_ended [OF assms(2,1)] by (blast intro: ended_steps)
  then have "\<forall>f. ss_stopper t \<noteq> PDead f \<and> ss_pc t \<noteq> LDead f"
    by (auto simp: ended_inv_def split: stop_pc.splits)
  then show ?thesis
    using ended pool by (auto simp: ended_inv_def pool_inv_def place_defs)
qed

theorem destructor_closes_rest_witness:
  "\<exists>s t. srv_steps (new_server\<lparr>ss_pc := LHead\<rparr>) s \<and> ss_conns s = [5] \<and> srv_step\<^sup>+\<^sup>+ s t
     \<and> ss_stopper t = PJoined \<and> ss_conns t = [] \<and> set (ss_closed t) = {5}"
proof -
  let ?a = "new_server\<lparr>ss_pc := LAccept\<rparr>"
  let ?q = "?a\<lparr>ss_stop := True, ss_stopper := PStopped\<rparr>"
  let ?r = "?q\<lparr>ss_pc := LEnd, ss_conns := [5], ss_started := [5]\<rparr>"
  let ?s = "?r\<lparr>ss_stopper := PJoined\<rparr>"
  let ?t = "?s\<lparr>ss_conns := [], ss_closed := [5]\<rparr>"
  have "srv_steps (new_server\<lparr>ss_pc := LHead\<rparr>) ?a"
    by (rule loop_run_steps [of "[0]"]) (simp_all add: loop_step_def new_server_def)
  moreover have "srv_steps ?a (?a\<lparr>ss_stopper := PClosed\<rparr>)"
    using stop_empties_pool [of ?a] by (simp add: new_server_def)
  moreover have "srv_step (?a\<lparr>ss_stopper := PClosed\<rparr>) ?q"
    by (rule srv_step.stop) (simp_all add: stop_step_def)
  moreover have "srv_steps ?q ?r"
    by (rule loop_run_steps [of "[5, 0, 0, 0, 0, 0]"])
       (use pool_full_iff [of ?q 0] in \<open>simp_all add: loop_step_def new_server_def\<close>)
  moreover have "srv_step ?r ?s"
    by (rule srv_step.stop) (simp_all add: stop_step_def)
  ultimately have s: "srv_steps (new_server\<lparr>ss_pc := LHead\<rparr>) ?s"
    by (meson rtranclp_trans r_into_rtranclp)
  have lock: "srv_step ?s (?s\<lparr>ss_mutex := True, ss_stopper := PClose 1\<rparr>)"
    by (rule srv_step.stop) (simp_all add: stop_step_def SockServer_close_connections_def new_server_def)
  have "srv_steps (?s\<lparr>ss_mutex := True, ss_stopper := PClose 1\<rparr>) (?t\<lparr>ss_stopper := PClosed\<rparr>)"
    using stop_closes [of "?s\<lparr>ss_mutex := True, ss_stopper := PClose 1\<rparr>" 1] by (simp add: new_server_def)
  moreover have "srv_step (?t\<lparr>ss_stopper := PClosed\<rparr>) (?t\<lparr>ss_stopper := PStopped\<rparr>)"
    by (rule srv_step.stop) (simp_all add: stop_step_def new_server_def)
  moreover have "srv_step (?t\<lparr>ss_stopper := PStopped\<rparr>) ?t"
    by (rule srv_step.stop) (simp_all add: stop_step_def)
  ultimately have t: "srv_step\<^sup>+\<^sup>+ ?s ?t"
    using lock by (meson rtranclp_trans r_into_rtranclp rtranclp_into_tranclp2)
  have "ss_conns ?t = [] \<and> set (ss_started ?t) = set (ss_closed ?t)"
    using destructor_closes_rest [OF _ s _ t] by (simp add: running_def new_server_def)
  then show ?thesis
    using s t by (intro exI [of _ ?s] exI [of _ ?t]) simp
qed

lemma front_race:
  assumes "ss_pc s = LFront c" "ss_stopper s = PIdle" "\<not> ss_mutex s"
  shows "\<exists>u. srv_steps s u \<and> ss_pc u = LDead OutOfBounds \<and> (\<forall>v. \<not> srv_step u v)"
proof -
  let ?p = "s\<lparr>ss_closed := ss_closed s @ ss_conns s, ss_conns := [], ss_mutex := False, ss_stopper := PClosed\<rparr>"
  let ?u = "?p\<lparr>ss_pc := LDead OutOfBounds\<rparr>"
  have "srv_steps s ?p"
    using assms by (intro stop_empties_pool) simp_all
  also have "srv_step ?p ?u"
    by (rule srv_step.loop [of 0]) (simp_all add: loop_step_def assms(1))
  finally have "srv_steps s ?u" .
  moreover have "\<not> srv_step ?u v" for v
    by (auto elim!: srv_stepE simp: loop_step_def)
  ultimately show ?thesis
    by (intro exI [of _ ?u]) simp
qed

lemma iterator_race:
  assumes "ss_pc s = LFront c" "ss_stopper s = PIdle" "\<not> ss_mutex s" "ss_conns s = d # rest"
  shows "\<exists>w. srv_steps s w \<and> ss_stopper w = PDead UseAfterFree \<and> (\<forall>v. \<not> srv_step w v)"
proof -
  let ?a = "s\<lparr>ss_pc := LPop c d, ss_closed := ss_closed s @ [d]\<rparr>"
  let ?b = "?a\<lparr>ss_mutex := True, ss_stopper := PClose (Suc (length rest))\<rparr>"
  let ?c = "?b\<lparr>ss_pc := LDelete c d, ss_conns := rest\<rparr>"
  let ?w = "?c\<lparr>ss_stopper := PDead UseAfterFree\<rparr>"
  have "srv_steps s ?a"
    by (rule loop_run_steps [of "[0, 0]"]) (simp_all add: loop_step_def assms)
  also have "srv_step ?a ?b"
    using assms by (intro srv_step.stop) (simp_all add: stop_step_def SockServer_close_connections_def)
  also have "srv_step ?b ?c"
    by (rule srv_step.loop [of 0]) (simp_all add: loop_step_def assms(4))
  also have "srv_step ?c ?w"
    by (intro srv_step.stop) (simp_all add: stop_step_def SockServer_close_connections_def)
  finally have "srv_steps s ?w" .
  moreover have "\<not> srv_step ?w v" for v
    by (auto elim!: srv_stepE simp: stop_step_def)
  ultimately show ?thesis
    by (intro exI [of _ ?w]) simp
qed

text \<open>
  The pool is read outside its mutex. If \<open>stop\<close> empties it between the test of its size and
  \<open>front ()\<close>, the thread takes the first element of an empty list; if the thread pops the oldest
  connection while \<open>stop\<close> is at that element, the iterator of \<open>stop\<close> is used after its element was freed.
\<close>
theorem stop_races_with_eviction:
  assumes "running s0" "srv_steps s0 s" "ss_pc s = LFront c" "ss_stopper s = PIdle"
  shows "length (ss_conns s) = 16
    \<and> (\<exists>u. srv_steps s0 u \<and> ss_pc u = LDead OutOfBounds \<and> (\<forall>v. \<not> srv_step u v))
    \<and> (\<exists>u. srv_steps s0 u \<and> ss_stopper u = PDead UseAfterFree \<and> (\<forall>v. \<not> srv_step u v))"
proof -
  have full: "length (ss_conns s) = 16" and free: "\<not> ss_mutex s"
    using server_invariant [OF assms(1,2)] assms(3,4)
    by (auto simp: fifo_inv_def mutex_inv_def pushing_def closing_def)
  then obtain d rest where "ss_conns s = d # rest"
    by (cases "ss_conns s") auto
  then show ?thesis
    using full front_race [OF assms(3,4) free] iterator_race [OF assms(3,4) free] assms(2)
    by (blast intro: rtranclp_trans)
qed

theorem stop_races_with_eviction_witness:
  "\<exists>u w. srv_steps (new_server\<lparr>ss_pc := LHead\<rparr>) u \<and> ss_pc u = LDead OutOfBounds
     \<and> srv_steps (new_server\<lparr>ss_pc := LHead\<rparr>) w \<and> ss_stopper w = PDead UseAfterFree"
proof -
  let ?c = "[1, 2, 3, 4, 5, 6, 7, 8, 9, 10, 11, 12, 13, 14, 15, 16] :: int list"
  let ?s = "new_server\<lparr>ss_pc := LFront 17, ss_conns := ?c, ss_started := ?c\<rparr>"
  have "loop_run (concat (map (\<lambda>c. [0, c, 0, 0, 0, 0]) ?c) @ [0, 17, 0]) (new_server\<lparr>ss_pc := LHead\<rparr>) = Some ?s"
    by (simp add: loop_step_def new_server_def POOL_SIZE_def word_le_nat_alt)
  then have "srv_steps (new_server\<lparr>ss_pc := LHead\<rparr>) ?s"
    by (rule loop_run_steps) (simp add: new_server_def)
  moreover have "running (new_server\<lparr>ss_pc := LHead\<rparr>)"
    by (simp add: running_def new_server_def)
  ultimately show ?thesis
    using stop_races_with_eviction [of "new_server\<lparr>ss_pc := LHead\<rparr>" ?s 17] by (auto simp: new_server_def)
qed

end
