(* ===== verification/SockSystem.thy ===== *)
theory SockSystem
  imports SockServer
begin

text \<open>
  sockserver.hpp and sockserver.cpp, the whole server until \<open>stop\<close>: the accept loop of \<open>SockServer\<close>
  together with the connections of \<open>Connection\<close>. The objects made by \<open>new Connection\<close> stand in a
  list, and the pool holds their indices, as it holds pointers in the code. A call of
  \<open>shutdown\<close>, by the loop or by the destructor, is run through to its return by the steps of
  \<open>evictor_step\<close>, and the threads of all connections step in between, on one service.
\<close>

record ('h, 'v, 'j) system =
  sy_srv :: "'h sockserver"
  sy_conns :: "('v, 'j) conn list"
  sy_service :: 'v

definition new_system :: "'h sockserver \<Rightarrow> 'v \<Rightarrow> ('h, 'v, 'j) system" where
  "new_system v sv = \<lparr>sy_srv = v, sy_conns = [], sy_service = sv\<rparr>"

text \<open>The connection whose \<open>shutdown\<close> the loop is in, and the calls left when it returns.\<close>

definition shutting :: "loop_pc \<Rightarrow> (nat \<times> nat) option" where
  "shutting pc = (case pc of
       LShutdown c d \<Rightarrow> Some (nat d, 1)
     | LDelete c d \<Rightarrow> Some (nat d, 0)
     | _ \<Rightarrow> None)"

text \<open>What happens next: a step of the loop, of a thread of a connection, or of the kernel.\<close>

datatype action =
    Accept int                         \<comment> \<open>\<open>accept\<close> returns this descriptor\<close>
  | Loop
  | Call                               \<comment> \<open>one step inside \<open>shutdown\<close>\<close>
  | Return
  | Work nat
  | Deliver nat "rres list" "int list"

definition sys_do ::
  "'j jconer \<Rightarrow> ('v \<times> 'j request \<Rightarrow> (exn, int) outcome \<times> 'v \<times> 'j request) \<Rightarrow> (nat \<Rightarrow> char) \<Rightarrow>
   action \<Rightarrow> ('h, 'v, 'j) system \<Rightarrow> ('h, 'v, 'j) system option" where
  "sys_do J serve junk a s =
     (let v = sy_srv s; cs = sy_conns s in
      if list_ex (\<lambda>c. is_dead (cn_pc c)) cs then None
      else
        (case a of
           Accept sock \<Rightarrow>
             (if ss_pc v = LAccept
              then map_option (\<lambda>v'. s\<lparr>sy_srv := v', sy_conns := cs @ [Connection sock (sy_service s) 2]\<rparr>)
                     (loop_step (int (length cs)) v)
              else None)
         | Loop \<Rightarrow>
             (if ss_pc v = LAccept \<or> shutting (ss_pc v) \<noteq> None then None
              else map_option (\<lambda>v'. s\<lparr>sy_srv := v'\<rparr>) (loop_step 0 v))
         | Call \<Rightarrow>
             (case shutting (ss_pc v) of
                Some (d, k) \<Rightarrow>
                  (if cn_ev (cs ! d) = ECall k then None
                   else map_option (\<lambda>c. s\<lparr>sy_conns := cs[d := c]\<rparr>) (evictor_step (cs ! d)))
              | None \<Rightarrow> None)
         | Return \<Rightarrow>
             (case shutting (ss_pc v) of
                Some (d, k) \<Rightarrow>
                  (if cn_ev (cs ! d) = ECall k then map_option (\<lambda>v'. s\<lparr>sy_srv := v'\<rparr>) (loop_step 0 v)
                   else None)
              | None \<Rightarrow> None)
         | Work i \<Rightarrow>
             (if i < length cs \<and> int i \<in> set (ss_started v)
              then map_option (\<lambda>c. s\<lparr>sy_conns := cs[i := c], sy_service := cn_service c\<rparr>)
                     (worker_step J serve junk ((cs ! i)\<lparr>cn_service := sy_service s\<rparr>))
              else None)
         | Deliver i rs ws \<Rightarrow>
             (if i < length cs then Some (s\<lparr>sy_conns := cs[i := deliver rs ws (cs ! i)]\<rparr>) else None)))"

fun sys_run ::
  "'j jconer \<Rightarrow> ('v \<times> 'j request \<Rightarrow> (exn, int) outcome \<times> 'v \<times> 'j request) \<Rightarrow> (nat \<Rightarrow> char) \<Rightarrow>
   action list \<Rightarrow> ('h, 'v, 'j) system \<Rightarrow> ('h, 'v, 'j) system option" where
  "sys_run J serve junk [] s = Some s"
| "sys_run J serve junk (a # as) s = Option.bind (sys_do J serve junk a s) (sys_run J serve junk as)"

lemma update_nth: "j < length xs \<Longrightarrow> xs[i := x] ! j = (if i = j then x else xs ! j)"
  by (auto simp: nth_list_update)

lemma sys_run_append:
  "sys_run J serve junk (as @ bs) s = Option.bind (sys_run J serve junk as s) (sys_run J serve junk bs)"
  by (induction as arbitrary: s) (auto simp: Option.bind_assoc intro!: bind_option_cong)

lemma sys_run_then:
  "sys_run J serve junk as s = Some t \<Longrightarrow> sys_run J serve junk bs t = Some u \<Longrightarrow>
    sys_run J serve junk (as @ bs) s = Some u"
  by (simp add: sys_run_append)

lemma sys_run_induct [consumes 1, case_names base step]:
  assumes "sys_run J serve junk as s = Some t" "P s"
    and "\<And>a s t. sys_do J serve junk a s = Some t \<Longrightarrow> P s \<Longrightarrow> P t"
  shows "P t"
  using assms(1,2)
  by (induction as arbitrary: s) (auto simp: Option.bind_eq_Some_conv intro: assms(3))

section \<open>The invariant\<close>

text \<open>The connection that is accepted and not yet in the pool.\<close>

definition pending :: "loop_pc \<Rightarrow> int list" where
  "pending pc = (case pc of
       LCheck c \<Rightarrow> [c] | LFront c \<Rightarrow> [c] | LShutdown c d \<Rightarrow> [c] | LPop c d \<Rightarrow> [c]
     | LDelete c d \<Rightarrow> [c] | LLock c \<Rightarrow> [c] | LPush c \<Rightarrow> [c] | _ \<Rightarrow> [])"

text \<open>The connection that is being evicted.\<close>

definition victim :: "loop_pc \<Rightarrow> int list" where
  "victim pc = (case pc of LShutdown c d \<Rightarrow> [d] | LPop c d \<Rightarrow> [d] | LDelete c d \<Rightarrow> [d] | _ \<Rightarrow> [])"

definition victim_ok :: "loop_pc \<Rightarrow> evictor_pc \<Rightarrow> bool" where
  "victim_ok pc e = (case pc of
       LShutdown c d \<Rightarrow> to_close e = 2 \<or> e = ECall 1
     | LPop c d \<Rightarrow> to_close e = 1
     | LDelete c d \<Rightarrow> to_close e \<le> 1
     | _ \<Rightarrow> False)"

definition ev_ok :: "'h sockserver \<Rightarrow> nat \<Rightarrow> evictor_pc \<Rightarrow> bool" where
  "ev_ok v i e =
     (if int i \<in> set (victim (ss_pc v)) then victim_ok (ss_pc v) e
      else if int i \<in> set (ss_conns v) \<union> set (pending (ss_pc v)) then e = ECall 2
      else to_close e = 0)"

definition conn_ok :: "('v, 'j) conn \<Rightarrow> bool" where
  "conn_ok c \<longleftrightarrow> lock_inv c \<and> close_inv (cn_sock c) 2 c"

definition sys_inv :: "('h, 'v, 'j) system \<Rightarrow> bool" where
  "sys_inv s \<longleftrightarrow> mutex_inv (sy_srv s) \<and> pool_inv (sy_srv s) \<and> fifo_inv (sy_srv s)
     \<and> ss_stopper (sy_srv s) = PIdle
     \<and> made (sy_srv s) @ pending (ss_pc (sy_srv s)) = map int [0..<length (sy_conns s)]
     \<and> (\<forall>i<length (sy_conns s). conn_ok (sy_conns s ! i) \<and> ev_ok (sy_srv s) i (cn_ev (sy_conns s ! i)))"

lemma server_part:
  assumes "loop_step c v = Some v'" "mutex_inv v" "pool_inv v" "fifo_inv v" "ss_stopper v = PIdle"
  shows "mutex_inv v' \<and> pool_inv v' \<and> fifo_inv v' \<and> ss_stopper v' = PIdle"
  using assms loop_mutex_inv loop_pool_inv loop_fifo_inv loop_step_stopper by metis

text \<open>The pool, the victim and the one to come are different connections.\<close>

lemma pool_parts:
  assumes "fifo_inv v" "ss_stopper v = PIdle"
  obtains old where "made v = old @ ss_conns v" "set (owed (ss_pc v)) \<subseteq> set old"
proof -
  obtain old where old: "made v = old @ ss_conns v"
      "ss_closed v @ owed (ss_pc v) = twice old @ shut (ss_pc v)"
    using assms by (auto simp: fifo_inv_def)
  have "set (twice old) = set old"
    by (auto simp: twice_def)
  moreover have "owed (ss_pc v) \<noteq> [] \<Longrightarrow> shut (ss_pc v) = []"
    by (auto simp: owed_def shut_def split: loop_pc.splits)
  ultimately have "set (owed (ss_pc v)) \<subseteq> set old"
    using arg_cong [OF old(2), of set] by (cases "owed (ss_pc v) = []") auto
  then show ?thesis
    using old(1) that by blast
qed

lemma made_pending:
  assumes "loop_step c v = Some v'" "fifo_inv v" "ss_stopper v = PIdle"
  shows "made v' @ pending (ss_pc v')
    = made v @ pending (ss_pc v) @ (if ss_pc v = LAccept then [c] else [])"
proof (cases "ss_pc v")
  case (LFront d)
  then have "ss_conns v \<noteq> []"
    using assms(2,3) by (auto simp: fifo_inv_def)
  then show ?thesis
    using LFront assms(1) by (auto simp: loop_step_def place_defs pending_def split: list.splits)
next
  case (LPop d e)
  then have "ss_conns v \<noteq> []"
    using assms(2,3) by (auto simp: fifo_inv_def)
  then show ?thesis
    using LPop assms(1) by (auto simp: loop_step_def place_defs pending_def split: list.splits)
qed (use assms(1) in \<open>auto simp: loop_step_def place_defs pending_def split: if_splits\<close>)

lemma ev_ok_loop:
  assumes "loop_step c v = Some v'" "fifo_inv v" "ss_stopper v = PIdle"
    and "distinct (made v @ pending (ss_pc v))" "ss_pc v \<noteq> LAccept"
    and "\<And>k. shutting (ss_pc v) = Some (i, k) \<Longrightarrow> e = ECall k" "ev_ok v i e"
  shows "ev_ok v' i e"
proof (cases "ss_pc v")
  case (LFront d)
  then obtain x rest where "ss_conns v = x # rest"
    using assms(2,3) by (cases "ss_conns v") (auto simp: fifo_inv_def)
  then show ?thesis
    using LFront assms(1,7)
    by (auto simp: loop_step_def ev_ok_def victim_def pending_def victim_ok_def to_close_def split: if_splits)
next
  case (LShutdown d x)
  then show ?thesis
    using assms(1,6,7)
    by (auto simp: loop_step_def ev_ok_def victim_def pending_def victim_ok_def shutting_def to_close_def
        split: if_splits)
next
  case (LPop d x)
  then obtain rest where "ss_conns v = x # rest"
    using assms(2,3) by (cases "ss_conns v") (auto simp: fifo_inv_def)
  then show ?thesis
    using LPop assms(1,7)
    by (auto simp: loop_step_def ev_ok_def victim_def pending_def victim_ok_def split: if_splits)
next
  case (LDelete d x)
  obtain old where old: "made v = old @ ss_conns v" "set (owed (ss_pc v)) \<subseteq> set old"
    by (rule pool_parts [OF assms(2,3)])
  then have "x \<noteq> d" "x \<notin> set (ss_conns v)"
    using LDelete assms(4) by (auto simp: owed_def pending_def)
  then show ?thesis
    using LDelete assms(1,6,7)
    by (auto simp: loop_step_def ev_ok_def victim_def pending_def shutting_def to_close_def
        split: if_splits)
qed (use assms(1,5,7) in \<open>auto simp: loop_step_def ev_ok_def victim_def pending_def split: if_splits\<close>)

text \<open>What the threads of a connection leave alone.\<close>

lemma conn_ok_service: "conn_ok (c\<lparr>cn_service := sv\<rparr>) = conn_ok c"
  by (simp add: conn_ok_def lock_inv_def close_inv_def)

lemma conn_ok_new: "conn_ok (Connection sock sv 2)" "cn_ev (Connection sock sv n) = ECall n"
  by (simp_all add: conn_ok_def Connection_def lock_inv_def close_inv_def pc_defs)

lemma worker_conn:
  assumes "worker_step J serve junk c = Some c'" "conn_ok c"
  shows "conn_ok c' \<and> cn_ev c' = cn_ev c"
  using assms worker_moves [OF assms(1)] worker_lock_inv worker_close_inv
  by (metis conn_ok_def)

lemma evictor_moves:
  assumes "evictor_step c = Some c'"
  shows "cn_sock c' = cn_sock c \<and> (to_close (cn_ev c') = to_close (cn_ev c)
    \<or> (\<exists>n. cn_ev c' = ECall n \<and> to_close (cn_ev c) = Suc n))"
  using assms
  by (cases "cn_ev c" rule: evictor_pc.exhaust)
     (auto simp: evictor_step.simps to_close_def split: if_splits nat.splits)

lemma evictor_conn: "evictor_step c = Some c' \<Longrightarrow> conn_ok c \<Longrightarrow> conn_ok c'"
  using evictor_moves evictor_lock_inv evictor_close_inv by (metis conn_ok_def)

lemma victim_call:
  assumes "victim_ok pc e" "shutting pc = Some (d, k)" "e \<noteq> ECall k"
    and "to_close e' = to_close e \<or> (\<exists>n. e' = ECall n \<and> to_close e = Suc n)"
  shows "victim_ok pc e'"
  using assms
  by (auto simp: victim_ok_def shutting_def to_close_def numeral_2_eq_2 split: loop_pc.splits)

lemma shutting_victim: "shutting pc = Some (d, k) \<Longrightarrow> \<exists>x. victim pc = [x] \<and> d = nat x"
  by (auto simp: shutting_def victim_def split: loop_pc.splits)

lemma sys_inv_loop:
  assumes "sys_inv s" "loop_step c (sy_srv s) = Some v" "ss_pc (sy_srv s) \<noteq> LAccept"
    and "\<And>d k. shutting (ss_pc (sy_srv s)) = Some (d, k) \<Longrightarrow> cn_ev (sy_conns s ! d) = ECall k"
  shows "sys_inv (s\<lparr>sy_srv := v\<rparr>)"
proof -
  have names: "distinct (made (sy_srv s) @ pending (ss_pc (sy_srv s)))"
    using assms(1) by (auto simp: sys_inv_def distinct_map)
  have "ev_ok v i (cn_ev (sy_conns s ! i))" if "i < length (sy_conns s)" for i
    using ev_ok_loop [OF assms(2) _ _ names assms(3)] assms(1,4) that by (auto simp: sys_inv_def)
  then show ?thesis
    using assms(1,3) server_part [OF assms(2)] made_pending [OF assms(2)] by (auto simp: sys_inv_def)
qed

lemma sys_inv_conn:
  assumes "sys_inv s" "i < length (sy_conns s)" "conn_ok c" "ev_ok (sy_srv s) i (cn_ev c)"
  shows "sys_inv (s\<lparr>sy_conns := (sy_conns s)[i := c]\<rparr>)"
  using assms by (auto simp: sys_inv_def nth_list_update)

lemma sys_inv_service: "sys_inv (s\<lparr>sy_service := sv\<rparr>) = sys_inv s"
  by (simp add: sys_inv_def)

lemma sys_inv_accept:
  assumes "sys_inv s" "ss_pc (sy_srv s) = LAccept"
    "loop_step (int (length (sy_conns s))) (sy_srv s) = Some v"
  shows "sys_inv (s\<lparr>sy_srv := v, sy_conns := sy_conns s @ [Connection sock sv 2]\<rparr>)"
proof -
  have v: "v = (sy_srv s)\<lparr>ss_pc := LCheck (int (length (sy_conns s)))\<rparr>"
    using assms(2,3) by (simp add: loop_step_def)
  have "ev_ok v i e" if "ev_ok (sy_srv s) i e" "i < length (sy_conns s)" for i e
    using that assms(2) by (auto simp: v ev_ok_def victim_def pending_def split: if_splits)
  moreover have "ev_ok v (length (sy_conns s)) (ECall 2)"
    by (simp add: v ev_ok_def victim_def pending_def)
  ultimately show ?thesis
    using assms(1,2) server_part [OF assms(3)] made_pending [OF assms(3)]
    by (auto simp: sys_inv_def nth_append less_Suc_eq conn_ok_new)
qed

text \<open>The victim is a connection that was made.\<close>

lemma victim_made:
  assumes "sys_inv s" "victim (ss_pc (sy_srv s)) = [x]"
  shows "\<exists>i<length (sy_conns s). x = int i"
proof -
  have fifo: "fifo_inv (sy_srv s)" "ss_stopper (sy_srv s) = PIdle"
    and "made (sy_srv s) @ pending (ss_pc (sy_srv s)) = map int [0..<length (sy_conns s)]"
    using assms(1) by (simp_all add: sys_inv_def)
  then have names: "set (made (sy_srv s)) \<subseteq> int ` {0..<length (sy_conns s)}"
    by (metis Un_upper1 list.set_map set_append set_upt)
  obtain old where old: "made (sy_srv s) = old @ ss_conns (sy_srv s)" "set (owed (ss_pc (sy_srv s))) \<subseteq> set old"
    by (rule pool_parts [OF fifo])
  have "x \<in> set (ss_conns (sy_srv s)) \<union> set (owed (ss_pc (sy_srv s)))"
    using assms(2) fifo
    by (auto simp: victim_def owed_def fifo_inv_def intro!: list.set_sel(1) split: loop_pc.splits)
  then show ?thesis
    using old names by auto
qed

lemma sys_do_inv:
  assumes "sys_do J serve junk a s = Some t" "sys_inv s"
  shows "sys_inv t"
proof (cases a)
  case (Accept sock)
  then show ?thesis
    using assms sys_inv_accept [of s _ sock "sy_service s"]
    by (auto simp: sys_do_def Let_def split: if_splits)
next
  case Loop
  then show ?thesis
    using assms by (auto simp: sys_do_def Let_def split: if_splits intro!: sys_inv_loop)
next
  case Call
  obtain d k c where step: "shutting (ss_pc (sy_srv s)) = Some (d, k)" "cn_ev (sy_conns s ! d) \<noteq> ECall k"
      "evictor_step (sy_conns s ! d) = Some c" "t = s\<lparr>sy_conns := (sy_conns s)[d := c]\<rparr>"
    using assms(1) Call by (auto simp: sys_do_def Let_def split: if_splits option.splits)
  obtain x where x: "victim (ss_pc (sy_srv s)) = [x]" "d = nat x"
    using shutting_victim [OF step(1)] by blast
  have d: "d < length (sy_conns s)" "int d = x"
    using victim_made [OF assms(2) x(1)] x(2) by auto
  then have "victim_ok (ss_pc (sy_srv s)) (cn_ev (sy_conns s ! d))" "conn_ok (sy_conns s ! d)"
    using assms(2) x(1) by (auto simp: sys_inv_def ev_ok_def)
  then have "ev_ok (sy_srv s) d (cn_ev c)" "conn_ok c"
    using victim_call [OF _ step(1,2)] evictor_moves [OF step(3)] evictor_conn [OF step(3)] x(1) d(2)
    by (auto simp: ev_ok_def)
  then show ?thesis
    using sys_inv_conn [OF assms(2) d(1)] step(4) by simp
next
  case Return
  then show ?thesis
    using assms by (auto simp: sys_do_def Let_def split: if_splits option.splits
        intro!: sys_inv_loop) (auto simp: shutting_def)
next
  case (Work i)
  then obtain c where c: "i < length (sy_conns s)"
      "worker_step J serve junk ((sy_conns s ! i)\<lparr>cn_service := sy_service s\<rparr>) = Some c"
      "t = s\<lparr>sy_conns := (sy_conns s)[i := c], sy_service := cn_service c\<rparr>"
    using assms(1) by (auto simp: sys_do_def Let_def split: if_splits)
  have "conn_ok c" "ev_ok (sy_srv s) i (cn_ev c)"
    using worker_conn [OF c(2)] assms(2) c(1) by (simp_all add: sys_inv_def conn_ok_service)
  then show ?thesis
    using sys_inv_conn [OF assms(2) c(1)] sys_inv_service c(3) by metis
next
  case (Deliver i rs ws)
  then have i: "i < length (sy_conns s)" "t = s\<lparr>sy_conns := (sy_conns s)[i := deliver rs ws (sy_conns s ! i)]\<rparr>"
    using assms(1) by (auto simp: sys_do_def Let_def split: if_splits)
  have "conn_ok (deliver rs ws c) = conn_ok c" "cn_ev (deliver rs ws c) = cn_ev c" for c :: "('b, 'c) conn"
    by (simp_all add: conn_ok_def deliver_inv) (simp_all add: deliver_def)
  then show ?thesis
    using sys_inv_conn [OF assms(2) i(1)] assms(2) i by (auto simp: sys_inv_def)
qed

lemma sys_invariant:
  assumes "running v" "sys_run J serve junk as (new_system v sv) = Some s"
  shows "sys_inv s"
  using assms(2)
proof (induction rule: sys_run_induct)
  case base
  show ?case
    using server_invariant [OF assms(1) rtranclp.rtrancl_refl] assms(1)
    by (simp add: sys_inv_def new_system_def running_def made_def starting_def pending_def)
next
  case (step a s t)
  then show ?case
    by (rule sys_do_inv)
qed

section \<open>Runs\<close>

definition alive :: "('h, 'v, 'j) system \<Rightarrow> bool" where
  "alive s \<longleftrightarrow> \<not> list_ex (\<lambda>c. is_dead (cn_pc c)) (sy_conns s)"

lemma alive_nth: "alive s \<Longrightarrow> i < length (sy_conns s) \<Longrightarrow> \<not> is_dead (cn_pc (sy_conns s ! i))"
  by (auto simp: alive_def list_ex_iff)

lemma alive_update:
  "alive s \<Longrightarrow> \<not> is_dead (cn_pc c) \<Longrightarrow> alive (s\<lparr>sy_conns := (sy_conns s)[i := c], sy_service := sv\<rparr>)"
  "alive s \<Longrightarrow> \<not> is_dead (cn_pc c) \<Longrightarrow> alive (s\<lparr>sy_conns := (sy_conns s)[i := c]\<rparr>)"
  by (auto simp: alive_def list_ex_iff dest!: set_update_subset_insert [THEN subsetD])

lemma sys_calls:
  assumes "shutting (ss_pc (sy_srv s)) = Some (d, k)" "d < length (sy_conns s)" "alive s"
    and "evictor_run n (sy_conns s ! d) = Some c"
    and "\<And>j u. j < n \<Longrightarrow> evictor_run j (sy_conns s ! d) = Some u \<Longrightarrow> cn_ev u \<noteq> ECall k"
  shows "sys_run J serve junk (replicate n Call) s = Some (s\<lparr>sy_conns := (sy_conns s)[d := c]\<rparr>)"
  using assms
proof (induction n arbitrary: s)
  case 0
  then have "c = sy_conns s ! d"
    by simp
  then show ?case
    by simp
next
  case (Suc n)
  then obtain u where u: "evictor_step (sy_conns s ! d) = Some u" "evictor_run n u = Some c"
    by (auto simp: Option.bind_eq_Some_conv)
  let ?s = "s\<lparr>sy_conns := (sy_conns s)[d := u]\<rparr>"
  have "cn_pc u = cn_pc (sy_conns s ! d)"
    using u(1) by (auto simp: evictor_step.simps split: if_splits evictor_pc.splits nat.splits)
  then have alive: "alive ?s"
    using Suc.prems(2,3) alive_nth alive_update(2) by metis
  have "sys_do J serve junk Call s = Some ?s"
    using Suc.prems(1,3) Suc.prems(5) [of 0] u(1) by (simp add: sys_do_def alive_def Let_def)
  moreover have "cn_ev v \<noteq> ECall k" if "j < n" "evictor_run j u = Some v" for j v
    using Suc.prems(5) [of "Suc j" v] that u(1) by simp
  then have "sys_run J serve junk (replicate n Call) ?s = Some (?s\<lparr>sy_conns := (sy_conns ?s)[d := c]\<rparr>)"
    using Suc.IH [of ?s] Suc.prems(1,2) alive u(2) by simp
  ultimately show ?case
    by simp
qed

lemma sys_works:
  assumes "i < length (sy_conns s)" "int i \<in> set (ss_started (sy_srv s))" "alive s"
    and "worker_run J serve junk (Suc n) ((sy_conns s ! i)\<lparr>cn_service := sy_service s\<rparr>) = Some c"
    and "\<not> is_dead (cn_pc c)"
  shows "sys_run J serve junk (replicate (Suc n) (Work i)) s
    = Some (s\<lparr>sy_conns := (sy_conns s)[i := c], sy_service := cn_service c\<rparr>)"
  using assms
proof (induction n arbitrary: s)
  case 0
  then show ?case
    by (simp add: sys_do_def alive_def Let_def Option.bind_eq_Some_conv)
next
  case (Suc n)
  then obtain u where u: "worker_step J serve junk ((sy_conns s ! i)\<lparr>cn_service := sy_service s\<rparr>) = Some u"
      "worker_run J serve junk (Suc n) u = Some c"
    by (auto simp: Option.bind_eq_Some_conv)
  then have pc: "\<not> is_dead (cn_pc u)"
    by (auto simp: worker_step.simps is_dead_def Option.bind_eq_Some_conv split: worker_pc.splits)
  let ?s = "s\<lparr>sy_conns := (sy_conns s)[i := u], sy_service := cn_service u\<rparr>"
  have "sys_do J serve junk (Work i) s = Some ?s"
    using Suc.prems(1-3) u(1) by (simp add: sys_do_def alive_def Let_def)
  moreover have "(sy_conns ?s ! i)\<lparr>cn_service := sy_service ?s\<rparr> = u"
    using Suc.prems(1) by simp
  then have "sys_run J serve junk (replicate (Suc n) (Work i)) ?s
      = Some (?s\<lparr>sy_conns := (sy_conns ?s)[i := c], sy_service := cn_service c\<rparr>)"
    using Suc.prems(1,2,5) u(2) alive_update(1) [OF Suc.prems(3) pc]
    by (intro Suc.IH) simp_all
  ultimately show ?case
    by simp
qed

text \<open>Steps of the loop that touch no connection.\<close>

lemma sys_loop:
  assumes "alive s" "ss_pc (sy_srv s) \<noteq> LAccept" "shutting (ss_pc (sy_srv s)) = None"
    "loop_step 0 (sy_srv s) = Some v"
  shows "sys_do J serve junk Loop s = Some (s\<lparr>sy_srv := v\<rparr>)"
  using assms by (simp add: sys_do_def alive_def Let_def)

lemma calls_of_eviction:
  assumes "cn_ev c = ECall (Suc k)" "j < 6" "evictor_run j c = Some u"
  shows "cn_ev u \<noteq> ECall k"
proof -
  have "j \<in> {0, 1, 2, 3, 4, 5}"
    using assms(2) by auto
  then show ?thesis
    using assms(1,3)
    by (auto simp: evictor_step.simps eval_nat_numeral Option.bind_eq_Some_conv split: if_splits)
qed

lemma calls_of_join:
  assumes "cn_ev c = EUnlocked k" "j < 2" "evictor_run j c = Some u"
  shows "cn_ev u \<noteq> ECall k"
  using assms by (cases j) (auto simp: evictor_step.simps less_Suc_eq numeral_2_eq_2 split: if_splits)

text \<open>The kernel brings no byte, and no end of file, from a client: it only lets \<open>write\<close> go on.\<close>

definition silent :: "action \<Rightarrow> bool" where
  "silent a = (case a of Deliver i rs ws \<Rightarrow> rs = [] | _ \<Rightarrow> True)"

lemma silent_simps [simp]:
  "silent Call" "silent Return" "silent Loop" "silent (Work i)" "silent (Accept sock)"
  "silent (Deliver i rs ws) \<longleftrightarrow> rs = []" "silent a \<Longrightarrow> list_all silent (replicate n a)"
  by (simp_all add: silent_def list_all_iff)

text \<open>The victim of an eviction when \<open>shutdown\<close> has returned, if its worker waited for a message.\<close>

definition told :: "'j jconer \<Rightarrow> 'v \<Rightarrow> ('v, 'j) conn \<Rightarrow> ('v, 'j) conn" where
  "told J sv c = c\<lparr>cn_pc := AtEnd, cn_ev := ECall 1, cn_connected := False, cn_service := sv,
     cn_wire := (cn_wire c)\<lparr>n_sent := n_sent (cn_wire c) @ frame (build_error J SOCKET_CLOSED),
        n_closed := n_closed (cn_wire c) @ [cn_sock c]\<rparr>\<rparr>"

lemma sys_shutdown:
  assumes "json_laws J" "length (build_error J SOCKET_CLOSED) < 2 ^ 31" "alive s"
    and pc: "ss_pc (sy_srv s) = LShutdown m (int d)" "d < length (sy_conns s)" "int d \<in> set (ss_started (sy_srv s))"
    and c: "sy_conns s ! d = c" "cn_pc c = AtRecv" "cn_mutex c = None" "cn_ev c = ECall 2"
      "n_reads (cn_wire c) = []" "n_writes (cn_wire c) = []"
  shows "\<exists>as. list_all silent as \<and> sys_run J serve junk as s = Some (s\<lparr>sy_conns := (sy_conns s)[d := told J (sy_service s) c],
      sy_srv := (sy_srv s)\<lparr>ss_pc := LPop m (int d), ss_closed := ss_closed (sy_srv s) @ [int d]\<rparr>\<rparr>)"
proof -
  let ?ws = "all_writes (build_error J SOCKET_CLOSED)"
  let ?a = "c\<lparr>cn_ev := EUnlocked 1, cn_connected := False, cn_wire := shut_rd (cn_wire c)\<rparr>"
  let ?b = "(deliver [] ?ws ?a)\<lparr>cn_service := sy_service s\<rparr>"
  let ?d = "?b\<lparr>cn_pc := AtEnd, cn_wire := (cn_wire ?b)
     \<lparr>n_reads := [], n_sent := n_sent (cn_wire ?b) @ frame (build_error J SOCKET_CLOSED), n_writes := []\<rparr>\<rparr>"
  have sh: "shutting (ss_pc (sy_srv s)) = Some (d, 1)"
    using pc(1) by (simp add: shutting_def)
  have "evictor_run 4 c = Some ?a"
    using c by (intro evictor_marks) (simp_all add: is_dead_def)
  moreover have "cn_ev u \<noteq> ECall 1" if "j < 4" "evictor_run j c = Some u" for j u
    using calls_of_eviction [of c 1 j u] that c(4) by simp
  ultimately have 1: "sys_run J serve junk (replicate 4 Call) s = Some (s\<lparr>sy_conns := (sy_conns s)[d := ?a]\<rparr>)"
    using sys_calls [OF sh pc(2) assms(3), of 4 ?a] c(1) by simp
  have al1: "alive (s\<lparr>sy_conns := (sy_conns s)[d := ?a]\<rparr>)"
    using assms(3) c(2) by (intro alive_update) (simp_all add: is_dead_def)
  then have 2: "sys_run J serve junk [Deliver d [] ?ws] (s\<lparr>sy_conns := (sy_conns s)[d := ?a]\<rparr>)
      = Some (s\<lparr>sy_conns := (sy_conns s)[d := deliver [] ?ws ?a]\<rparr>)"
    using pc(2) by (simp add: sys_do_def alive_def Let_def)
  let ?s2 = "s\<lparr>sy_conns := (sy_conns s)[d := deliver [] ?ws ?a]\<rparr>"
  have "worker_run J serve junk 4 ?b = Some ?d"
    by (rule worker_announces [where ws = "[]"]) (use assms(1,2) c in \<open>simp_all add: deliver_def\<close>)
  moreover have "alive ?s2"
    using assms(3) c(2) by (intro alive_update) (simp_all add: is_dead_def deliver_def)
  ultimately have 3: "sys_run J serve junk (replicate 4 (Work d)) ?s2 = Some (s\<lparr>sy_conns := (sy_conns s)[d := ?d]\<rparr>)"
    using sys_works [of d ?s2 J serve junk 3 ?d] pc(2,3) by (simp add: is_dead_def)
  let ?s3 = "s\<lparr>sy_conns := (sy_conns s)[d := ?d]\<rparr>"
  have told: "evictor_run 2 ?d = Some (told J (sy_service s) c)"
    using evictor_closes [of ?d 1] c by (simp add: told_def deliver_def)
  have al3: "alive ?s3"
    using assms(3) by (intro alive_update) (simp_all add: is_dead_def)
  have 4: "sys_run J serve junk (replicate 2 Call) ?s3
      = Some (s\<lparr>sy_conns := (sy_conns s)[d := told J (sy_service s) c]\<rparr>)"
    using sys_calls [of ?s3 d 1 2 "told J (sy_service s) c"] sh pc(2) al3 told calls_of_join [of ?d 1]
    by (simp add: deliver_def)
  have "alive (s\<lparr>sy_conns := (sy_conns s)[d := told J (sy_service s) c]\<rparr>)"
    using assms(3) by (intro alive_update) (simp_all add: is_dead_def told_def)
  then have 5: "sys_run J serve junk [Return] (s\<lparr>sy_conns := (sy_conns s)[d := told J (sy_service s) c]\<rparr>)
      = Some (s\<lparr>sy_conns := (sy_conns s)[d := told J (sy_service s) c],
      sy_srv := (sy_srv s)\<lparr>ss_pc := LPop m (int d), ss_closed := ss_closed (sy_srv s) @ [int d]\<rparr>\<rparr>)"
    using sh pc(1,2) by (simp add: sys_do_def alive_def Let_def loop_step_def told_def)
  show ?thesis
    using sys_run_then [OF 1 sys_run_then [OF 2 sys_run_then [OF 3 sys_run_then [OF 4 5]]]]
    by (intro exI conjI [rotated], assumption) simp
qed

text \<open>The same connection when its destructor has closed it again.\<close>

definition buried :: "'j jconer \<Rightarrow> 'v \<Rightarrow> ('v, 'j) conn \<Rightarrow> ('v, 'j) conn" where
  "buried J sv c = (told J sv c)\<lparr>cn_ev := ECall 0, cn_wire := (shut_rd (cn_wire (told J sv c)))
     \<lparr>n_closed := n_closed (cn_wire (told J sv c)) @ [cn_sock c]\<rparr>\<rparr>"

lemma sys_delete:
  assumes "alive s" "ss_pc (sy_srv s) = LDelete m (int d)" "d < length (sy_conns s)"
    "sy_conns s ! d = told J sv c" "cn_mutex c = None"
  shows "sys_run J serve junk (replicate 6 Call @ [Return]) s
    = Some (s\<lparr>sy_conns := (sy_conns s)[d := buried J sv c],
        sy_srv := (sy_srv s)\<lparr>ss_pc := LLock m, ss_closed := ss_closed (sy_srv s) @ [int d]\<rparr>\<rparr>)"
proof -
  have sh: "shutting (ss_pc (sy_srv s)) = Some (d, 0)"
    using assms(2) by (simp add: shutting_def)
  have "evictor_run 6 (told J sv c) = Some (buried J sv c)"
    using evictor_call [of "told J sv c" 0] assms(5) by (simp add: told_def buried_def)
  moreover have "cn_ev u \<noteq> ECall 0" if "j < 6" "evictor_run j (told J sv c) = Some u" for j u
    using calls_of_eviction [of "told J sv c" 0 j u] that by (simp add: told_def)
  ultimately have 1: "sys_run J serve junk (replicate 6 Call) s
      = Some (s\<lparr>sy_conns := (sy_conns s)[d := buried J sv c]\<rparr>)"
    using sys_calls [OF sh assms(3,1), of 6 "buried J sv c"] assms(4) by simp
  have "alive (s\<lparr>sy_conns := (sy_conns s)[d := buried J sv c]\<rparr>)"
    using assms(1) by (intro alive_update) (simp_all add: is_dead_def buried_def told_def)
  then have 2: "sys_run J serve junk [Return] (s\<lparr>sy_conns := (sy_conns s)[d := buried J sv c]\<rparr>)
    = Some (s\<lparr>sy_conns := (sy_conns s)[d := buried J sv c],
        sy_srv := (sy_srv s)\<lparr>ss_pc := LLock m, ss_closed := ss_closed (sy_srv s) @ [int d]\<rparr>\<rparr>)"
    using sh assms(2,3) by (simp add: sys_do_def alive_def Let_def loop_step_def buried_def)
  show ?thesis
    by (rule sys_run_then [OF 1 2])
qed

text \<open>From the accept to the call of \<open>shutdown\<close>, and from the lock to the head of the loop.\<close>

lemma sys_to_shutdown:
  assumes "alive s" "ss_pc (sy_srv s) = LAccept" "ss_pool_size (sy_srv s) = POOL_SIZE"
    "ss_conns (sy_srv s) = d # rest" "length rest = 15"
  shows "sys_run J serve junk [Accept sock, Loop, Loop] s
    = Some (s\<lparr>sy_conns := sy_conns s @ [Connection sock (sy_service s) 2],
        sy_srv := (sy_srv s)\<lparr>ss_pc := LShutdown (int (length (sy_conns s))) d\<rparr>\<rparr>)"
  using assms pool_full_iff [of "sy_srv s" 16]
  by (simp add: sys_do_def alive_def Let_def loop_step_def shutting_def Connection_def is_dead_def)

lemma sys_to_head:
  assumes "alive s" "ss_pc (sy_srv s) = LLock m" "\<not> ss_mutex (sy_srv s)"
  shows "sys_run J serve junk [Loop, Loop, Loop] s
    = Some (s\<lparr>sy_srv := (sy_srv s)\<lparr>ss_mutex := False, ss_pc := LHead,
        ss_conns := ss_conns (sy_srv s) @ [m], ss_started := ss_started (sy_srv s) @ [m]\<rparr>\<rparr>)"
  using assms by (simp add: sys_do_def alive_def Let_def loop_step_def shutting_def)

lemma sys_admits:
  assumes "json_laws J" "length (build_error J SOCKET_CLOSED) < 2 ^ 31" "alive s"
    and v: "sy_srv s = v" "ss_pc v = LAccept" "ss_pool_size v = POOL_SIZE" "\<not> ss_mutex v"
      "ss_conns v = int d # rest" "length rest = 15" "int d \<in> set (ss_started v)"
    and c: "d < length (sy_conns s)" "sy_conns s ! d = c" "cn_pc c = AtRecv" "cn_mutex c = None"
      "cn_ev c = ECall 2" "n_reads (cn_wire c) = []" "n_writes (cn_wire c) = []"
  shows "\<exists>as. list_all silent as \<and> sys_run J serve junk as s = Some (s\<lparr>
      sy_conns := (sy_conns s)[d := buried J (sy_service s) c] @ [Connection sock (sy_service s) 2],
      sy_srv := v\<lparr>ss_mutex := False, ss_pc := LHead, ss_closed := ss_closed v @ [int d, int d],
        ss_conns := rest @ [int (length (sy_conns s))],
        ss_started := ss_started v @ [int (length (sy_conns s))]\<rparr>\<rparr>)"
proof -
  let ?m = "int (length (sy_conns s))" and ?new = "Connection sock (sy_service s) 2"
  have al: "alive (s\<lparr>sy_conns := (sy_conns s)[d := x] @ [?new], sy_srv := w\<rparr>)"
    if "\<not> is_dead (cn_pc x)" for x w
    using alive_update(2) [OF assms(3) that] by (simp add: alive_def Connection_def is_dead_def)
  let ?s1 = "s\<lparr>sy_conns := sy_conns s @ [?new], sy_srv := v\<lparr>ss_pc := LShutdown ?m (int d)\<rparr>\<rparr>"
  have 1: "sys_run J serve junk [Accept sock, Loop, Loop] s = Some ?s1"
    using sys_to_shutdown [OF assms(3), of "int d" rest] v by simp
  let ?s2 = "s\<lparr>sy_conns := (sy_conns s)[d := told J (sy_service s) c] @ [?new],
      sy_srv := v\<lparr>ss_pc := LPop ?m (int d), ss_closed := ss_closed v @ [int d]\<rparr>\<rparr>"
  have "alive ?s1"
    using assms(3) by (simp add: alive_def Connection_def is_dead_def)
  then obtain as where as: "list_all silent as" and 2: "sys_run J serve junk as ?s1 = Some ?s2"
    using sys_shutdown [OF assms(1,2), of ?s1 ?m d c] v c by (auto simp: nth_append list_update_append)
  let ?s3 = "?s2\<lparr>sy_srv := v\<lparr>ss_pc := LDelete ?m (int d), ss_conns := rest, ss_closed := ss_closed v @ [int d]\<rparr>\<rparr>"
  have 3: "sys_run J serve junk [Loop] ?s2 = Some ?s3"
    using sys_loop [OF al, of "told J (sy_service s) c"] v
    by (simp add: told_def is_dead_def shutting_def loop_step_def)
  let ?s4 = "s\<lparr>sy_conns := (sy_conns s)[d := buried J (sy_service s) c] @ [?new],
      sy_srv := v\<lparr>ss_pc := LLock ?m, ss_conns := rest, ss_closed := ss_closed v @ [int d, int d]\<rparr>\<rparr>"
  have 4: "sys_run J serve junk (replicate 6 Call @ [Return]) ?s3 = Some ?s4"
    using sys_delete [OF al, of "told J (sy_service s) c" _ ?m d J "sy_service s" c] c
    by (simp add: told_def is_dead_def nth_append list_update_append)
  have 5: "sys_run J serve junk [Loop, Loop, Loop] ?s4 = Some (s\<lparr>
      sy_conns := (sy_conns s)[d := buried J (sy_service s) c] @ [?new],
      sy_srv := v\<lparr>ss_mutex := False, ss_pc := LHead, ss_closed := ss_closed v @ [int d, int d],
        ss_conns := rest @ [?m], ss_started := ss_started v @ [?m]\<rparr>\<rparr>)"
    using sys_to_head [OF al, of "buried J (sy_service s) c" _ ?m] v
    by (simp add: buried_def told_def is_dead_def)
  show ?thesis
    using sys_run_then [OF 1 sys_run_then [OF 2 sys_run_then [OF 3 sys_run_then [OF 4 5]]]]
    by (intro exI conjI [rotated], assumption) (simp add: as)
qed

text \<open>A thread that has ended sends nothing more.\<close>

definition finished :: "('v, 'j) conn list \<Rightarrow> nat \<Rightarrow> bytes \<Rightarrow> bool" where
  "finished cs i out \<longleftrightarrow> i < length cs \<and> cn_pc (cs ! i) = AtEnd \<and> n_sent (cn_wire (cs ! i)) = out"

lemma evictor_sends_nothing:
  "evictor_step c = Some c' \<Longrightarrow> cn_pc c' = cn_pc c \<and> n_sent (cn_wire c') = n_sent (cn_wire c)"
  by (auto simp: evictor_step.simps split: if_splits evictor_pc.splits nat.splits)

lemma worker_ended: "cn_pc c = AtEnd \<Longrightarrow> worker_step J serve junk (c\<lparr>cn_service := sv\<rparr>) = None"
  by (simp add: worker_step.simps)

lemma finished_do:
  assumes "sys_do J serve junk a s = Some t" "finished (sy_conns s) i out"
  shows "finished (sy_conns t) i out"
proof (cases a)
  case (Work j)
  then show ?thesis
    using assms worker_ended [of "sy_conns s ! i"]
    by (cases "j = i") (auto simp: sys_do_def Let_def finished_def split: if_splits)
next
  case (Deliver j rs ws)
  then show ?thesis
    using assms by (auto simp: sys_do_def Let_def deliver_def finished_def update_nth split: if_splits)
next
  case Call
  then show ?thesis
    using assms
    by (auto simp: sys_do_def Let_def finished_def update_nth evictor_sends_nothing split: if_splits option.splits)
next
  case (Accept sock)
  then show ?thesis
    using assms by (auto simp: sys_do_def Let_def finished_def nth_append split: if_splits)
qed (use assms in \<open>auto simp: sys_do_def Let_def split: if_splits option.splits\<close>)

lemma finished_run:
  "sys_run J serve junk as s = Some t \<Longrightarrow> finished (sy_conns s) i out \<Longrightarrow> finished (sy_conns t) i out"
  by (induction rule: sys_run_induct) (auto intro: finished_do)

text \<open>Once its socket is closed a connection has sent all it will ever send.\<close>

lemma closed_is_final:
  assumes "sys_inv u" "i < length (sy_conns u)" "n_closed (cn_wire (sy_conns u ! i)) \<noteq> []"
    "sys_run J serve junk us u = Some t"
  shows "cn_pc (sy_conns u ! i) = AtEnd \<and> n_sent (cn_wire (sy_conns u ! i)) = n_sent (cn_wire (sy_conns t ! i))"
proof -
  have "cn_pc (sy_conns u ! i) = AtEnd"
    using assms(1-3) by (auto simp: sys_inv_def conn_ok_def close_inv_def)
  then show ?thesis
    using finished_run [OF assms(4), of i "n_sent (cn_wire (sy_conns u ! i))"] assms(2) by (simp add: finished_def)
qed

lemma sys_run_length: "sys_run J serve junk as s = Some t \<Longrightarrow> length (sy_conns s) \<le> length (sy_conns t)"
proof (induction as arbitrary: s)
  case (Cons a as)
  then obtain u where u: "sys_do J serve junk a s = Some u" "length (sy_conns u) \<le> length (sy_conns t)"
    by (auto simp: Option.bind_eq_Some_conv)
  then have "length (sy_conns s) \<le> length (sy_conns u)"
    by (auto simp: sys_do_def Let_def split: action.splits if_splits option.splits)
  then show ?case
    using u(2) by simp
qed simp

section \<open>Properties\<close>

text \<open>A connection that was evicted: it is out of the pool, and its destructor has run.\<close>

definition evicted :: "('h, 'v, 'j) system \<Rightarrow> nat \<Rightarrow> bool" where
  "evicted s i \<longleftrightarrow> int i \<in> set (made (sy_srv s))
     \<and> int i \<notin> set (ss_conns (sy_srv s)) \<union> set (victim (ss_pc (sy_srv s)))"

text \<open>The connections whose thread runs.\<close>

definition threads :: "('h, 'v, 'j) system \<Rightarrow> nat set" where
  "threads s = {i. i < length (sy_conns s) \<and> int i \<in> set (ss_started (sy_srv s))
     \<and> cn_pc (sy_conns s ! i) \<noteq> AtEnd}"

lemma evicted_ended:
  assumes "sys_inv s" "evicted s i" "i < length (sy_conns s)"
  shows "cn_pc (sy_conns s ! i) = AtEnd
    \<and> n_closed (cn_wire (sy_conns s ! i)) = [cn_sock (sy_conns s ! i), cn_sock (sy_conns s ! i)]"
proof -
  have "distinct (made (sy_srv s) @ pending (ss_pc (sy_srv s)))"
    using assms(1) by (simp add: sys_inv_def distinct_map)
  then have "int i \<notin> set (pending (ss_pc (sy_srv s)))"
    using assms(2) by (auto simp: evicted_def)
  moreover have "ev_ok (sy_srv s) i (cn_ev (sy_conns s ! i))"
    using assms(1,3) by (simp add: sys_inv_def)
  ultimately have "to_close (cn_ev (sy_conns s ! i)) = 0"
    using assms(2) by (simp add: evicted_def ev_ok_def)
  then show ?thesis
    using assms(1,3) by (auto simp: sys_inv_def conn_ok_def close_inv_def numeral_2_eq_2)
qed

lemma member_untouched:
  assumes "sys_inv s" "i < length (sy_conns s)" "int i \<in> set (ss_conns (sy_srv s))"
    "int i \<notin> set (victim (ss_pc (sy_srv s)))"
  shows "cn_ev (sy_conns s ! i) = ECall 2 \<and> n_closed (cn_wire (sy_conns s ! i)) = []"
  using assms by (auto simp: sys_inv_def ev_ok_def conn_ok_def close_inv_def to_close_def)

lemma member_free:
  assumes "conn_ok c" "cn_ev c = ECall n" "cn_pc c = AtRecv"
  shows "cn_mutex c = None"
  using assms by (cases "cn_mutex c"; cases "the (cn_mutex c)")
    (auto simp: conn_ok_def lock_inv_def in_lock_def ev_in_lock_def is_dead_def)

lemma deleted_ended:
  assumes "sys_inv s" "ss_pc (sy_srv s) = LDelete c (int i)" "i < length (sy_conns s)"
  shows "cn_pc (sy_conns s ! i) = AtEnd"
proof -
  have "to_close (cn_ev (sy_conns s ! i)) \<le> 1"
    using assms by (auto simp: sys_inv_def ev_ok_def victim_def victim_ok_def)
  then have "n_closed (cn_wire (sy_conns s ! i)) \<noteq> []"
    using assms(1,3) by (auto simp: sys_inv_def conn_ok_def close_inv_def)
  then show ?thesis
    using assms(1,3) by (auto simp: sys_inv_def conn_ok_def close_inv_def)
qed

lemma threads_in_pool:
  assumes "sys_inv s"
  shows "threads s \<subseteq> nat ` set (ss_conns (sy_srv s))"
proof
  fix i assume i: "i \<in> threads s"
  have fifo: "fifo_inv (sy_srv s)" "ss_stopper (sy_srv s) = PIdle"
    using assms by (simp_all add: sys_inv_def)
  have "int i \<in> set (victim (ss_pc (sy_srv s))) \<Longrightarrow> int i \<in> set (ss_conns (sy_srv s))"
    using fifo i deleted_ended [OF assms]
    by (auto simp: victim_def fifo_inv_def threads_def intro!: list.set_sel(1) split: loop_pc.splits)
  then have "int i \<in> set (ss_conns (sy_srv s))"
    using i evicted_ended [OF assms, of i] by (auto simp: threads_def evicted_def made_def)
  then show "i \<in> nat ` set (ss_conns (sy_srv s))"
    by (intro image_eqI [where x = "int i"]) simp_all
qed

text \<open>A server with 16 connections, the first of which waits for a message.\<close>

lemma sys_accept_one:
  assumes "alive s" "ss_pc (sy_srv s) = LHead" "\<not> ss_stop (sy_srv s)" "\<not> ss_mutex (sy_srv s)"
    "ss_pool_size (sy_srv s) = POOL_SIZE" "length (ss_conns (sy_srv s)) < 16"
  shows "sys_run J serve junk [Loop, Accept sock, Loop, Loop, Loop, Loop] s
    = Some (s\<lparr>sy_conns := sy_conns s @ [Connection sock (sy_service s) 2],
        sy_srv := (sy_srv s)\<lparr>ss_mutex := False, ss_pc := LHead,
          ss_conns := ss_conns (sy_srv s) @ [int (length (sy_conns s))],
          ss_started := ss_started (sy_srv s) @ [int (length (sy_conns s))]\<rparr>\<rparr>)"
  using assms pool_full_iff [of "sy_srv s" "length (ss_conns (sy_srv s))"]
  by (simp add: sys_do_def alive_def Let_def loop_step_def shutting_def Connection_def is_dead_def)

definition crowd :: "nat \<Rightarrow> 'v \<Rightarrow> (unit, 'v, 'j) system" where
  "crowd k sv = \<lparr>sy_srv = new_server\<lparr>ss_pc := LHead, ss_conns := map int [0..<k], ss_started := map int [0..<k]\<rparr>,
     sy_conns = map (\<lambda>i. Connection (int i) sv 2) [0..<k], sy_service = sv\<rparr>"

lemma alive_crowd: "alive (crowd k sv)"
  by (simp add: alive_def crowd_def list_ex_iff Connection_def is_dead_def)

lemma sys_crowd:
  "k \<le> 16 \<Longrightarrow> \<exists>as. sys_run J serve junk as (new_system (new_server\<lparr>ss_pc := LHead\<rparr>) sv) = Some (crowd k sv)"
proof (induction k)
  case 0
  show ?case
    by (intro exI [of _ "[]"]) (simp add: crowd_def new_system_def new_server_def)
next
  case (Suc k)
  then obtain as where as: "sys_run J serve junk as (new_system (new_server\<lparr>ss_pc := LHead\<rparr>) sv) = Some (crowd k sv)"
    by auto
  have "sys_run J serve junk [Loop, Accept (int k), Loop, Loop, Loop, Loop] (crowd k sv) = Some (crowd (Suc k) sv)"
    using Suc.prems by (subst sys_accept_one [OF alive_crowd]) (simp_all add: crowd_def new_server_def)
  then show ?case
    using sys_run_then [OF as] by blast
qed

definition crowded :: "nat \<Rightarrow> 'v \<Rightarrow> (unit, 'v, 'j) system" where
  "crowded k sv = \<lparr>sy_srv = new_server\<lparr>ss_pc := LAccept, ss_conns := map int [0..<k], ss_started := map int [0..<k]\<rparr>,
     sy_conns = (Connection 0 sv 2)\<lparr>cn_pc := AtRecv\<rparr> # map (\<lambda>i. Connection (int i) sv 2) [1..<k], sy_service = sv\<rparr>"

lemma sys_crowded:
  assumes "0 < k" "k \<le> 16"
  shows "\<exists>as. sys_run J serve junk as (new_system (new_server\<lparr>ss_pc := LHead\<rparr>) sv) = Some (crowded k sv)"
proof -
  have upt: "[0..<k] = 0 # [1..<k]"
    using assms(1) by (simp add: upt_conv_Cons)
  obtain as where as: "sys_run J serve junk as (new_system (new_server\<lparr>ss_pc := LHead\<rparr>) sv) = Some (crowd k sv)"
    using sys_crowd [OF assms(2), of J serve junk sv] by blast
  let ?v = "new_server\<lparr>ss_pc := LAccept, ss_conns := map int [0..<k], ss_started := map int [0..<k]\<rparr>"
  let ?s = "crowd k sv\<lparr>sy_srv := ?v\<rparr>"
  have "sys_run J serve junk [Loop] (crowd k sv) = Some ?s"
    using sys_loop [OF alive_crowd [of k sv], of ?v J serve junk]
    by (simp add: crowd_def loop_step_def shutting_def new_server_def)
  moreover have "alive ?s"
    using alive_crowd [of k sv] by (simp add: alive_def)
  then have "sys_run J serve junk (replicate (Suc 0) (Work 0)) ?s = Some (crowded k sv)"
    using assms(1)
    by (subst sys_works [of 0 ?s J serve junk 0 "(Connection 0 sv 2)\<lparr>cn_pc := AtRecv\<rparr>"])
       (auto simp: crowd_def crowded_def upt Connection_def worker_step.simps is_dead_def)
  ultimately show ?thesis
    using sys_run_then [OF as sys_run_then] by blast
qed

lemma crowded_parts:
  assumes "0 < k"
  shows "alive (crowded k sv)" "ss_pc (sy_srv (crowded k sv)) = LAccept"
    "ss_conns (sy_srv (crowded k sv)) = int 0 # map int [1..<k]"
    "sy_conns (crowded k sv) ! 0 = (Connection 0 sv 2)\<lparr>cn_pc := AtRecv\<rparr>"
    "length (sy_conns (crowded k sv)) = k" "sy_service (crowded k sv) = sv"
  using assms by (auto simp: crowded_def upt_conv_Cons alive_def list_ex_iff Connection_def is_dead_def)

text \<open>
  (C10) The server's resources, in every interleaving of the accept loop, the calls of \<open>shutdown\<close>
  and all workers: at most 16 worker threads run; a connection in the pool is not touched by
  the server until it is evicted; and one that was evicted is deleted only after its thread
  has ended, so no thread uses a deleted connection.
\<close>
theorem server_resources:
  assumes "running v" "sys_run J serve junk as (new_system v sv) = Some s"
  shows "finite (threads s) \<and> card (threads s) \<le> 16
    \<and> (\<forall>i < length (sy_conns s).
        (int i \<in> set (ss_conns (sy_srv s)) - set (victim (ss_pc (sy_srv s))) \<longrightarrow>
           cn_ev (sy_conns s ! i) = ECall 2 \<and> n_closed (cn_wire (sy_conns s ! i)) = [])
      \<and> (evicted s i \<or> (\<exists>c. ss_pc (sy_srv s) = LDelete c (int i)) \<longrightarrow> cn_pc (sy_conns s ! i) = AtEnd)
      \<and> (evicted s i \<longrightarrow> n_closed (cn_wire (sy_conns s ! i))
           = [cn_sock (sy_conns s ! i), cn_sock (sy_conns s ! i)]))"
proof -
  note inv = sys_invariant [OF assms]
  have "length (ss_conns (sy_srv s)) \<le> 16"
    using inv by (auto simp: sys_inv_def pool_inv_def kept_def split: loop_pc.splits)
  then have "card (nat ` set (ss_conns (sy_srv s))) \<le> 16"
    by (meson card_image_le card_length le_trans List.finite_set)
  then have "finite (threads s)" "card (threads s) \<le> 16"
    using threads_in_pool [OF inv] by (meson List.finite_set finite_imageI finite_subset card_mono le_trans)+
  then show ?thesis
    using evicted_ended [OF inv] member_untouched [OF inv] deleted_ended [OF inv] by blast
qed




theorem server_resources_witness:
  "\<exists>as s. sys_run json_api on_request (\<lambda>_. NUL) as
      (new_system (new_server\<lparr>ss_pc := LHead\<rparr>) sample_service) = Some s
    \<and> length (sy_conns s) = 17 \<and> card (threads s) \<le> 16 \<and> evicted s 0
    \<and> cn_pc (sy_conns s ! 0) = AtEnd \<and> n_closed (cn_wire (sy_conns s ! 1)) = []"
proof -
  let ?s = "crowded 16 sample_service :: (unit, (nat, json) service, json) system"
  let ?c = "sy_conns ?s ! 0"
  obtain as where as: "sys_run json_api on_request (\<lambda>_. NUL) as
      (new_system (new_server\<lparr>ss_pc := LHead\<rparr>) sample_service) = Some ?s"
    using sys_crowded [of 16 json_api on_request "\<lambda>_. NUL" sample_service] by auto
  obtain bs t where bs: "sys_run json_api on_request (\<lambda>_. NUL) bs ?s = Some t" and
    t: "t = ?s\<lparr>sy_conns := (sy_conns ?s)[0 := buried json_api sample_service ?c] @ [Connection 16 sample_service 2],
      sy_srv := (sy_srv ?s)\<lparr>ss_mutex := False, ss_pc := LHead, ss_closed := [0, 0],
        ss_conns := map int [1..<16] @ [16], ss_started := map int [0..<16] @ [16]\<rparr>\<rparr>"
    using sys_admits [OF json_api_laws json_api_closed_text crowded_parts(1) refl crowded_parts(2), of 16 sample_service 0
        "map int [1..<16]" ?c on_request "\<lambda>_. NUL" 16] crowded_parts [of 16 sample_service]
    by (auto simp: crowded_def new_server_def Connection_def)
  note run = sys_run_then [OF as bs]
  have "length (sy_conns t) = 17"
    by (simp add: t crowded_def)
  moreover have "evicted t 0"
    by (simp add: t evicted_def made_def starting_def victim_def upt_conv_Cons)
  moreover have "int 1 \<in> set (ss_conns (sy_srv t)) - set (victim (ss_pc (sy_srv t)))"
    by (simp add: t victim_def)
  moreover have "running (new_server\<lparr>ss_pc := LHead\<rparr>)"
    by (simp add: running_def new_server_def)
  ultimately show ?thesis
    using server_resources [OF _ run] run by fastforce
qed

text \<open>
  (C19) A full server lets a newcomer in: when the pool holds 16 connections and the worker of the
  oldest waits for a message, there is a run in which no client sends a byte or closes, that
  accepts the next client at any descriptor, starts its worker, keeps the other 15 as they were,
  and tells the oldest client SOCKET_CLOSED, which that client takes for
  ServerCloseSocketException. At every point of that run at which the socket of the oldest has been closed,
  its thread has ended and this frame is all it has sent.
\<close>
theorem full_server_admits:
  assumes "json_laws J" "length (build_error J SOCKET_CLOSED) < 2 ^ 31"
    and "running v" "sys_run J serve junk as (new_system v sv) = Some s" "alive s"
    and "ss_pc (sy_srv s) = LAccept" "ss_conns (sy_srv s) = int d # rest" "length rest = 15"
    and "cn_pc (sy_conns s ! d) = AtRecv" "n_reads (cn_wire (sy_conns s ! d)) = []"
      "n_writes (cn_wire (sy_conns s ! d)) = []"
  shows "\<exists>bs t. list_all silent bs \<and> sys_run J serve junk bs s = Some t \<and> ss_pc (sy_srv t) = LHead
    \<and> ss_conns (sy_srv t) = rest @ [int (length (sy_conns s))]
    \<and> length (sy_conns s) \<in> threads t \<and> d \<notin> threads t \<and> sy_service t = sy_service s
    \<and> sy_conns t ! length (sy_conns s) = Connection sock (sy_service s) 2
    \<and> (\<forall>i < length (sy_conns s). i \<noteq> d \<longrightarrow> sy_conns t ! i = sy_conns s ! i)
    \<and> n_sent (cn_wire (sy_conns t ! d))
        = n_sent (cn_wire (sy_conns s ! d)) @ frame (build_error J SOCKET_CLOSED)
    \<and> n_closed (cn_wire (sy_conns t ! d)) = [cn_sock (sy_conns s ! d), cn_sock (sy_conns s ! d)]
    \<and> (\<forall>cs us u. bs = cs @ us \<and> sys_run J serve junk cs s = Some u \<and> n_closed (cn_wire (sy_conns u ! d)) \<noteq> []
        \<longrightarrow> cn_pc (sy_conns u ! d) = AtEnd \<and> n_sent (cn_wire (sy_conns u ! d))
            = n_sent (cn_wire (sy_conns s ! d)) @ frame (build_error J SOCKET_CLOSED))
    \<and> parse_response J (build_error J SOCKET_CLOSED) = Throws (Server ServerCloseSocketException)"
proof -
  note inv = sys_invariant [OF assms(3,4)]
  let ?v = "sy_srv s" and ?c = "sy_conns s ! d" and ?n = "length (sy_conns s)"
  have made: "made ?v = map int [0..<?n]" "made ?v = ss_started ?v"
    using inv assms(6) by (simp_all add: sys_inv_def pending_def made_def starting_def)
  have "int d \<in> set (made ?v)"
    using inv assms(7) by (simp add: sys_inv_def pool_inv_def)
  moreover from this have "d < ?n"
    unfolding made(1) by auto
  ultimately have parts: "ss_pool_size ?v = POOL_SIZE" "\<not> ss_mutex ?v" "int d \<in> set (ss_started ?v)" "d < ?n"
    using inv assms(6) made(2)
    by (simp_all add: sys_inv_def pool_inv_def mutex_inv_def pushing_def closing_def)
  have c: "cn_ev ?c = ECall 2" "n_closed (cn_wire ?c) = []"
    using member_untouched [OF inv parts(4)] assms(6,7) by (simp_all add: victim_def)
  have free: "cn_mutex ?c = None"
    using inv parts(4) member_free [OF _ c(1) assms(9)] by (simp add: sys_inv_def)
  obtain bs where run: "list_all silent bs" "sys_run J serve junk bs s = Some (s\<lparr>
      sy_conns := (sy_conns s)[d := buried J (sy_service s) ?c] @ [Connection sock (sy_service s) 2],
      sy_srv := ?v\<lparr>ss_mutex := False, ss_pc := LHead, ss_closed := ss_closed ?v @ [int d, int d],
        ss_conns := rest @ [int ?n], ss_started := ss_started ?v @ [int ?n]\<rparr>\<rparr>)" (is "_ = Some ?t")
    using sys_admits [OF assms(1,2,5) refl assms(6) parts(1,2) assms(7,8) parts(3,4) refl assms(9) free c(1)
        assms(10,11)] by blast
  have at_d: "sy_conns ?t ! d = buried J (sy_service s) ?c" "sy_conns ?t ! ?n = Connection sock (sy_service s) 2"
    using parts(4) by (simp_all add: nth_append)
  then have "?n \<in> threads ?t" "d \<notin> threads ?t"
    by (simp_all add: threads_def Connection_def buried_def told_def)
  moreover have "\<forall>i < ?n. i \<noteq> d \<longrightarrow> sy_conns ?t ! i = sy_conns s ! i"
    by (simp add: nth_append)
  moreover have "cn_pc (sy_conns u ! d) = AtEnd \<and> n_sent (cn_wire (sy_conns u ! d))
      = n_sent (cn_wire ?c) @ frame (build_error J SOCKET_CLOSED)"
    if "bs = cs @ us" "sys_run J serve junk cs s = Some u" "n_closed (cn_wire (sy_conns u ! d)) \<noteq> []" for cs us u
    using closed_is_final [OF sys_invariant [OF assms(3) sys_run_then [OF assms(4) that(2)]] _ that(3), of J serve junk us ?t]
      run(2) that(1,2) sys_run_length [OF that(2)] parts(4) at_d
    by (simp add: sys_run_append buried_def told_def)
  ultimately show ?thesis
    using parse_build_error [OF assms(1), of ServerCloseSocketException] c(2) run at_d
    by (intro exI conjI) (assumption | simp add: buried_def told_def)+
qed

theorem full_server_admits_witness:
  "\<exists>as t. sys_run json_api on_request (\<lambda>_. NUL) as (crowded 16 sample_service) = Some t
    \<and> ss_conns (sy_srv t) = map int [1..<16] @ [16] \<and> 16 \<in> threads t
    \<and> n_sent (cn_wire (sy_conns t ! 0)) = frame (build_error json_api SOCKET_CLOSED)
    \<and> n_closed (cn_wire (sy_conns t ! 0)) = [0, 0]"
proof -
  let ?s = "crowded 16 sample_service :: (unit, (nat, json) service, json) system"
  obtain as where as: "sys_run json_api on_request (\<lambda>_. NUL) as
      (new_system (new_server\<lparr>ss_pc := LHead\<rparr>) sample_service) = Some ?s"
    using sys_crowded [of 16 json_api on_request "\<lambda>_. NUL" sample_service] by auto
  have start: "running (new_server\<lparr>ss_pc := LHead\<rparr>)"
    by (simp add: running_def new_server_def)
  have "0 < (16 :: nat)"
    by simp
  note parts = crowded_parts [OF this, of sample_service]
  have rest: "length (map int [1..<16]) = 15"
    by simp
  have waits: "cn_pc (sy_conns ?s ! 0) = AtRecv" "n_reads (cn_wire (sy_conns ?s ! 0)) = []"
      "n_writes (cn_wire (sy_conns ?s ! 0)) = []" "n_sent (cn_wire (sy_conns ?s ! 0)) = []"
      "cn_sock (sy_conns ?s ! 0) = 0"
    by (simp_all only: parts(4)) (simp_all add: Connection_def)
  obtain bs t where "sys_run json_api on_request (\<lambda>_. NUL) bs ?s = Some t"
      "ss_conns (sy_srv t) = map int [1..<16] @ [int (length (sy_conns ?s))]" "length (sy_conns ?s) \<in> threads t"
      "n_sent (cn_wire (sy_conns t ! 0)) = n_sent (cn_wire (sy_conns ?s ! 0)) @ frame (build_error json_api SOCKET_CLOSED)"
      "n_closed (cn_wire (sy_conns t ! 0)) = [cn_sock (sy_conns ?s ! 0), cn_sock (sy_conns ?s ! 0)]"
    using full_server_admits [OF json_api_laws json_api_closed_text start as parts(1-3) rest waits(1-3), of 20] by blast
  then show ?thesis
    unfolding parts(5) waits(4,5) by (intro exI [of _ bs] exI [of _ t]) simp
qed

end
