(* ===== verification/SockStop.thy ===== *)
theory SockStop
  imports SockSystem
begin

text \<open>
  sockserver.hpp and sockserver.cpp, the whole server with \<open>stop\<close>: the system of \<open>SockSystem\<close> and the thread
  that calls \<open>stop\<close>, whose calls of \<open>shutdown\<close> are run through step by step too. So a connection may be
  shut down by two threads at once, and one may delete it while the other is inside.
\<close>

section \<open>The system with \<open>stop\<close>\<close>

record ('h, 'v, 'j) stopping =
  sp_sys :: "('h, 'v, 'j) system"
  sp_call :: "(nat \<times> evictor_pc) option"   \<comment> \<open>the connection \<open>stop\<close> is shutting down, and where it is\<close>
  sp_freed :: "nat list"                     \<comment> \<open>the connections the loop has deleted\<close>

datatype stop_action = Sys action | Stopper

text \<open>
  A step of \<open>shutdown\<close> by a thread that is at \<open>e\<close>, whatever the other one is doing. The thread of a
  connection that is in the pool but not started is not active: there is nothing to join.
\<close>

definition shutdown_step ::
  "bool \<Rightarrow> ('v, 'j) conn \<Rightarrow> evictor_pc \<Rightarrow> (('v, 'j) conn \<times> evictor_pc) option" where
  "shutdown_step active c e =
     (case e of
        EUnlocked n \<Rightarrow>
          (if \<not> active then Some (c, EJoined n)
           else map_option (\<lambda>c'. (c'\<lparr>cn_ev := cn_ev c\<rparr>, cn_ev c')) (evictor_step (c\<lparr>cn_ev := e\<rparr>)))
      | _ \<Rightarrow> map_option (\<lambda>c'. (c'\<lparr>cn_ev := cn_ev c\<rparr>, cn_ev c')) (evictor_step (c\<lparr>cn_ev := e\<rparr>)))"

text \<open>The connection of the iterator, where \<open>stop\<close> is about to call its \<open>shutdown\<close>.\<close>

definition entering :: "'h sockserver \<Rightarrow> nat option" where
  "entering v =
     (case ss_stopper v of
        PClose r \<Rightarrow>
          (if 0 < r \<and> r \<le> length (ss_conns v) then Some (nat (ss_conns v ! (length (ss_conns v) - r))) else None)
      | _ \<Rightarrow> None)"

definition with_srv :: "('h, 'v, 'j) stopping \<Rightarrow> 'h sockserver \<Rightarrow> ('h, 'v, 'j) stopping" where
  "with_srv s v = s\<lparr>sp_sys := (sp_sys s)\<lparr>sy_srv := v\<rparr>\<rparr>"

definition stopper_do :: "('h, 'v, 'j) stopping \<Rightarrow> ('h, 'v, 'j) stopping option" where
  "stopper_do s =
     (let v = sy_srv (sp_sys s); cs = sy_conns (sp_sys s) in
      case sp_call s of
        None \<Rightarrow>
          (case entering v of
             Some d \<Rightarrow> Some (s\<lparr>sp_call := Some (d, ECall 1)\<rparr>)
           | None \<Rightarrow> map_option (with_srv s) (stop_step v))
      | Some (d, e) \<Rightarrow>
          (if e = ECall 0 then map_option (\<lambda>v'. (with_srv s v')\<lparr>sp_call := None\<rparr>) (stop_step v)
           else if d \<in> set (sp_freed s) then Some (with_srv s (v\<lparr>ss_stopper := PDead UseAfterFree\<rparr>))
           else map_option (\<lambda>(c, e'). s\<lparr>sp_sys := (sp_sys s)\<lparr>sy_conns := cs[d := c]\<rparr>, sp_call := Some (d, e')\<rparr>)
                  (shutdown_step (int d \<in> set (ss_started v)) (cs ! d) e)))"

definition stop_do ::
  "'j jconer \<Rightarrow> ('v \<times> 'j request \<Rightarrow> (exn, int) outcome \<times> 'v \<times> 'j request) \<Rightarrow> (nat \<Rightarrow> char) \<Rightarrow>
   stop_action \<Rightarrow> ('h, 'v, 'j) stopping \<Rightarrow> ('h, 'v, 'j) stopping option" where
  "stop_do J serve junk a s =
     (let v = sy_srv (sp_sys s) in
      if list_ex (\<lambda>c. is_dead (cn_pc c)) (sy_conns (sp_sys s))
         \<or> (case ss_stopper v of PDead f \<Rightarrow> True | _ \<Rightarrow> False) \<or> (case ss_pc v of LDead f \<Rightarrow> True | _ \<Rightarrow> False)
      then None
      else
        (case a of
           Stopper \<Rightarrow> stopper_do s
         | Sys b \<Rightarrow>
             map_option (\<lambda>t. s\<lparr>sp_sys := t, sp_freed := (case (b, ss_pc v) of
                   (Return, LDelete c d) \<Rightarrow> nat d # sp_freed s | _ \<Rightarrow> sp_freed s)\<rparr>)
               (sys_do J serve junk b (sp_sys s))))"

fun stop_run ::
  "'j jconer \<Rightarrow> ('v \<times> 'j request \<Rightarrow> (exn, int) outcome \<times> 'v \<times> 'j request) \<Rightarrow> (nat \<Rightarrow> char) \<Rightarrow>
   stop_action list \<Rightarrow> ('h, 'v, 'j) stopping \<Rightarrow> ('h, 'v, 'j) stopping option" where
  "stop_run J serve junk [] s = Some s"
| "stop_run J serve junk (a # as) s = Option.bind (stop_do J serve junk a s) (stop_run J serve junk as)"

text \<open>A run that ends at the latest when \<open>\_close_connections\<close> returns.\<close>

fun closing_run ::
  "'j jconer \<Rightarrow> ('v \<times> 'j request \<Rightarrow> (exn, int) outcome \<times> 'v \<times> 'j request) \<Rightarrow> (nat \<Rightarrow> char) \<Rightarrow>
   stop_action list \<Rightarrow> ('h, 'v, 'j) stopping \<Rightarrow> ('h, 'v, 'j) stopping option" where
  "closing_run J serve junk [] s = Some s"
| "closing_run J serve junk (a # as) s =
     (if closing (ss_stopper (sy_srv (sp_sys s)))
      then Option.bind (stop_do J serve junk a s) (closing_run J serve junk as) else None)"

text \<open>\<open>stop\<close> is called; its first step takes the mutex of the server.\<close>

definition before_stop :: "('h, 'v, 'j) system \<Rightarrow> ('h, 'v, 'j) stopping" where
  "before_stop s = \<lparr>sp_sys = s, sp_call = None, sp_freed = []\<rparr>"

text \<open>The loop is not taking a connection out of the pool, and holds no mutex.\<close>

definition not_evicting :: "loop_pc \<Rightarrow> bool" where
  "not_evicting pc = (case pc of
       LFront c \<Rightarrow> False | LShutdown c d \<Rightarrow> False | LPop c d \<Rightarrow> False | LDelete c d \<Rightarrow> False
     | LPush c \<Rightarrow> False | LDead f \<Rightarrow> False | _ \<Rightarrow> True)"

section \<open>Before \<open>stop\<close>\<close>

text \<open>A thread that is not started has not moved.\<close>

definition unstarted_inv :: "('h, 'v, 'j) system \<Rightarrow> bool" where
  "unstarted_inv s \<longleftrightarrow> (\<forall>i<length (sy_conns s). int i \<notin> set (ss_started (sy_srv s)) \<longrightarrow> cn_pc (sy_conns s ! i) = AtLoop)"

lemma loop_step_started: "loop_step c v = Some v' \<Longrightarrow> set (ss_started v) \<subseteq> set (ss_started v')"
  by (auto simp: loop_step_def split: loop_pc.splits if_splits list.splits)

lemma evictor_pc_same: "evictor_step c = Some c' \<Longrightarrow> cn_pc c' = cn_pc c"
  by (auto simp: evictor_step.simps split: if_splits evictor_pc.splits nat.splits)

lemma unstarted_do:
  assumes "sys_do J serve junk a s = Some t" "unstarted_inv s"
  shows "unstarted_inv t"
proof (cases a)
  case (Work i)
  then show ?thesis
    using assms by (auto simp: sys_do_def Let_def unstarted_inv_def update_nth split: if_splits)
next
  case Call
  then show ?thesis
    using assms by (auto simp: sys_do_def Let_def unstarted_inv_def update_nth evictor_pc_same
        split: if_splits option.splits)
next
  case (Accept sock)
  then show ?thesis
    using assms loop_step_started
    by (fastforce simp: sys_do_def Let_def unstarted_inv_def nth_append less_Suc_eq Connection_def split: if_splits)
next
  case Loop
  then show ?thesis
    using assms loop_step_started by (fastforce simp: sys_do_def Let_def unstarted_inv_def split: if_splits)
next
  case Return
  then show ?thesis
    using assms loop_step_started
    by (fastforce simp: sys_do_def Let_def unstarted_inv_def split: if_splits option.splits)
next
  case (Deliver i rs ws)
  then show ?thesis
    using assms by (auto simp: sys_do_def Let_def unstarted_inv_def update_nth deliver_def split: if_splits)
qed

lemma unstarted:
  assumes "running v" "sys_run J serve junk as (new_system v sv) = Some s"
  shows "unstarted_inv s"
  using assms(2)
  by (induction rule: sys_run_induct) (simp_all add: unstarted_do, simp add: unstarted_inv_def new_system_def)

section \<open>A connection in the pool\<close>

text \<open>A thread that makes no more transfers.\<close>

definition over :: "('v, 'j) conn \<Rightarrow> bool" where
  "over c \<longleftrightarrow> cn_pc c = AtEnd \<or> cn_pc c = AtLoop \<and> \<not> cn_connected c"

definition marked :: "evictor_pc \<Rightarrow> bool" where
  "marked e = (case e of ECall n \<Rightarrow> n = 0 | ELocked n \<Rightarrow> False | _ \<Rightarrow> True)"

text \<open>The connection, when the one call of \<open>shutdown\<close> that it gets from \<open>stop\<close> is at \<open>e\<close>.\<close>

definition shut_ok :: "('v, 'j) conn \<Rightarrow> evictor_pc \<Rightarrow> bool" where
  "shut_ok c e \<longleftrightarrow> lock_inv (c\<lparr>cn_ev := e\<rparr>) \<and> to_close e \<le> 1
     \<and> n_closed (cn_wire c) = replicate (1 - to_close e) (cn_sock c)
     \<and> (marked e \<longrightarrow> \<not> cn_connected c) \<and> (joined e \<or> to_close e = 0 \<longrightarrow> over c)"

lemma worker_disconnects: "worker_step J serve junk c = Some c' \<Longrightarrow> cn_connected c' \<Longrightarrow> cn_connected c"
  by (auto simp: worker_step.simps split: worker_pc.splits prod.splits outcome.splits if_splits)

lemma worker_over: "worker_step J serve junk c = Some c' \<Longrightarrow> over c \<Longrightarrow> over c'"
  by (auto simp: over_def worker_step.simps)

lemma worker_shut_ok:
  assumes "worker_step J serve junk (c\<lparr>cn_service := sv\<rparr>) = Some c'" "shut_ok c e"
  shows "shut_ok c' e"
proof -
  have "over (c\<lparr>cn_service := sv\<rparr>) = over c" "lock_inv (c\<lparr>cn_service := sv, cn_ev := e\<rparr>) = lock_inv (c\<lparr>cn_ev := e\<rparr>)"
    by (simp_all add: over_def lock_inv_def)
  moreover have "lock_inv (c'\<lparr>cn_ev := e\<rparr>)" if "lock_inv (c\<lparr>cn_service := sv, cn_ev := e\<rparr>)"
    using that worker_moves [OF assms(1)] by (auto simp: lock_inv_def) (simp_all add: in_lock_def)
  ultimately show ?thesis
    using assms(2) worker_moves [OF assms(1)] worker_disconnects [OF assms(1)] worker_over [OF assms(1)]
    by (auto simp: shut_ok_def)
qed

lemma deliver_shut_ok: "shut_ok (deliver rs ws c) e = shut_ok c e"
  by (simp add: shut_ok_def deliver_def lock_inv_def over_def)

lemma shutdown_step_ok:
  assumes "shutdown_step active c e = Some (c', e')" "shut_ok c e" "\<not> active \<Longrightarrow> cn_pc c = AtLoop"
  shows "shut_ok c' e' \<and> cn_pc c' = cn_pc c"
proof (cases e)
  case (ECall n)
  then show ?thesis
    using assms by (cases n) (auto simp: shutdown_step_def evictor_step.simps shut_ok_def lock_inv_def pc_defs marked_def
        split: if_splits worker_pc.splits)
next
  case (EUnlocked n)
  then show ?thesis
    using assms by (auto simp: shutdown_step_def evictor_step.simps shut_ok_def lock_inv_def pc_defs marked_def over_def
        split: if_splits)
next
  case (EJoined n)
  then show ?thesis
    using assms by (auto simp: shutdown_step_def evictor_step.simps shut_ok_def lock_inv_def pc_defs marked_def over_def
        split: if_splits)
qed (use assms in \<open>auto simp: shutdown_step_def evictor_step.simps shut_ok_def lock_inv_def pc_defs marked_def over_def
        split: if_splits\<close>)

section \<open>The order of a thread's end and the close\<close>

lemma stop_run_append:
  "stop_run J serve junk (as @ bs) s = Option.bind (stop_run J serve junk as s) (stop_run J serve junk bs)"
  by (induction as arbitrary: s) (auto simp: Option.bind_assoc intro!: bind_option_cong)

text \<open>
  In any run, whatever the loop and \<open>stop\<close> do to a connection whose thread was started: it is closed only after
  both the join and the end of the thread; and a thread that has ended sends nothing more.
\<close>

definition ended_first :: "nat \<Rightarrow> ('h, 'v, 'j) stopping \<Rightarrow> bool" where
  "ended_first i s \<longleftrightarrow> (let c = sy_conns (sp_sys s) ! i in
     int i \<in> set (ss_started (sy_srv (sp_sys s))) \<and> i < length (sy_conns (sp_sys s))
     \<and> (n_closed (cn_wire c) \<noteq> [] \<or> joined (cn_ev c) \<or> (\<exists>e. sp_call s = Some (i, e) \<and> joined e) \<longrightarrow> cn_pc c = AtEnd))"

lemma ended_first_closed:
  "ended_first i s \<Longrightarrow> n_closed (cn_wire (sy_conns (sp_sys s) ! i)) \<noteq> [] \<Longrightarrow> cn_pc (sy_conns (sp_sys s) ! i) = AtEnd"
  by (simp add: ended_first_def Let_def)

lemma shutdown_step_active:
  "shutdown_step True c e = map_option (\<lambda>c'. (c'\<lparr>cn_ev := cn_ev c\<rparr>, cn_ev c')) (evictor_step (c\<lparr>cn_ev := e\<rparr>))"
  by (simp add: shutdown_step_def split: evictor_pc.splits)

lemma evictor_joins:
  assumes "evictor_step c = Some c'" "n_closed (cn_wire c) \<noteq> [] \<or> joined (cn_ev c) \<longrightarrow> cn_pc c = AtEnd"
  shows "n_closed (cn_wire c') \<noteq> [] \<or> joined (cn_ev c') \<longrightarrow> cn_pc c = AtEnd"
  using assms by (auto simp: evictor_step.simps joined_def split: if_splits evictor_pc.splits nat.splits)

lemma shutdown_joins:
  assumes "shutdown_step True c e = Some (c', e')" "n_closed (cn_wire c) \<noteq> [] \<or> joined e \<longrightarrow> cn_pc c = AtEnd"
  shows "(n_closed (cn_wire c') \<noteq> [] \<or> joined e' \<longrightarrow> cn_pc c = AtEnd) \<and> cn_pc c' = cn_pc c \<and> cn_ev c' = cn_ev c"
proof -
  obtain u where u: "evictor_step (c\<lparr>cn_ev := e\<rparr>) = Some u" "c' = u\<lparr>cn_ev := cn_ev c\<rparr>" "e' = cn_ev u"
    using assms(1) by (auto simp: shutdown_step_active)
  then show ?thesis
    using evictor_joins [OF u(1)] evictor_sends_nothing [OF u(1)] assms(2) by simp
qed

lemma loop_starts: "loop_step c v = Some v' \<Longrightarrow> x \<in> set (ss_started v) \<Longrightarrow> x \<in> set (ss_started v')"
  using loop_step_started by blast

lemma ended_first_sys:
  assumes "sys_do J serve junk b (sp_sys s) = Some t" "ended_first i s"
  shows "ended_first i (s\<lparr>sp_sys := t, sp_freed := fr\<rparr>)"
proof (cases b)
  case (Work j)
  then obtain c where c: "worker_step J serve junk ((sy_conns (sp_sys s) ! j)\<lparr>cn_service := sy_service (sp_sys s)\<rparr>) = Some c"
      "t = (sp_sys s)\<lparr>sy_conns := (sy_conns (sp_sys s))[j := c], sy_service := cn_service c\<rparr>"
    using assms(1) by (auto simp: sys_do_def Let_def split: if_splits)
  then show ?thesis
    using assms(2) worker_moves [OF c(1)]
    by (cases "j = i") (auto simp: ended_first_def Let_def update_nth)
next
  case (Deliver j rs ws)
  then show ?thesis
    using assms by (auto simp: sys_do_def Let_def ended_first_def deliver_def update_nth split: if_splits)
next
  case Call
  then obtain d c where c: "evictor_step (sy_conns (sp_sys s) ! d) = Some c"
      "t = (sp_sys s)\<lparr>sy_conns := (sy_conns (sp_sys s))[d := c]\<rparr>"
    using assms(1) by (auto simp: sys_do_def Let_def split: if_splits option.splits)
  then show ?thesis
    using assms(2) evictor_joins [OF c(1)] evictor_sends_nothing [OF c(1)]
    by (cases "d = i") (auto simp: ended_first_def Let_def update_nth)
next
  case (Accept sock)
  then show ?thesis
    using assms by (auto simp: sys_do_def Let_def ended_first_def nth_append split: if_splits dest: loop_starts)
next
  case Loop
  then show ?thesis
    using assms by (auto simp: sys_do_def Let_def ended_first_def split: if_splits dest: loop_starts)
next
  case Return
  then obtain v where v: "loop_step 0 (sy_srv (sp_sys s)) = Some v" "t = (sp_sys s)\<lparr>sy_srv := v\<rparr>"
    using assms(1) by (auto simp: sys_do_def Let_def split: if_splits option.splits)
  then show ?thesis
    using assms(2) loop_starts [OF v(1)] by (simp add: ended_first_def Let_def)
qed

lemma stop_step_started: "stop_step v = Some v' \<Longrightarrow> ss_started v' = ss_started v"
  by (auto simp: stop_step_def SockServer_close_connections_def Let_def split: stop_pc.splits if_splits nat.splits)

lemma ended_first_stopper:
  assumes "stopper_do s = Some t" "ended_first i s"
  shows "ended_first i t"
proof (cases "\<exists>d e. sp_call s = Some (d, e) \<and> e \<noteq> ECall 0 \<and> d \<notin> set (sp_freed s)")
  case True
  then obtain d e where de: "sp_call s = Some (d, e)" "e \<noteq> ECall 0" "d \<notin> set (sp_freed s)"
    by blast
  let ?cs = "sy_conns (sp_sys s)" and ?on = "int d \<in> set (ss_started (sy_srv (sp_sys s)))"
  obtain c e' where c: "shutdown_step ?on (?cs ! d) e = Some (c, e')"
      "t = s\<lparr>sp_sys := (sp_sys s)\<lparr>sy_conns := ?cs[d := c]\<rparr>, sp_call := Some (d, e')\<rparr>"
    using assms(1) de by (auto simp: stopper_do_def Let_def)
  show ?thesis
  proof (cases "d = i")
    case True
    then show ?thesis
      using assms(2) c de shutdown_joins [of "?cs ! d" e c e'] by (auto simp: ended_first_def Let_def)
  next
    case False
    then show ?thesis
      using assms(2) c de by (auto simp: ended_first_def Let_def)
  qed
next
  case False
  then show ?thesis
    using assms
    by (auto simp: stopper_do_def Let_def ended_first_def with_srv_def joined_def dest!: stop_step_started
        split: option.splits if_splits)
qed

lemma ended_first_do:
  assumes "stop_do J serve junk a s = Some t" "ended_first i s"
  shows "ended_first i t"
proof (cases a)
  case Stopper
  then show ?thesis
    using assms ended_first_stopper by (auto simp: stop_do_def Let_def split: if_splits)
next
  case (Sys b)
  then show ?thesis
    using assms ended_first_sys by (auto simp: stop_do_def Let_def split: if_splits)
qed

lemma ended_first_run: "stop_run J serve junk as s = Some t \<Longrightarrow> ended_first i s \<Longrightarrow> ended_first i t"
  by (induction as arbitrary: s) (auto simp: Option.bind_eq_Some_conv dest: ended_first_do)

lemma closing_is_run: "closing_run J serve junk as s = Some t \<Longrightarrow> stop_run J serve junk as s = Some t"
  by (induction as arbitrary: s) (auto simp: Option.bind_eq_Some_conv split: if_splits)

lemma shutdown_sends_nothing:
  "shutdown_step b c e = Some (c', e') \<Longrightarrow> cn_pc c' = cn_pc c \<and> n_sent (cn_wire c') = n_sent (cn_wire c)"
  using evictor_sends_nothing [of "c\<lparr>cn_ev := e\<rparr>"]
  by (auto simp: shutdown_step_def split: evictor_pc.splits if_splits)

lemma finished_stop:
  assumes "stop_do J serve junk a s = Some t" "finished (sy_conns (sp_sys s)) i out"
  shows "finished (sy_conns (sp_sys t)) i out"
proof (cases a)
  case Stopper
  then show ?thesis
    using assms
    by (auto simp: stop_do_def stopper_do_def with_srv_def Let_def finished_def update_nth
        dest!: shutdown_sends_nothing split: if_splits option.splits)
next
  case (Sys b)
  then show ?thesis
    using assms finished_do by (auto simp: stop_do_def Let_def split: if_splits)
qed

lemma finished_stops:
  "stop_run J serve junk as s = Some t \<Longrightarrow> finished (sy_conns (sp_sys s)) i out \<Longrightarrow>
    finished (sy_conns (sp_sys t)) i out"
  by (induction as arbitrary: s) (auto simp: Option.bind_eq_Some_conv dest: finished_stop)

lemma stop_closed_is_final:
  assumes "ended_first i s" "stop_run J serve junk (as @ bs) s = Some t" "stop_run J serve junk as s = Some u"
    "n_closed (cn_wire (sy_conns (sp_sys u) ! i)) \<noteq> []"
  shows "cn_pc (sy_conns (sp_sys u) ! i) = AtEnd
    \<and> n_sent (cn_wire (sy_conns (sp_sys u) ! i)) = n_sent (cn_wire (sy_conns (sp_sys t) ! i))"
proof -
  have "stop_run J serve junk bs u = Some t"
    using assms(2,3) by (simp add: stop_run_append)
  note later = finished_stops [OF this, of i "n_sent (cn_wire (sy_conns (sp_sys u) ! i))"]
  have u: "ended_first i u"
    by (rule ended_first_run [OF assms(3,1)])
  then have "i < length (sy_conns (sp_sys u))"
    by (simp add: ended_first_def Let_def)
  then show ?thesis
    using ended_first_closed [OF u assms(4)] later by (simp add: finished_def)
qed

section \<open>While \<open>\_close_connections\<close> runs\<close>

definition place :: "('h, 'v, 'j) stopping \<Rightarrow> int list \<Rightarrow> nat \<Rightarrow> evictor_pc" where
  "place s pool i =
     (let at = ss_stopper (sy_srv (sp_sys s)) in
      if at = PClosed \<or> int i \<in> set (passed at pool) then ECall 0
      else (case sp_call s of Some (d, e) \<Rightarrow> if d = i then e else ECall 1 | None \<Rightarrow> ECall 1))"

definition stopper_ok :: "('h, 'v, 'j) stopping \<Rightarrow> int list \<Rightarrow> bool" where
  "stopper_ok s pool =
     (case ss_stopper (sy_srv (sp_sys s)) of
        PClose r \<Rightarrow> r \<le> length pool
          \<and> (case sp_call s of None \<Rightarrow> True | Some (d, e) \<Rightarrow> 0 < r \<and> int d = pool ! (length pool - r))
      | PNext r \<Rightarrow> 0 < r \<and> r \<le> length pool \<and> sp_call s = None
      | PClosed \<Rightarrow> sp_call s = None
      | _ \<Rightarrow> False)"

definition server_ok :: "'h sockserver \<Rightarrow> int list \<Rightarrow> bool" where
  "server_ok v pool \<longleftrightarrow> not_evicting (ss_pc v) \<and> ss_pool_size v = POOL_SIZE
     \<and> (if ss_stopper v = PClosed then ss_conns v = [] else ss_conns v = pool \<and> ss_mutex v)"

definition closing_inv :: "int list \<Rightarrow> ('h, 'v, 'j) stopping \<Rightarrow> bool" where
  "closing_inv pool s \<longleftrightarrow> length pool < 16 \<and> distinct pool
     \<and> set pool \<subseteq> int ` {0..<length (sy_conns (sp_sys s))} \<and> sp_freed s = []
     \<and> server_ok (sy_srv (sp_sys s)) pool \<and> stopper_ok s pool \<and> unstarted_inv (sp_sys s)
     \<and> (\<forall>i. int i \<in> set pool \<longrightarrow> shut_ok (sy_conns (sp_sys s) ! i) (place s pool i))"

lemma stop_takes_mutex:
  assumes "sys_inv s" "stop_do J serve junk Stopper (before_stop s) = Some u"
  shows "u = \<lparr>sp_sys = s\<lparr>sy_srv := (sy_srv s)\<lparr>ss_mutex := True,
      ss_stopper := PClose (length (ss_conns (sy_srv s)))\<rparr>\<rparr>, sp_call = None, sp_freed = []\<rparr>"
  using assms
  by (auto simp: sys_inv_def stop_do_def stopper_do_def before_stop_def entering_def with_srv_def stop_step_def
      SockServer_close_connections_def Let_def split: if_splits)

lemma closing_inv_called:
  assumes "sys_inv s" "unstarted_inv s" "length (ss_conns (sy_srv s)) < 16" "not_evicting (ss_pc (sy_srv s))"
    "stop_do J serve junk Stopper (before_stop s) = Some u"
  shows "closing_inv (ss_conns (sy_srv s)) u"
proof -
  note u = stop_takes_mutex [OF assms(1,5)]
  let ?v = "sy_srv s"
  have fifo: "fifo_inv ?v" "ss_stopper ?v = PIdle" and names: "made ?v @ pending (ss_pc ?v) = map int [0..<length (sy_conns s)]"
    and parts: "\<And>i. i < length (sy_conns s) \<Longrightarrow> conn_ok (sy_conns s ! i) \<and> ev_ok ?v i (cn_ev (sy_conns s ! i))"
    and size: "ss_pool_size ?v = POOL_SIZE"
    using assms(1) by (simp_all add: sys_inv_def pool_inv_def)
  obtain old where old: "made ?v = old @ ss_conns ?v"
    by (rule pool_parts [OF fifo])
  have dist: "distinct (made ?v @ pending (ss_pc ?v))" "set (made ?v @ pending (ss_pc ?v)) = int ` {0..<length (sy_conns s)}"
    by (simp_all only: names) (simp_all add: distinct_map)
  have victim: "victim (ss_pc ?v) = []"
    using assms(4) by (simp add: victim_def not_evicting_def split: loop_pc.splits)
  have "shut_ok (sy_conns s ! i) (ECall 1)" if "int i \<in> set (ss_conns ?v)" for i
  proof -
    have "int i \<in> int ` {0..<length (sy_conns s)}"
      using that dist(2) old by auto
    then have "i < length (sy_conns s)"
      by auto
    then show ?thesis
      using parts [of i] that victim
      by (auto simp: ev_ok_def conn_ok_def shut_ok_def lock_inv_def close_inv_def pc_defs marked_def)
  qed
  then show ?thesis
    using assms(2-4) dist old size
    by (auto simp: u closing_inv_def server_ok_def stopper_ok_def place_def passed_def unstarted_inv_def)
qed

text \<open>The steps of the loop that are possible meanwhile.\<close>

lemma closing_loop:
  assumes "loop_step c v = Some v'" "server_ok v pool" "ss_stopper v \<noteq> PClosed" "length pool < 16"
  shows "server_ok v' pool \<and> ss_stopper v' = ss_stopper v"
  using assms pool_full_iff [of v "length pool"]
  by (cases "ss_pc v") (auto simp: loop_step_def server_ok_def not_evicting_def split: if_splits)

lemma not_shutting: "not_evicting pc \<Longrightarrow> shutting pc = None"
  by (auto simp: not_evicting_def shutting_def split: loop_pc.splits)

lemma closing_sys_parts:
  assumes "sys_do J serve junk b s = Some t" "server_ok (sy_srv s) pool"
    "ss_stopper (sy_srv s) \<noteq> PClosed" "length pool < 16"
  shows "server_ok (sy_srv t) pool \<and> ss_stopper (sy_srv t) = ss_stopper (sy_srv s)
    \<and> length (sy_conns s) \<le> length (sy_conns t)
    \<and> (\<forall>i e. i < length (sy_conns s) \<and> shut_ok (sy_conns s ! i) e \<longrightarrow> shut_ok (sy_conns t ! i) e)"
proof -
  have none: "shutting (ss_pc (sy_srv s)) = None"
    using assms(2) not_shutting by (simp add: server_ok_def)
  have loop: "server_ok v pool \<and> ss_stopper v = ss_stopper (sy_srv s)" if "loop_step c (sy_srv s) = Some v" for c v
    using closing_loop [OF that assms(2-4)] .
  show ?thesis
  proof (cases b)
    case (Work i)
    then show ?thesis
      using assms(1,2) worker_shut_ok by (auto simp: sys_do_def Let_def update_nth split: if_splits)
  next
    case (Deliver i rs ws)
    then show ?thesis
      using assms(1,2) by (auto simp: sys_do_def Let_def update_nth deliver_shut_ok split: if_splits)
  next
    case (Accept sock)
    then show ?thesis
      using assms(1) loop by (auto simp: sys_do_def Let_def nth_append split: if_splits)
  qed (use assms(1) loop none in \<open>auto simp: sys_do_def Let_def split: if_splits\<close>)
qed

lemma closing_sys:
  assumes "sys_do J serve junk b (sp_sys s) = Some t" "closing_inv pool s"
    "ss_stopper (sy_srv (sp_sys s)) \<noteq> PClosed"
  shows "closing_inv pool (s\<lparr>sp_sys := t\<rparr>)"
proof -
  have inv: "server_ok (sy_srv (sp_sys s)) pool" "length pool < 16" "stopper_ok s pool" "unstarted_inv (sp_sys s)"
    "set pool \<subseteq> int ` {0..<length (sy_conns (sp_sys s))}"
    "\<And>i. int i \<in> set pool \<Longrightarrow> shut_ok (sy_conns (sp_sys s) ! i) (place s pool i)"
    using assms(2) by (simp_all add: closing_inv_def)
  note parts = closing_sys_parts [OF assms(1) inv(1) assms(3) inv(2)]
  have "stopper_ok (s\<lparr>sp_sys := t\<rparr>) pool" "place (s\<lparr>sp_sys := t\<rparr>) pool = place s pool"
    using parts inv(3) by (auto simp: stopper_ok_def place_def fun_eq_iff cong: stop_pc.case_cong option.case_cong if_cong)
  moreover have "i < length (sy_conns (sp_sys s))" if "int i \<in> set pool" for i
    using subsetD [OF inv(5) that] by auto
  moreover have "{0..<length (sy_conns (sp_sys s))} \<subseteq> {0..<length (sy_conns t)}"
    using parts by auto
  then have "set pool \<subseteq> int ` {0..<length (sy_conns t)}"
    using inv(5) by blast
  ultimately show ?thesis
    using assms(2) parts inv(6) unstarted_do [OF assms(1) inv(4)] by (auto simp: closing_inv_def)
qed

text \<open>The steps of \<open>stop\<close> itself.\<close>

lemma passed_steps:
  assumes "distinct pool" "r \<le> length pool" "0 < r"
  shows "set (passed (PNext r) pool) = insert (pool ! (length pool - r)) (set (passed (PClose r) pool))"
    "set (passed (PClose (r - 1)) pool) = set (passed (PNext r) pool)"
    "pool ! (length pool - r) \<notin> set (passed (PClose r) pool)"
proof -
  let ?n = "length pool - r"
  have n: "?n < length pool" "Suc (length pool) - r = Suc ?n" "length pool - (r - 1) = Suc ?n"
    using assms by auto
  then show "set (passed (PNext r) pool) = insert (pool ! ?n) (set (passed (PClose r) pool))"
    "set (passed (PClose (r - 1)) pool) = set (passed (PNext r) pool)"
    by (simp_all add: passed_def take_Suc_conv_app_nth)
  show "pool ! ?n \<notin> set (passed (PClose r) pool)"
    using assms(1) n(1) by (auto simp: passed_def in_set_conv_nth nth_eq_iff_index_eq)
qed

text \<open>A step that leaves the connections as they are.\<close>

lemma closing_moved:
  assumes "closing_inv pool s" "sy_conns (sp_sys t) = sy_conns (sp_sys s)" "sp_freed t = []"
    "server_ok (sy_srv (sp_sys t)) pool" "stopper_ok t pool"
    "ss_started (sy_srv (sp_sys t)) = ss_started (sy_srv (sp_sys s))"
    "\<And>i. int i \<in> set pool \<Longrightarrow> place t pool i = place s pool i"
  shows "closing_inv pool t"
  using assms by (auto simp: closing_inv_def unstarted_inv_def)

lemma closing_parts:
  assumes "closing_inv pool s" "ss_stopper (sy_srv (sp_sys s)) \<noteq> PClosed"
  shows "distinct pool" "set pool \<subseteq> int ` {0..<length (sy_conns (sp_sys s))}" "sp_freed s = []"
    "not_evicting (ss_pc (sy_srv (sp_sys s)))" "ss_pool_size (sy_srv (sp_sys s)) = POOL_SIZE"
    "ss_conns (sy_srv (sp_sys s)) = pool" "ss_mutex (sy_srv (sp_sys s))" "unstarted_inv (sp_sys s)"
    "stopper_ok s pool" "\<And>i. int i \<in> set pool \<Longrightarrow> shut_ok (sy_conns (sp_sys s) ! i) (place s pool i)"
  using assms by (simp_all add: closing_inv_def server_ok_def)

text \<open>A step inside \<open>shutdown\<close>.\<close>

lemma closing_in_call:
  assumes "closing_inv pool s" "ss_stopper (sy_srv (sp_sys s)) = PClose r" "sp_call s = Some (d, e)" "e \<noteq> ECall 0"
    "stopper_do s = Some t"
  shows "closing_inv pool t"
proof -
  let ?v = "sy_srv (sp_sys s)" and ?cs = "sy_conns (sp_sys s)"
  have "ss_stopper ?v \<noteq> PClosed"
    using assms(2) by simp
  note inv = closing_parts [OF assms(1) this]
  have r: "r \<le> length pool" "0 < r" "int d = pool ! (length pool - r)"
    using inv(9) assms(2,3) by (simp_all add: stopper_ok_def)
  obtain c e' where c: "shutdown_step (int d \<in> set (ss_started ?v)) (?cs ! d) e = Some (c, e')"
      "t = s\<lparr>sp_sys := (sp_sys s)\<lparr>sy_conns := ?cs[d := c]\<rparr>, sp_call := Some (d, e')\<rparr>"
    using assms(3-5) inv(3) by (auto simp: stopper_do_def Let_def)
  have mem: "int d \<in> set pool"
    using r by (simp add: nth_mem)
  then have "d < length ?cs"
    using inv(2) by auto
  moreover have now: "place s pool d = e" "place t pool d = e'"
    using assms(2,3) c(2) r(3) passed_steps(3) [OF inv(1) r(1,2)] by (simp_all add: place_def)
  moreover have "shut_ok c e' \<and> cn_pc c = cn_pc (?cs ! d)"
    using shutdown_step_ok [OF c(1)] inv(8,10) mem now calculation(1) by (metis unstarted_inv_def)
  moreover have "place t pool i = place s pool i" if "i \<noteq> d" for i
    using that assms(2,3) c(2) by (simp add: place_def)
  moreover have "i < length ?cs" if "int i \<in> set pool" for i
    using that inv(2) by auto
  ultimately have "\<forall>i. int i \<in> set pool \<longrightarrow> shut_ok (sy_conns (sp_sys t) ! i) (place t pool i)"
      "unstarted_inv (sp_sys t)"
    using c(2) inv(8,10) by (auto simp: update_nth unstarted_inv_def)
  then show ?thesis
    using assms(1,2) c(2) r by (simp add: closing_inv_def server_ok_def stopper_ok_def)
qed

text \<open>A step at \<open>PClose r\<close> outside \<open>shutdown\<close>: the last, the call, and the return.\<close>

lemma closing_at_test:
  assumes "closing_inv pool s" "ss_stopper (sy_srv (sp_sys s)) = PClose r" "\<And>d e. sp_call s = Some (d, e) \<Longrightarrow> e = ECall 0"
    "stopper_do s = Some t"
  shows "closing_inv pool t"
proof -
  let ?v = "sy_srv (sp_sys s)"
  have "ss_stopper ?v \<noteq> PClosed"
    using assms(2) by simp
  note inv = closing_parts [OF assms(1) this]
  have r: "r \<le> length pool"
    using inv(9) assms(2) by (simp add: stopper_ok_def)
  consider "sp_call s = None" "r = 0" | "sp_call s = None" "0 < r" | d where "sp_call s = Some (d, ECall 0)"
    using assms(3) by (cases "sp_call s") auto
  then show ?thesis
  proof cases
    case 1
    then have "t = with_srv s (?v\<lparr>ss_conns := [], ss_mutex := False, ss_stopper := PClosed\<rparr>)"
      using assms(2,4) by (simp add: stopper_do_def entering_def stop_step_def SockServer_close_connections_def Let_def)
    then show ?thesis
      using 1 assms(2) inv
      by (intro closing_moved [OF assms(1)]) (auto simp: with_srv_def server_ok_def stopper_ok_def place_def passed_def)
  next
    case 2
    then have "pool ! (length pool - r) \<in> set pool"
      using r by (intro nth_mem) auto
    then obtain d where d: "int d = pool ! (length pool - r)"
      using inv(2) by auto
    then have "t = s\<lparr>sp_call := Some (d, ECall 1)\<rparr>"
      using assms(2,4) 2 r inv(6) by (simp add: stopper_do_def entering_def Let_def flip: d)
    then show ?thesis
      using assms(2) 2 inv r d by (intro closing_moved [OF assms(1)]) (auto simp: server_ok_def stopper_ok_def place_def)
  next
    case (3 d)
    then have d: "0 < r" "int d = pool ! (length pool - r)"
      using inv(9) assms(2) by (simp_all add: stopper_ok_def)
    then have "t = (with_srv s (?v\<lparr>ss_closed := ss_closed ?v @ [int d], ss_stopper := PNext r\<rparr>))\<lparr>sp_call := None\<rparr>"
      using assms(2,4) 3 r inv(6)
      by (simp add: stopper_do_def stop_step_def SockServer_close_connections_def Let_def)
    then show ?thesis
      using 3 assms(2) inv r d passed_steps(1) [OF inv(1) r d(1)]
      by (intro closing_moved [OF assms(1)]) (auto simp: with_srv_def server_ok_def stopper_ok_def place_def)
  qed
qed

lemma closing_stop:
  assumes "stopper_do s = Some t" "closing_inv pool s" "ss_stopper (sy_srv (sp_sys s)) \<noteq> PClosed"
  shows "closing_inv pool t"
proof (cases "ss_stopper (sy_srv (sp_sys s))")
  case (PClose r)
  then show ?thesis
    using closing_in_call [OF assms(2) PClose _ _ assms(1)] closing_at_test [OF assms(2) PClose _ assms(1)] by metis
next
  case (PNext r)
  note inv = closing_parts [OF assms(2,3)]
  have r: "0 < r" "r \<le> length pool" "sp_call s = None"
    using inv(9) PNext by (simp_all add: stopper_ok_def)
  then have "t = with_srv s ((sy_srv (sp_sys s))\<lparr>ss_stopper := PClose (r - 1)\<rparr>)"
    using assms(1) PNext inv(6)
    by (simp add: stopper_do_def entering_def stop_step_def SockServer_close_connections_def Let_def)
  then show ?thesis
    using PNext inv r passed_steps(2) [OF inv(1)]
    by (intro closing_moved [OF assms(2)]) (auto simp: with_srv_def server_ok_def stopper_ok_def place_def)
qed (use closing_parts(9) [OF assms(2,3)] assms(3) in \<open>simp_all add: stopper_ok_def\<close>)

lemma closing_do:
  assumes "stop_do J serve junk a s = Some t" "closing_inv pool s" "closing (ss_stopper (sy_srv (sp_sys s)))"
  shows "closing_inv pool t"
proof -
  have open_: "ss_stopper (sy_srv (sp_sys s)) \<noteq> PClosed"
    using assms(3) by (auto simp: closing_def)
  have pc: "not_evicting (ss_pc (sy_srv (sp_sys s)))"
    using closing_parts [OF assms(2) open_] by simp
  have "(case (b, ss_pc (sy_srv (sp_sys s))) of (Return, LDelete c d) \<Rightarrow> nat d # sp_freed s | _ \<Rightarrow> sp_freed s) = sp_freed s" for b
    using pc by (auto simp: not_evicting_def split: action.splits loop_pc.splits)
  then show ?thesis
    using assms(1) closing_stop [OF _ assms(2) open_] closing_sys [OF _ assms(2) open_]
    by (auto simp: stop_do_def Let_def split: if_splits stop_action.splits)
qed

lemma closing_runs:
  "closing_run J serve junk as s = Some t \<Longrightarrow> closing_inv pool s \<Longrightarrow> closing_inv pool t"
  by (induction as arbitrary: s) (auto simp: Option.bind_eq_Some_conv dest: closing_do split: if_splits)

section \<open>\<open>stop\<close> against connections that wait\<close>

definition stop_live :: "('h, 'v, 'j) stopping \<Rightarrow> bool" where
  "stop_live s \<longleftrightarrow> alive (sp_sys s) \<and> (\<forall>f. ss_stopper (sy_srv (sp_sys s)) \<noteq> PDead f \<and> ss_pc (sy_srv (sp_sys s)) \<noteq> LDead f)"

lemma stop_do_stop: "stop_live s \<Longrightarrow> stop_do J serve junk Stopper s = stopper_do s"
  by (auto simp: stop_live_def stop_do_def alive_def Let_def split: stop_pc.splits loop_pc.splits)

lemma stop_do_sys:
  assumes "\<forall>f. ss_stopper (sy_srv (sp_sys s)) \<noteq> PDead f \<and> ss_pc (sy_srv (sp_sys s)) \<noteq> LDead f" "b \<noteq> Return"
  shows "stop_do J serve junk (Sys b) s = map_option (\<lambda>t. s\<lparr>sp_sys := t\<rparr>) (sys_do J serve junk b (sp_sys s))"
proof -
  have "\<not> (case ss_stopper (sy_srv (sp_sys s)) of PDead f \<Rightarrow> True | _ \<Rightarrow> False)"
    "\<not> (case ss_pc (sy_srv (sp_sys s)) of LDead f \<Rightarrow> True | _ \<Rightarrow> False)"
    using assms(1) by (simp_all split: stop_pc.splits loop_pc.splits)
  moreover have "(case (b, ss_pc (sy_srv (sp_sys s))) of (Return, LDelete c d) \<Rightarrow> nat d # sp_freed s | _ \<Rightarrow> sp_freed s) = sp_freed s"
    using assms(2) by (simp split: action.splits)
  ultimately show ?thesis
    by (simp add: stop_do_def sys_do_def Let_def)
qed

lemma stop_run_then:
  "stop_run J serve junk as s = Some t \<Longrightarrow> stop_run J serve junk bs t = Some u \<Longrightarrow>
    stop_run J serve junk (as @ bs) s = Some u"
  by (simp add: stop_run_append)

text \<open>What a connection does alone, and its kernel.\<close>

definition of_conn :: "action \<Rightarrow> bool" where
  "of_conn b = (case b of Work i \<Rightarrow> True | Deliver i rs ws \<Rightarrow> True | _ \<Rightarrow> False)"

lemma stop_lift:
  assumes "sys_run J serve junk bs (sp_sys s) = Some t" "list_all of_conn bs" "stop_live s"
  shows "stop_run J serve junk (map Sys bs) s = Some (s\<lparr>sp_sys := t\<rparr>)"
proof -
  have "\<forall>f. ss_stopper (sy_srv (sp_sys s)) \<noteq> PDead f \<and> ss_pc (sy_srv (sp_sys s)) \<noteq> LDead f"
    using assms(3) by (simp add: stop_live_def)
  then show ?thesis
    using assms(1,2)
  proof (induction bs arbitrary: s)
    case (Cons b bs)
    then obtain u where u: "sys_do J serve junk b (sp_sys s) = Some u" "sys_run J serve junk bs u = Some t"
      by (auto simp: Option.bind_eq_Some_conv)
    have b: "b \<noteq> Return" "sy_srv u = sy_srv (sp_sys s)"
      using Cons.prems(3) u(1)
      by (auto simp: of_conn_def sys_do_def Let_def split: action.splits if_splits)
    have "stop_do J serve junk (Sys b) s = Some (s\<lparr>sp_sys := u\<rparr>)"
      using stop_do_sys [OF Cons.prems(1) b(1), of J serve junk] u(1) by simp
    then show ?case
      using Cons.IH [of "s\<lparr>sp_sys := u\<rparr>"] Cons.prems(1,3) u(2) b(2) by simp
  qed simp
qed

lemma stop_calls:
  assumes "sp_call s = Some (d, e)" "sp_freed s = []" "d < length (sy_conns (sp_sys s))"
    "int d \<in> set (ss_started (sy_srv (sp_sys s)))" "stop_live s"
    "evictor_run n ((sy_conns (sp_sys s) ! d)\<lparr>cn_ev := e\<rparr>) = Some c"
    and "\<And>j u. j < n \<Longrightarrow> evictor_run j ((sy_conns (sp_sys s) ! d)\<lparr>cn_ev := e\<rparr>) = Some u \<Longrightarrow> cn_ev u \<noteq> ECall 0"
  shows "stop_run J serve junk (replicate n Stopper) s = Some (s\<lparr>sp_call := Some (d, cn_ev c), sp_sys := (sp_sys s)
    \<lparr>sy_conns := (sy_conns (sp_sys s))[d := c\<lparr>cn_ev := cn_ev (sy_conns (sp_sys s) ! d)\<rparr>]\<rparr>\<rparr>)"
  using assms
proof (induction n arbitrary: s e)
  case 0
  then have "c\<lparr>cn_ev := cn_ev (sy_conns (sp_sys s) ! d)\<rparr> = sy_conns (sp_sys s) ! d" "cn_ev c = e"
    by auto
  then show ?case
    using 0(1) by simp
next
  case (Suc n)
  let ?c = "sy_conns (sp_sys s) ! d"
  obtain u where u: "evictor_step (?c\<lparr>cn_ev := e\<rparr>) = Some u" "evictor_run n u = Some c"
    using Suc.prems(6) by (auto simp: Option.bind_eq_Some_conv)
  let ?s = "s\<lparr>sp_call := Some (d, cn_ev u), sp_sys := (sp_sys s)\<lparr>sy_conns := (sy_conns (sp_sys s))[d := u\<lparr>cn_ev := cn_ev ?c\<rparr>]\<rparr>\<rparr>"
  have "e \<noteq> ECall 0"
    using Suc.prems(7) [of 0] by auto
  then have one: "stop_do J serve junk Stopper s = Some ?s"
    using Suc.prems(1-5) u(1) by (simp add: stop_do_stop stopper_do_def Let_def shutdown_step_active)
  have "cn_pc u = cn_pc ?c"
    using evictor_pc_same [OF u(1)] by simp
  then have "stop_live ?s"
    using Suc.prems(3,5) alive_nth [of "sp_sys s" d] alive_update(2) [of "sp_sys s" "u\<lparr>cn_ev := cn_ev ?c\<rparr>" d]
    by (simp add: stop_live_def)
  moreover have same: "(sy_conns (sp_sys ?s) ! d)\<lparr>cn_ev := cn_ev u\<rparr> = u"
    using Suc.prems(3) by simp
  moreover have "cn_ev v \<noteq> ECall 0" if "j < n" "evictor_run j ((sy_conns (sp_sys ?s) ! d)\<lparr>cn_ev := cn_ev u\<rparr>) = Some v" for j v
    using Suc.prems(7) [of "Suc j" v] that(1) that(2) [unfolded same] u(1) by simp
  moreover have "evictor_run n ((sy_conns (sp_sys ?s) ! d)\<lparr>cn_ev := cn_ev u\<rparr>) = Some c"
    unfolding same by (rule u(2))
  ultimately have "stop_run J serve junk (replicate n Stopper) ?s = Some (?s\<lparr>sp_call := Some (d, cn_ev c), sp_sys := (sp_sys ?s)
    \<lparr>sy_conns := (sy_conns (sp_sys ?s))[d := c\<lparr>cn_ev := cn_ev (sy_conns (sp_sys ?s) ! d)\<rparr>]\<rparr>\<rparr>)"
    using Suc.prems(2-4) Suc.IH [of ?s "cn_ev u"] by (simp del: replicate.simps)
  then show ?case
    using one Suc.prems(3) by simp
qed

text \<open>No client sends a byte, or closes.\<close>

definition stop_silent :: "stop_action \<Rightarrow> bool" where
  "stop_silent a = (case a of Sys b \<Rightarrow> silent b | Stopper \<Rightarrow> True)"

lemma stop_silent_simps [simp]:
  "stop_silent Stopper" "stop_silent (Sys b) = silent b" "stop_silent a \<Longrightarrow> list_all stop_silent (replicate n a)"
  by (simp_all add: stop_silent_def list_all_iff)

text \<open>A connection that waits for a message, and what \<open>stop\<close> makes of it.\<close>

definition listening :: "('v, 'j) conn \<Rightarrow> bool" where
  "listening c \<longleftrightarrow> cn_pc c = AtRecv \<and> cn_mutex c = None \<and> n_reads (cn_wire c) = [] \<and> n_writes (cn_wire c) = []"

definition stopped :: "'j jconer \<Rightarrow> 'v \<Rightarrow> ('v, 'j) conn \<Rightarrow> ('v, 'j) conn" where
  "stopped J sv c = (told J sv c)\<lparr>cn_ev := cn_ev c\<rparr>"

lemma stop_shutdown:
  assumes "json_laws J" "length (build_error J SOCKET_CLOSED) < 2 ^ 31" "stop_live s"
    "sp_call s = Some (d, ECall 1)" "sp_freed s = []" "d < length (sy_conns (sp_sys s))"
    "int d \<in> set (ss_started (sy_srv (sp_sys s)))" "sy_conns (sp_sys s) ! d = c" "listening c"
  shows "\<exists>as. list_all stop_silent as \<and> stop_run J serve junk as s = Some (s\<lparr>sp_call := Some (d, ECall 0), sp_sys := (sp_sys s)
    \<lparr>sy_conns := (sy_conns (sp_sys s))[d := stopped J (sy_service (sp_sys s)) c]\<rparr>\<rparr>)"
proof -
  let ?S = "sp_sys s" and ?ws = "all_writes (build_error J SOCKET_CLOSED)"
  let ?a = "c\<lparr>cn_ev := EUnlocked 0, cn_connected := False, cn_wire := shut_rd (cn_wire c)\<rparr>"
  let ?a' = "?a\<lparr>cn_ev := cn_ev c\<rparr>"
  let ?b = "(deliver [] ?ws ?a')\<lparr>cn_service := sy_service ?S\<rparr>"
  let ?d = "?b\<lparr>cn_pc := AtEnd, cn_wire := (cn_wire ?b)
     \<lparr>n_reads := [], n_sent := n_sent (cn_wire ?b) @ frame (build_error J SOCKET_CLOSED), n_writes := []\<rparr>\<rparr>"
  have c: "cn_pc c = AtRecv" "cn_mutex c = None" "n_reads (cn_wire c) = []" "n_writes (cn_wire c) = []"
    using assms(9) by (simp_all add: listening_def)
  have al: "stop_live (s\<lparr>sp_call := e, sp_sys := ?S\<lparr>sy_conns := (sy_conns ?S)[d := x]\<rparr>\<rparr>)"
    if "\<not> is_dead (cn_pc x)" for e x
    using assms(3) alive_update(2) [OF _ that, of ?S d] by (simp add: stop_live_def)
  let ?s1 = "s\<lparr>sp_call := Some (d, EUnlocked 0), sp_sys := ?S\<lparr>sy_conns := (sy_conns ?S)[d := ?a']\<rparr>\<rparr>"
  have "evictor_run 4 (c\<lparr>cn_ev := ECall 1\<rparr>) = Some ?a"
    using c evictor_marks [of "c\<lparr>cn_ev := ECall 1\<rparr>" 0] by (simp add: is_dead_def)
  moreover have "cn_ev u \<noteq> ECall 0" if "j < 4" "evictor_run j (c\<lparr>cn_ev := ECall 1\<rparr>) = Some u" for j u
    using calls_of_eviction [of "c\<lparr>cn_ev := ECall 1\<rparr>" 0 j u] that by simp
  ultimately have 1: "stop_run J serve junk (replicate 4 Stopper) s = Some ?s1"
    using stop_calls [OF assms(4-7,3), of 4 ?a J serve junk] assms(8) by simp
  let ?S1 = "?S\<lparr>sy_conns := (sy_conns ?S)[d := ?a']\<rparr>" and ?S2 = "?S\<lparr>sy_conns := (sy_conns ?S)[d := deliver [] ?ws ?a']\<rparr>"
  let ?s2 = "s\<lparr>sp_call := Some (d, EUnlocked 0), sp_sys := ?S\<lparr>sy_conns := (sy_conns ?S)[d := ?d]\<rparr>\<rparr>"
  have live: "stop_live ?s1"
    using c(1) by (intro al) (simp add: is_dead_def)
  have "sys_run J serve junk [Deliver d [] ?ws] ?S1 = Some ?S2"
    using assms(6) live by (simp add: sys_do_def alive_def stop_live_def Let_def)
  moreover have "worker_run J serve junk 4 ?b = Some ?d"
    by (rule worker_announces [where ws = "[]"]) (use assms(1,2) c in \<open>simp_all add: deliver_def\<close>)
  moreover have "alive ?S2"
    using al [of "deliver [] ?ws ?a'"] c(1) by (simp add: stop_live_def is_dead_def deliver_def alive_def)
  ultimately have "sys_run J serve junk ([Deliver d [] ?ws] @ replicate 4 (Work d)) ?S1
      = Some (?S\<lparr>sy_conns := (sy_conns ?S)[d := ?d]\<rparr>)"
    using sys_works [of d ?S2 J serve junk 3 ?d] assms(6,7) by (intro sys_run_then) (simp_all add: is_dead_def)
  then have 2: "stop_run J serve junk (map Sys ([Deliver d [] ?ws] @ replicate 4 (Work d))) ?s1 = Some ?s2"
    using live by (subst stop_lift [where t = "?S\<lparr>sy_conns := (sy_conns ?S)[d := ?d]\<rparr>"])
      (simp_all add: of_conn_def list_all_iff del: sys_run.simps)
  have "evictor_run 2 (?d\<lparr>cn_ev := EUnlocked 0\<rparr>) = Some ((told J (sy_service ?S) c)\<lparr>cn_ev := ECall 0\<rparr>)"
    using evictor_closes [of "?d\<lparr>cn_ev := EUnlocked 0\<rparr>" 0] c by (simp add: told_def deliver_def)
  moreover have "stop_live ?s2"
    by (intro al) (simp add: is_dead_def)
  ultimately have 3: "stop_run J serve junk (replicate 2 Stopper) ?s2 = Some (s\<lparr>sp_call := Some (d, ECall 0),
      sp_sys := ?S\<lparr>sy_conns := (sy_conns ?S)[d := stopped J (sy_service ?S) c]\<rparr>\<rparr>)"
    using stop_calls [of ?s2 d "EUnlocked 0" 2 "(told J (sy_service ?S) c)\<lparr>cn_ev := ECall 0\<rparr>" J serve junk]
      calls_of_join [of "?d\<lparr>cn_ev := EUnlocked 0\<rparr>" 0] assms(5-7)
    by (simp add: stopped_def deliver_def)
  show ?thesis
    using stop_run_then [OF 1 stop_run_then [OF 2 3]]
    by (intro exI conjI [rotated], assumption) simp
qed

lemma stop_one:
  assumes "json_laws J" "length (build_error J SOCKET_CLOSED) < 2 ^ 31" "stop_live s"
    "sp_call s = None" "sp_freed s = []" "sy_srv (sp_sys s) = v" "ss_stopper v = PClose (Suc r)" "Suc r \<le> length (ss_conns v)"
    "int d = ss_conns v ! (length (ss_conns v) - Suc r)" "d < length (sy_conns (sp_sys s))"
    "int d \<in> set (ss_started v)" "sy_conns (sp_sys s) ! d = c" "listening c"
  shows "\<exists>as. list_all stop_silent as \<and> stop_run J serve junk as s = Some (s\<lparr>sp_sys := (sp_sys s)
    \<lparr>sy_conns := (sy_conns (sp_sys s))[d := stopped J (sy_service (sp_sys s)) c],
     sy_srv := v\<lparr>ss_closed := ss_closed v @ [int d], ss_stopper := PClose r\<rparr>\<rparr>\<rparr>)" (is "\<exists>as. _ \<and> _ = Some ?t")
proof -
  let ?e = "s\<lparr>sp_call := Some (d, ECall 1)\<rparr>"
    and ?c = "stopped J (sy_service (sp_sys s)) c"
  let ?u = "s\<lparr>sp_call := Some (d, ECall 0), sp_sys := (sp_sys s)\<lparr>sy_conns := (sy_conns (sp_sys s))[d := ?c]\<rparr>\<rparr>"
  have "entering v = Some d"
    using assms(7-9) by (simp add: entering_def flip: assms(9))
  then have 1: "stop_run J serve junk [Stopper] s = Some ?e"
    using assms(3,4,6) by (simp add: stop_do_stop stopper_do_def)
  have "stop_live ?e"
    using assms(3) by (simp add: stop_live_def)
  then obtain as where as: "list_all stop_silent as" and 2: "stop_run J serve junk as ?e = Some ?u"
    using stop_shutdown [OF assms(1,2), of ?e d c serve junk] assms(5,6,10-13) by auto
  have "stop_live ?u"
    using assms(3) alive_update(2) [of "sp_sys s" ?c d] by (simp add: stop_live_def stopped_def told_def is_dead_def)
  then have 3: "stop_do J serve junk Stopper ?u = Some (?t\<lparr>sp_sys := (sp_sys ?t)\<lparr>sy_srv := (sy_srv (sp_sys ?t))\<lparr>ss_stopper := PNext (Suc r)\<rparr>\<rparr>\<rparr>)"
    using assms(4,6-9)
    by (simp add: stop_do_stop stopper_do_def with_srv_def stop_step_def SockServer_close_connections_def Let_def)
  moreover have "stop_live (?t\<lparr>sp_sys := (sp_sys ?t)\<lparr>sy_srv := (sy_srv (sp_sys ?t))\<lparr>ss_stopper := PNext (Suc r)\<rparr>\<rparr>\<rparr>)"
    using \<open>stop_live ?u\<close> assms(6) by (simp add: stop_live_def alive_def)
  ultimately have 4: "stop_run J serve junk [Stopper, Stopper] ?u = Some ?t"
    using assms(4,6-8)
    by (simp add: stop_do_stop stopper_do_def entering_def with_srv_def stop_step_def SockServer_close_connections_def Let_def)
  show ?thesis
    using stop_run_then [OF 1 stop_run_then [OF 2 4]]
    by (intro exI conjI [rotated], assumption) (simp add: as)
qed

definition stop_all :: "'j jconer \<Rightarrow> 'v \<Rightarrow> int list \<Rightarrow> ('v, 'j) conn list \<Rightarrow> ('v, 'j) conn list" where
  "stop_all J sv ds cs = map (\<lambda>i. if int i \<in> set ds then stopped J sv (cs ! i) else cs ! i) [0..<length cs]"

lemma stop_all_Nil: "stop_all J sv [] cs = cs"
  by (simp add: stop_all_def map_nth)

lemma stop_all_Cons:
  assumes "int d \<notin> set ds" "d < length cs"
  shows "stop_all J sv ds (cs[d := stopped J sv (cs ! d)]) = stop_all J sv (int d # ds) cs"
  using assms by (intro nth_equalityI) (auto simp: stop_all_def update_nth)

lemma stop_rest:
  assumes "json_laws J" "length (build_error J SOCKET_CLOSED) < 2 ^ 31" "stop_live s"
    "sp_call s = None" "sp_freed s = []" "sy_srv (sp_sys s) = v" "ss_stopper v = PClose r" "r \<le> length (ss_conns v)"
    "distinct (ss_conns v)" "set (ss_conns v) \<subseteq> set (ss_started v) \<inter> int ` {0..<length (sy_conns (sp_sys s))}"
    "\<And>i. int i \<in> set (drop (length (ss_conns v) - r) (ss_conns v)) \<Longrightarrow> listening (sy_conns (sp_sys s) ! i)"
  shows "\<exists>as. list_all stop_silent as \<and> stop_run J serve junk as s = Some (s\<lparr>sp_sys := (sp_sys s)
    \<lparr>sy_conns := stop_all J (sy_service (sp_sys s)) (drop (length (ss_conns v) - r) (ss_conns v)) (sy_conns (sp_sys s)),
     sy_srv := v\<lparr>ss_closed := ss_closed v @ drop (length (ss_conns v) - r) (ss_conns v),
       ss_conns := [], ss_mutex := False, ss_stopper := PClosed\<rparr>\<rparr>\<rparr>)"
  using assms(3-11)
proof (induction r arbitrary: s v)
  case 0
  then have "stop_do J serve junk Stopper s = Some (with_srv s
      (v\<lparr>ss_conns := [], ss_mutex := False, ss_stopper := PClosed\<rparr>))"
    by (simp add: stop_do_stop stopper_do_def entering_def stop_step_def SockServer_close_connections_def Let_def)
  then have "stop_run J serve junk [Stopper] s = Some (s\<lparr>sp_sys := (sp_sys s)
      \<lparr>sy_conns := sy_conns (sp_sys s), sy_srv := v\<lparr>ss_closed := ss_closed v @ [],
        ss_conns := [], ss_mutex := False, ss_stopper := PClosed\<rparr>\<rparr>\<rparr>)"
    by (simp add: with_srv_def)
  then show ?case
    by (intro exI [of _ "[Stopper]"]) (simp add: stop_all_Nil)
next
  case (Suc r)
  let ?pool = "ss_conns v" and ?cs = "sy_conns (sp_sys s)"
  let ?n = "length ?pool - Suc r"
  have n: "?n < length ?pool" "length ?pool - r = Suc ?n"
    using Suc.prems(6) by auto
  then have rest: "drop ?n ?pool = ?pool ! ?n # drop (length ?pool - r) ?pool"
    by (simp add: Cons_nth_drop_Suc)
  have mem: "?pool ! ?n \<in> set ?pool"
    using n(1) by (rule nth_mem)
  then obtain d where d: "?pool ! ?n = int d" "d < length ?cs"
    using Suc.prems(8) by auto
  have new: "int d \<notin> set (drop (length ?pool - r) ?pool)"
    using distinct_drop [OF Suc.prems(7), of ?n] rest d(1) by simp
  let ?c = "stopped J (sy_service (sp_sys s)) (?cs ! d)"
  let ?v = "v\<lparr>ss_closed := ss_closed v @ [int d], ss_stopper := PClose r\<rparr>"
  let ?s = "s\<lparr>sp_sys := (sp_sys s)\<lparr>sy_conns := ?cs[d := ?c], sy_srv := ?v\<rparr>\<rparr>"
  have "listening (?cs ! d)" "int d \<in> set (ss_started v)"
    using Suc.prems(8,9) rest d mem by auto
  then obtain as where as: "list_all stop_silent as" and 1: "stop_run J serve junk as s = Some ?s"
    using stop_one [OF assms(1,2) Suc.prems(1-6) d(1) [symmetric] d(2), of "?cs ! d" serve junk] by auto
  have "stop_live ?s"
    using Suc.prems(1,4) alive_update(2) [of "sp_sys s" ?c d]
    by (simp add: stop_live_def stopped_def told_def is_dead_def alive_def)
  moreover have "listening (sy_conns (sp_sys ?s) ! i)" if "int i \<in> set (drop (length ?pool - r) ?pool)" for i
  proof -
    have "i \<noteq> d" "int i \<in> set (drop ?n ?pool)"
      using that new rest by auto
    then show ?thesis
      using Suc.prems(9) by simp
  qed
  ultimately obtain bs where bs: "list_all stop_silent bs" and "stop_run J serve junk bs ?s = Some (?s\<lparr>sp_sys := (sp_sys ?s)
    \<lparr>sy_conns := stop_all J (sy_service (sp_sys ?s)) (drop (length (ss_conns ?v) - r) (ss_conns ?v)) (sy_conns (sp_sys ?s)),
     sy_srv := ?v\<lparr>ss_closed := ss_closed ?v @ drop (length (ss_conns ?v) - r) (ss_conns ?v),
       ss_conns := [], ss_mutex := False, ss_stopper := PClosed\<rparr>\<rparr>\<rparr>)"
    using Suc.IH [of ?s ?v] Suc.prems(2-8) by auto
  then have "stop_run J serve junk (as @ bs) s = Some (s\<lparr>sp_sys := (sp_sys s)
    \<lparr>sy_conns := stop_all J (sy_service (sp_sys s)) (drop ?n ?pool) ?cs,
     sy_srv := v\<lparr>ss_closed := ss_closed v @ drop ?n ?pool, ss_conns := [], ss_mutex := False, ss_stopper := PClosed\<rparr>\<rparr>\<rparr>)"
    using stop_run_then [OF 1] d rest by (simp add: stop_all_Cons [OF new d(2)])
  then show ?case
    by (intro exI conjI [rotated], assumption) (simp add: as bs)
qed

text \<open>After that one more client, and \<open>stop\<close> returns.\<close>

lemma stop_finish:
  assumes "stop_live s" "sp_call s = None" "sy_srv (sp_sys s) = v" "ss_stopper v = PClosed" "ss_pc v = LAccept"
    "\<not> ss_mutex v" "ss_conns v = []" "ss_pool_size v = POOL_SIZE"
  shows "stop_run J serve junk (Stopper # map Sys (Accept sock # replicate 5 Loop) @ [Stopper]) s
    = Some (s\<lparr>sp_sys := (sp_sys s)\<lparr>sy_conns := sy_conns (sp_sys s) @ [Connection sock (sy_service (sp_sys s)) 2],
        sy_srv := v\<lparr>ss_stop := True, ss_conns := [int (length (sy_conns (sp_sys s)))], ss_mutex := False,
          ss_started := ss_started v @ [int (length (sy_conns (sp_sys s)))], ss_pc := LEnd, ss_stopper := PJoined\<rparr>\<rparr>\<rparr>)"
  using assms pool_full_iff [of v 0]
  by (simp add: stop_do_def sys_do_def stopper_do_def entering_def with_srv_def stop_step_def stop_live_def alive_def
      loop_step_def shutting_def Connection_def is_dead_def Let_def eval_nat_numeral)

section \<open>\<open>stop\<close> against an eviction\<close>

lemma sys_do_stopper:
  assumes "sys_do J serve junk b s = Some t"
  shows "ss_stopper (sy_srv t) = ss_stopper (sy_srv s) \<and> (ss_pc (sy_srv s) = LDead f \<longrightarrow> ss_pc (sy_srv t) = LDead f)"
proof -
  have "loop_step c (sy_srv s) = Some v \<Longrightarrow> ss_stopper v = ss_stopper (sy_srv s) \<and> ss_pc (sy_srv s) \<noteq> LDead f" for c v
    using loop_step_stopper by (auto simp: loop_step_def)
  then show ?thesis
    using assms by (cases b) (auto simp: sys_do_def Let_def shutting_def split: if_splits option.splits)
qed

lemma sys_run_stopper: "sys_run J serve junk bs s = Some t \<Longrightarrow> ss_stopper (sy_srv t) = ss_stopper (sy_srv s)"
  by (induction bs arbitrary: s) (auto simp: Option.bind_eq_Some_conv dest: sys_do_stopper)

lemma sys_run_dead:
  "sys_run J serve junk bs s = Some t \<Longrightarrow> ss_pc (sy_srv s) = LDead f \<Longrightarrow> ss_pc (sy_srv t) = LDead f"
  by (induction bs arbitrary: s) (auto simp: Option.bind_eq_Some_conv dest: sys_do_stopper)

lemma stop_lift_any:
  assumes "sys_run J serve junk bs (sp_sys s) = Some t" "\<forall>f. ss_stopper (sy_srv (sp_sys s)) \<noteq> PDead f"
    "\<forall>f. ss_pc (sy_srv t) \<noteq> LDead f"
  shows "\<exists>fr. stop_run J serve junk (map Sys bs) s = Some (s\<lparr>sp_sys := t, sp_freed := fr\<rparr>)"
  using assms(1,2)
proof (induction bs arbitrary: s)
  case Nil
  then show ?case
    by (intro exI [of _ "sp_freed s"]) simp
next
  case (Cons b bs)
  then obtain u where u: "sys_do J serve junk b (sp_sys s) = Some u" "sys_run J serve junk bs u = Some t"
    by (auto simp: Option.bind_eq_Some_conv)
  have alive: "\<not> list_ex (\<lambda>c. is_dead (cn_pc c)) (sy_conns (sp_sys s))"
    using u(1) by (auto simp: sys_do_def Let_def split: if_splits)
  have "ss_pc (sy_srv (sp_sys s)) \<noteq> LDead f" for f
    using assms(3) sys_run_dead [OF Cons.prems(1)] by blast
  then have "\<exists>fr. stop_do J serve junk (Sys b) s = Some (s\<lparr>sp_sys := u, sp_freed := fr\<rparr>)"
    using alive Cons.prems(2) u(1) by (auto simp: stop_do_def Let_def split: stop_pc.splits loop_pc.splits)
  then obtain fr where fr: "stop_do J serve junk (Sys b) s = Some (s\<lparr>sp_sys := u, sp_freed := fr\<rparr>)"
    by blast
  have "\<forall>f. ss_stopper (sy_srv u) \<noteq> PDead f"
    using sys_do_stopper [OF u(1)] Cons.prems(2) by simp
  then show ?case
    using Cons.IH [of "s\<lparr>sp_sys := u, sp_freed := fr\<rparr>"] u(2) fr by simp
qed

text \<open>\<open>stop\<close> up to the call of \<open>shutdown\<close> for the oldest connection.\<close>

lemma stop_enters:
  assumes "alive s" "ss_stopper (sy_srv s) = PIdle" "\<not> ss_mutex (sy_srv s)" "\<forall>f. ss_pc (sy_srv s) \<noteq> LDead f"
    "ss_conns (sy_srv s) = int d # rest"
  shows "stop_run J serve junk [Stopper, Stopper] \<lparr>sp_sys = s, sp_call = None, sp_freed = f\<rparr>
    = Some \<lparr>sp_sys = s\<lparr>sy_srv := (sy_srv s)\<lparr>ss_mutex := True, ss_stopper := PClose (Suc (length rest))\<rparr>\<rparr>,
        sp_call = Some (d, ECall 1), sp_freed = f\<rparr>"
  using assms by (simp add: stop_do_stop stop_live_def alive_def stopper_do_def with_srv_def entering_def stop_step_def
      SockServer_close_connections_def)

lemma calls_keep_srv: "sys_run J serve junk (replicate n Call) s = Some t \<Longrightarrow> sy_srv t = sy_srv s"
  by (induction n arbitrary: s) (auto simp: Option.bind_eq_Some_conv sys_do_def Let_def split: if_splits option.splits)

text \<open>The loop from the call of \<open>shutdown\<close> to the end of the destructor.\<close>

lemma sys_evicts:
  assumes "json_laws J" "length (build_error J SOCKET_CLOSED) < 2 ^ 31" "alive s"
    "ss_pc (sy_srv s) = LShutdown m (int d)" "ss_conns (sy_srv s) = int d # rest"
    "d < length (sy_conns s)" "int d \<in> set (ss_started (sy_srv s))" "sy_conns s ! d = c" "cn_ev c = ECall 2" "listening c"
  shows "\<exists>bs t u. list_all silent bs \<and> sys_run J serve junk bs s = Some t \<and> ss_pc (sy_srv t) = LDelete m (int d)
    \<and> sys_do J serve junk Return t = Some u \<and> alive u \<and> ss_pc (sy_srv u) = LLock m"
proof -
  let ?told = "told J (sy_service s) c" and ?buried = "buried J (sy_service s) c"
  let ?s1 = "s\<lparr>sy_conns := (sy_conns s)[d := ?told],
      sy_srv := (sy_srv s)\<lparr>ss_pc := LPop m (int d), ss_closed := ss_closed (sy_srv s) @ [int d]\<rparr>\<rparr>"
  have c: "cn_pc c = AtRecv" "cn_mutex c = None" "n_reads (cn_wire c) = []" "n_writes (cn_wire c) = []"
    using assms(10) by (simp_all add: listening_def)
  obtain as where as: "list_all silent as" and 1: "sys_run J serve junk as s = Some ?s1"
    using sys_shutdown [OF assms(1-4,6-8) c(1,2) assms(9) c(3,4), of serve junk] by blast
  have al: "alive (s\<lparr>sy_conns := (sy_conns s)[d := x], sy_srv := w\<rparr>)" if "\<not> is_dead (cn_pc x)" for x w
    using alive_update(2) [OF assms(3) that] by (simp add: alive_def)
  let ?s2 = "?s1\<lparr>sy_srv := (sy_srv ?s1)\<lparr>ss_pc := LDelete m (int d), ss_conns := rest\<rparr>\<rparr>"
  have live: "alive ?s1" "alive ?s2"
    using al [of ?told] by (simp_all add: told_def is_dead_def)
  have 2: "sys_run J serve junk [Loop] ?s1 = Some ?s2"
    using sys_loop [OF live(1)] assms(5) by (simp add: shutting_def loop_step_def)
  have "sys_run J serve junk (replicate 6 Call @ [Return]) ?s2 = Some (?s2\<lparr>sy_conns := (sy_conns ?s2)[d := ?buried],
        sy_srv := (sy_srv ?s2)\<lparr>ss_pc := LLock m, ss_closed := ss_closed (sy_srv ?s2) @ [int d]\<rparr>\<rparr>)" (is "_ = Some ?u")
    using assms(6) c(2) by (intro sys_delete [OF live(2)]) simp_all
  then obtain t where t: "sys_run J serve junk (replicate 6 Call) ?s2 = Some t" "sys_run J serve junk [Return] t = Some ?u"
    unfolding sys_run_append Option.bind_eq_Some_conv by blast
  have "ss_pc (sy_srv t) = LDelete m (int d)"
    using calls_keep_srv [OF t(1)] by simp
  moreover have "sys_do J serve junk Return t = Some ?u"
    using t(2) by (simp add: Option.bind_eq_Some_conv)
  moreover have "alive ?u"
    using al [of ?buried] by (simp add: buried_def told_def is_dead_def)
  moreover have "list_all silent (as @ [Loop] @ replicate 6 Call)"
    using as by simp
  ultimately show ?thesis
    using sys_run_then [OF 1 sys_run_then [OF 2 t(1)]]
    by (intro exI [of _ "as @ [Loop] @ replicate 6 Call"] exI conjI) (assumption | simp)+
qed

text \<open>The pool of a server that waits in \<open>accept\<close>.\<close>

lemma pool_started:
  assumes "sys_inv s" "ss_pc (sy_srv s) = LAccept"
  shows "distinct (ss_conns (sy_srv s))"
    "set (ss_conns (sy_srv s)) \<subseteq> set (ss_started (sy_srv s)) \<inter> int ` {0..<length (sy_conns s)}"
proof -
  have made: "made (sy_srv s) = map int [0..<length (sy_conns s)]" "made (sy_srv s) = ss_started (sy_srv s)"
    using assms by (simp_all add: sys_inv_def pending_def made_def starting_def)
  have "fifo_inv (sy_srv s)" "ss_stopper (sy_srv s) = PIdle"
    using assms(1) by (simp_all add: sys_inv_def)
  then obtain old where old: "made (sy_srv s) = old @ ss_conns (sy_srv s)"
    by (rule pool_parts)
  have "distinct (made (sy_srv s))" "set (made (sy_srv s)) = int ` {0..<length (sy_conns s)}"
    by (simp_all only: made(1)) (simp_all add: distinct_map)
  moreover have "distinct (made (sy_srv s)) \<Longrightarrow> distinct (ss_conns (sy_srv s))"
    "set (ss_conns (sy_srv s)) \<subseteq> set (made (sy_srv s))"
    by (simp_all add: old)
  ultimately show "distinct (ss_conns (sy_srv s))"
    "set (ss_conns (sy_srv s)) \<subseteq> set (ss_started (sy_srv s)) \<inter> int ` {0..<length (sy_conns s)}"
    using made(2) by simp_all
qed

section \<open>Properties\<close>

lemma stop_begins_unclosed:
  assumes "sys_inv s" "not_evicting (ss_pc (sy_srv s))" "stop_do J serve junk Stopper (before_stop s) = Some u"
    "int i \<in> set (ss_conns (sy_srv s))" "int i \<in> set (ss_started (sy_srv s))" "i < length (sy_conns s)"
  shows "ended_first i u"
proof -
  have "int i \<notin> set (victim (ss_pc (sy_srv s)))"
    using assms(2) by (auto simp: victim_def not_evicting_def split: loop_pc.splits)
  then have "cn_ev (sy_conns s ! i) = ECall 2 \<and> n_closed (cn_wire (sy_conns s ! i)) = []"
    by (rule member_untouched [OF assms(1,6,4)])
  then show ?thesis
    using assms(5,6) by (simp add: stop_takes_mutex [OF assms(1,3)] ended_first_def joined_def)
qed

text \<open>
  (C17) \<open>stop\<close> empties the pool safely as long as the pool was not full and the loop was not evicting when it
  took the mutex: in every interleaving with the loop, with the threads of the connections and with the kernel,
  nothing that was freed is used until \<open>_close_connections\<close> returns; at every moment, a connection of the pool
  whose socket is closed has a thread that has ended, or, if the thread was not started when \<open>stop\<close> came, one
  that has nothing left to do; and when \<open>_close_connections\<close> returns, the pool is empty, and every connection
  that was in it is marked and was closed exactly once.
\<close>
theorem stop_closes_pool:
  assumes "running v" "sys_run J serve junk as (new_system v sv) = Some s"
    "length (ss_conns (sy_srv s)) < 16" "not_evicting (ss_pc (sy_srv s))"
    "stop_do J serve junk Stopper (before_stop s) = Some u" "closing_run J serve junk bs u = Some t"
  shows "(\<forall>f. ss_stopper (sy_srv (sp_sys t)) \<noteq> PDead f \<and> ss_pc (sy_srv (sp_sys t)) \<noteq> LDead f)
    \<and> (\<forall>i. int i \<in> set (ss_conns (sy_srv s)) \<and> n_closed (cn_wire (sy_conns (sp_sys t) ! i)) \<noteq> [] \<longrightarrow>
         (if int i \<in> set (ss_started (sy_srv s)) then cn_pc (sy_conns (sp_sys t) ! i) = AtEnd
          else over (sy_conns (sp_sys t) ! i)))
    \<and> (ss_stopper (sy_srv (sp_sys t)) = PClosed \<longrightarrow> ss_conns (sy_srv (sp_sys t)) = []
       \<and> (\<forall>i. int i \<in> set (ss_conns (sy_srv s)) \<longrightarrow> over (sy_conns (sp_sys t) ! i)
            \<and> \<not> cn_connected (sy_conns (sp_sys t) ! i)
            \<and> n_closed (cn_wire (sy_conns (sp_sys t) ! i)) = [cn_sock (sy_conns (sp_sys t) ! i)]))"
proof -
  note sinv = sys_invariant [OF assms(1,2)]
  note called = closing_inv_called [OF sinv unstarted [OF assms(1,2)] assms(3-5)]
  have inv: "server_ok (sy_srv (sp_sys t)) (ss_conns (sy_srv s))" "stopper_ok t (ss_conns (sy_srv s))"
    and ok: "\<And>i. int i \<in> set (ss_conns (sy_srv s)) \<Longrightarrow> shut_ok (sy_conns (sp_sys t) ! i) (place t (ss_conns (sy_srv s)) i)"
    using closing_runs [OF assms(6) called] by (simp_all add: closing_inv_def)
  have "ss_stopper (sy_srv (sp_sys t)) \<noteq> PDead f \<and> ss_pc (sy_srv (sp_sys t)) \<noteq> LDead f" for f
    using inv by (auto simp: server_ok_def stopper_ok_def not_evicting_def)
  moreover have "shut_ok c (ECall 0) \<Longrightarrow> over c \<and> \<not> cn_connected c \<and> n_closed (cn_wire c) = [cn_sock c]" for c :: "('b, 'c) conn"
    by (simp add: shut_ok_def marked_def to_close_def)
  moreover have "over (sy_conns (sp_sys t) ! i)"
    if "int i \<in> set (ss_conns (sy_srv s))" "n_closed (cn_wire (sy_conns (sp_sys t) ! i)) \<noteq> []" for i
    using ok [OF that(1)] that(2) by (auto simp: shut_ok_def)
  moreover have "cn_pc (sy_conns (sp_sys t) ! i) = AtEnd"
    if "int i \<in> set (ss_conns (sy_srv s))" "int i \<in> set (ss_started (sy_srv s))"
      "n_closed (cn_wire (sy_conns (sp_sys t) ! i)) \<noteq> []" for i
  proof -
    have "int i \<in> int ` {0..<length (sy_conns s)}"
      using called that(1) by (auto simp: closing_inv_def stop_takes_mutex [OF sinv assms(5)])
    then have "ended_first i u"
      using stop_begins_unclosed [OF sinv assms(4,5) that(1,2)] by auto
    then show ?thesis
      using ended_first_closed [OF ended_first_run [OF closing_is_run [OF assms(6)]] that(3)] by blast
  qed
  ultimately show ?thesis
    using inv ok by (auto simp: server_ok_def place_def)
qed

theorem stop_closes_pool_witness:
  "\<exists>u t. stop_do json_api on_request (\<lambda>_. NUL) Stopper (before_stop (crowd 1 sample_service)) = Some u
    \<and> closing_run json_api on_request (\<lambda>_. NUL) (replicate 5 Stopper @ Sys (Work 0) # replicate 5 Stopper) u = Some t
    \<and> ss_conns (sy_srv (sp_sys t)) = [] \<and> n_closed (cn_wire (sy_conns (sp_sys t) ! 0)) = [cn_sock (sy_conns (sp_sys t) ! 0)]"
proof -
  let ?s = "crowd 1 sample_service :: (unit, (nat, json) service, json) system"
  obtain as where as: "sys_run json_api on_request (\<lambda>_. NUL) as
      (new_system (new_server\<lparr>ss_pc := LHead\<rparr>) sample_service) = Some ?s"
    using sys_crowd [of 1 json_api on_request "\<lambda>_. NUL" sample_service] by auto
  have start: "running (new_server\<lparr>ss_pc := LHead\<rparr>)"
    by (simp add: running_def new_server_def)
  have s: "length (ss_conns (sy_srv ?s)) < 16" "not_evicting (ss_pc (sy_srv ?s))" "ss_conns (sy_srv ?s) = [int 0]"
    by (simp_all add: crowd_def not_evicting_def)
  obtain u where u: "stop_do json_api on_request (\<lambda>_. NUL) Stopper (before_stop ?s) = Some u"
    by (simp add: stop_do_def stopper_do_def before_stop_def entering_def stop_step_def crowd_def new_server_def
      SockServer_close_connections_def Connection_def is_dead_def Let_def)
  then obtain t where t: "closing_run json_api on_request (\<lambda>_. NUL) (replicate 5 Stopper @ Sys (Work 0) # replicate 5 Stopper) u = Some t"
      "ss_stopper (sy_srv (sp_sys t)) = PClosed"
    by (auto simp: stop_do_def stopper_do_def before_stop_def entering_def stop_step_def crowd_def new_server_def with_srv_def
      SockServer_close_connections_def Connection_def is_dead_def Let_def shutdown_step_active evictor_step.simps
      sys_do_def worker_step.simps closing_def eval_nat_numeral)
  show ?thesis
    using stop_closes_pool [OF start as s(1,2) u t(1)] t(2) u t(1) s(3) by auto
qed

text \<open>
  (C20) \<open>stop\<close> comes to its end: when the loop waits in \<open>accept\<close> and the threads of all connections wait for a
  message, there is a run, in which no client sends a byte or closes, in which each client is told SOCKET_CLOSED
  and its socket is closed once; at every point of the run at which one of these sockets has been closed, the
  thread has ended and this frame is the last it sends. When one more client then connects, the
  loop ends and \<open>stop\<close> returns. The connection of that client is left open, and its thread goes on to
  read a message.
\<close>
theorem stop_tells_all:
  assumes "json_laws J" "length (build_error J SOCKET_CLOSED) < 2 ^ 31"
    "running v" "sys_run J serve junk as (new_system v sv) = Some s" "alive s" "ss_pc (sy_srv s) = LAccept"
    "\<And>i. int i \<in> set (ss_conns (sy_srv s)) \<Longrightarrow> cn_pc (sy_conns s ! i) = AtRecv
       \<and> n_reads (cn_wire (sy_conns s ! i)) = [] \<and> n_writes (cn_wire (sy_conns s ! i)) = []"
  shows "\<exists>bs t. list_all stop_silent bs \<and> stop_run J serve junk bs (before_stop s) = Some t \<and> ss_stopper (sy_srv (sp_sys t)) = PJoined
    \<and> ss_pc (sy_srv (sp_sys t)) = LEnd \<and> sy_service (sp_sys t) = sy_service s
    \<and> (\<forall>i. int i \<in> set (ss_conns (sy_srv s)) \<longrightarrow> cn_pc (sy_conns (sp_sys t) ! i) = AtEnd
         \<and> n_sent (cn_wire (sy_conns (sp_sys t) ! i))
             = n_sent (cn_wire (sy_conns s ! i)) @ frame (build_error J SOCKET_CLOSED)
         \<and> n_closed (cn_wire (sy_conns (sp_sys t) ! i)) = [cn_sock (sy_conns s ! i)])
    \<and> ss_conns (sy_srv (sp_sys t)) = [int (length (sy_conns s))]
    \<and> sy_conns (sp_sys t) ! length (sy_conns s) = Connection sock (sy_service s) 2
    \<and> (\<exists>w. stop_do J serve junk (Sys (Work (length (sy_conns s)))) t = Some w
         \<and> cn_pc (sy_conns (sp_sys w) ! length (sy_conns s)) = AtRecv)
    \<and> (\<forall>i cs us u. int i \<in> set (ss_conns (sy_srv s)) \<and> bs = cs @ us
         \<and> stop_run J serve junk cs (before_stop s) = Some u \<and> n_closed (cn_wire (sy_conns (sp_sys u) ! i)) \<noteq> []
         \<longrightarrow> cn_pc (sy_conns (sp_sys u) ! i) = AtEnd \<and> n_sent (cn_wire (sy_conns (sp_sys u) ! i))
             = n_sent (cn_wire (sy_conns s ! i)) @ frame (build_error J SOCKET_CLOSED))"
proof -
  let ?v = "sy_srv s" and ?pool = "ss_conns (sy_srv s)" and ?cs = "sy_conns s"
  have inv: "sys_inv s"
    by (rule sys_invariant [OF assms(3,4)])
  then have v: "\<not> ss_mutex ?v" "ss_stopper ?v = PIdle" "ss_pool_size ?v = POOL_SIZE"
    using assms(6) by (auto simp: sys_inv_def mutex_inv_def pushing_def closing_def pool_inv_def)
  note pool = pool_started [OF inv assms(6)]
  have member: "listening (?cs ! i) \<and> i < length ?cs \<and> n_closed (cn_wire (?cs ! i)) = []
    \<and> ended_first i (before_stop s)" if "int i \<in> set ?pool" for i
  proof -
    have i: "i < length ?cs"
      using that pool(2) by auto
    then have "cn_ev (?cs ! i) = ECall 2 \<and> n_closed (cn_wire (?cs ! i)) = []"
      using member_untouched [OF inv i that] assms(6) by (simp add: victim_def)
    moreover have "conn_ok (?cs ! i)"
      using inv i by (simp add: sys_inv_def)
    ultimately show ?thesis
      using assms(7) [OF that] member_free i pool(2) that
      by (auto simp: listening_def ended_first_def before_stop_def joined_def Let_def)
  qed
  let ?v1 = "?v\<lparr>ss_mutex := True, ss_stopper := PClose (length ?pool)\<rparr>"
  let ?s1 = "\<lparr>sp_sys = s\<lparr>sy_srv := ?v1\<rparr>, sp_call = None, sp_freed = []\<rparr>"
  have "stop_live (before_stop s)"
    using assms(5,6) v(2) by (simp add: stop_live_def before_stop_def)
  then have 1: "stop_run J serve junk [Stopper] (before_stop s) = Some ?s1"
    using v by (simp add: stop_do_stop stopper_do_def before_stop_def entering_def with_srv_def stop_step_def
        SockServer_close_connections_def Let_def)
  have "stop_live ?s1"
    using assms(5,6) by (simp add: stop_live_def alive_def)
  then obtain bs where bs: "list_all stop_silent bs" and 2: "stop_run J serve junk bs ?s1 = Some (?s1\<lparr>sp_sys := (sp_sys ?s1)
      \<lparr>sy_conns := stop_all J (sy_service s) ?pool ?cs, sy_srv := ?v1\<lparr>ss_closed := ss_closed ?v1 @ ?pool,
         ss_conns := [], ss_mutex := False, ss_stopper := PClosed\<rparr>\<rparr>\<rparr>)" (is "_ = Some ?s2")
    using stop_rest [OF assms(1,2), of ?s1 ?v1 "length ?pool" serve junk] pool member by auto
  have "alive (sp_sys ?s2)"
    using assms(5) by (auto simp: alive_def list_ex_iff stop_all_def stopped_def told_def is_dead_def)
  then have "stop_live ?s2"
    using assms(6) by (simp add: stop_live_def)
  note 3 = stop_finish [OF this, of "sy_srv (sp_sys ?s2)" J serve junk sock]
  let ?t = "\<lparr>sp_sys = s\<lparr>sy_conns := stop_all J (sy_service s) ?pool ?cs @ [Connection sock (sy_service s) 2],
      sy_srv := ?v\<lparr>ss_closed := ss_closed ?v @ ?pool, ss_stop := True, ss_conns := [int (length ?cs)], ss_mutex := False,
        ss_started := ss_started ?v @ [int (length ?cs)], ss_pc := LEnd, ss_stopper := PJoined\<rparr>\<rparr>,
      sp_call = None, sp_freed = []\<rparr>"
  let ?bs = "[Stopper] @ bs @ Stopper # map Sys (Accept sock # replicate 5 Loop) @ [Stopper]"
  have "stop_run J serve junk (Stopper # map Sys (Accept sock # replicate 5 Loop) @ [Stopper]) ?s2 = Some ?t"
    using 3 v(3) assms(6) by (simp add: stop_all_def)
  then have run: "stop_run J serve junk ?bs (before_stop s) = Some ?t"
    by (rule stop_run_then [OF 1 stop_run_then [OF 2]])
  have silent: "list_all stop_silent ?bs"
    using bs by (simp add: list_all_iff)
  have at: "sy_conns (sp_sys ?t) ! i = stopped J (sy_service s) (?cs ! i)" if "int i \<in> set ?pool" for i
    using that member by (simp add: stop_all_def nth_append)
  have new: "sy_conns (sp_sys ?t) ! length ?cs = Connection sock (sy_service s) 2"
    by (simp add: stop_all_def nth_append)
  have "alive (sp_sys ?t)"
    using \<open>alive (sp_sys ?s2)\<close> by (simp add: alive_def Connection_def is_dead_def)
  then have goes_on: "\<exists>w. stop_do J serve junk (Sys (Work (length ?cs))) ?t = Some w
      \<and> cn_pc (sy_conns (sp_sys w) ! length ?cs) = AtRecv"
    using new by (simp add: stop_do_def sys_do_def alive_def Let_def worker_step.simps Connection_def stop_all_def)
  have ends: "\<forall>i. int i \<in> set ?pool \<longrightarrow> cn_pc (sy_conns (sp_sys ?t) ! i) = AtEnd
      \<and> n_sent (cn_wire (sy_conns (sp_sys ?t) ! i)) = n_sent (cn_wire (?cs ! i)) @ frame (build_error J SOCKET_CLOSED)
      \<and> n_closed (cn_wire (sy_conns (sp_sys ?t) ! i)) = [cn_sock (?cs ! i)]"
    using member at by (simp only: stopped_def told_def) simp
  have order: "cn_pc (sy_conns (sp_sys u) ! i) = AtEnd \<and> n_sent (cn_wire (sy_conns (sp_sys u) ! i))
      = n_sent (cn_wire (?cs ! i)) @ frame (build_error J SOCKET_CLOSED)"
    if "int i \<in> set ?pool \<and> ?bs = cs @ us \<and> stop_run J serve junk cs (before_stop s) = Some u
      \<and> n_closed (cn_wire (sy_conns (sp_sys u) ! i)) \<noteq> []" for i cs us u
  proof -
    from that have i: "int i \<in> set ?pool" and u: "?bs = cs @ us" "stop_run J serve junk cs (before_stop s) = Some u"
      "n_closed (cn_wire (sy_conns (sp_sys u) ! i)) \<noteq> []"
      by blast+
    have "ended_first i (before_stop s)"
      using member [OF i] by simp
    from stop_closed_is_final [OF this run [unfolded u(1)] u(2,3)] show ?thesis
      using ends i by metis
  qed
  show ?thesis
    by (rule exI [of _ ?bs], rule exI [of _ ?t], intro conjI run silent ends new goes_on)
       ((intro allI impI, rule order, assumption) | simp)+
qed

theorem stop_tells_all_witness:
  "\<exists>bs t. stop_run json_api on_request (\<lambda>_. NUL) bs (before_stop (crowded 1 sample_service)) = Some t
    \<and> ss_stopper (sy_srv (sp_sys t)) = PJoined \<and> ss_conns (sy_srv (sp_sys t)) = [1]
    \<and> n_sent (cn_wire (sy_conns (sp_sys t) ! 0)) = frame (build_error json_api SOCKET_CLOSED)
    \<and> n_closed (cn_wire (sy_conns (sp_sys t) ! 0)) = [0]"
proof -
  let ?s = "crowded 1 sample_service :: (unit, (nat, json) service, json) system"
  obtain as where as: "sys_run json_api on_request (\<lambda>_. NUL) as
      (new_system (new_server\<lparr>ss_pc := LHead\<rparr>) sample_service) = Some ?s"
    using sys_crowded [of 1 json_api on_request "\<lambda>_. NUL" sample_service] by auto
  have start: "running (new_server\<lparr>ss_pc := LHead\<rparr>)"
    by (simp add: running_def new_server_def)
  have parts: "alive ?s" "ss_pc (sy_srv ?s) = LAccept" "ss_conns (sy_srv ?s) = [int 0]" "length (sy_conns ?s) = 1"
    "sy_conns ?s ! 0 = (Connection 0 sample_service 2)\<lparr>cn_pc := AtRecv\<rparr>"
    by (simp_all add: crowded_def alive_def Connection_def is_dead_def)
  have "cn_pc (sy_conns ?s ! i) = AtRecv \<and> n_reads (cn_wire (sy_conns ?s ! i)) = [] \<and> n_writes (cn_wire (sy_conns ?s ! i)) = []"
    if "int i \<in> set (ss_conns (sy_srv ?s))" for i
    using that parts(3,5) by (simp add: Connection_def)
  then obtain bs t where "stop_run json_api on_request (\<lambda>_. NUL) bs (before_stop ?s) = Some t"
      "ss_stopper (sy_srv (sp_sys t)) = PJoined" "ss_conns (sy_srv (sp_sys t)) = [int (length (sy_conns ?s))]"
      "\<forall>i. int i \<in> set (ss_conns (sy_srv ?s)) \<longrightarrow> n_sent (cn_wire (sy_conns (sp_sys t) ! i))
          = n_sent (cn_wire (sy_conns ?s ! i)) @ frame (build_error json_api SOCKET_CLOSED)
        \<and> n_closed (cn_wire (sy_conns (sp_sys t) ! i)) = [cn_sock (sy_conns ?s ! i)]"
    using stop_tells_all [OF json_api_laws json_api_closed_text start as parts(1,2), of 5] by blast
  then show ?thesis
    using parts(3-5) by (intro exI [of _ bs] exI [of _ t]) (simp add: Connection_def)
qed

text \<open>
  (C30) \<open>stop\<close> uses a deleted connection: when the server is full and a client has connected, so that the loop is
  about to shut the oldest connection down, \<open>stop\<close> may take the mutex, which the loop does not hold, and come to
  the same connection; the loop shuts it down and deletes it, and \<open>stop\<close> goes on inside its \<open>shutdown\<close>. No
  client has to send a byte or close for it.
\<close>
theorem stop_uses_deleted:
  assumes "json_laws J" "length (build_error J SOCKET_CLOSED) < 2 ^ 31"
    "running v" "sys_run J serve junk as (new_system v sv) = Some s" "alive s" "ss_pc (sy_srv s) = LAccept"
    "ss_conns (sy_srv s) = int d # rest" "length rest = 15" "cn_pc (sy_conns s ! d) = AtRecv"
    "n_reads (cn_wire (sy_conns s ! d)) = []" "n_writes (cn_wire (sy_conns s ! d)) = []"
  shows "\<exists>bs t. list_all stop_silent bs \<and> stop_run J serve junk bs (before_stop s) = Some t \<and> d \<in> set (sp_freed t)
    \<and> ss_stopper (sy_srv (sp_sys t)) = PDead UseAfterFree"
proof -
  let ?v = "sy_srv s" and ?c = "sy_conns s ! d" and ?m = "int (length (sy_conns s))"
    and ?new = "Connection sock (sy_service s) 2"
  have inv: "sys_inv s"
    by (rule sys_invariant [OF assms(3,4)])
  then have v: "\<not> ss_mutex ?v" "ss_stopper ?v = PIdle" "ss_pool_size ?v = POOL_SIZE"
    using assms(6) by (auto simp: sys_inv_def mutex_inv_def pushing_def closing_def pool_inv_def)
  have d: "d < length (sy_conns s)" "int d \<in> set (ss_started ?v)"
    using pool_started(2) [OF inv assms(6)] assms(7) by auto
  have "cn_ev ?c = ECall 2"
    using member_untouched [OF inv d(1)] assms(6,7) by (simp add: victim_def)
  moreover have "conn_ok ?c"
    using inv d(1) by (simp add: sys_inv_def)
  ultimately have c: "cn_ev ?c = ECall 2" "cn_mutex ?c = None"
    using member_free assms(9) by auto
  let ?v1 = "?v\<lparr>ss_pc := LShutdown ?m (int d)\<rparr>"
  let ?v2 = "?v1\<lparr>ss_mutex := True, ss_stopper := PClose 16\<rparr>"
  let ?s2 = "s\<lparr>sy_conns := sy_conns s @ [?new], sy_srv := ?v2\<rparr>"
  have "sys_run J serve junk [Accept sock, Loop, Loop] s = Some (s\<lparr>sy_conns := sy_conns s @ [?new], sy_srv := ?v1\<rparr>)"
    using sys_to_shutdown [OF assms(5,6) v(3) assms(7,8)] by simp
  then obtain f1 where 1: "stop_run J serve junk (map Sys [Accept sock, Loop, Loop]) (before_stop s)
      = Some \<lparr>sp_sys = s\<lparr>sy_conns := sy_conns s @ [?new], sy_srv := ?v1\<rparr>, sp_call = None, sp_freed = f1\<rparr>"
    using stop_lift_any [of J serve junk "[Accept sock, Loop, Loop]" "before_stop s"] v(2)
    by (auto simp: before_stop_def)
  have al: "alive (s\<lparr>sy_conns := (sy_conns s)[d := x] @ [?new], sy_srv := w\<rparr>)" if "\<not> is_dead (cn_pc x)" for x w
    using alive_update(2) [OF assms(5) that] by (simp add: alive_def Connection_def is_dead_def)
  have "alive (s\<lparr>sy_conns := sy_conns s @ [?new], sy_srv := ?v1\<rparr>)"
    using al [of ?c] assms(9) by (simp add: is_dead_def)
  then have 2: "stop_run J serve junk [Stopper, Stopper]
      \<lparr>sp_sys = s\<lparr>sy_conns := sy_conns s @ [?new], sy_srv := ?v1\<rparr>, sp_call = None, sp_freed = f1\<rparr>
    = Some \<lparr>sp_sys = ?s2, sp_call = Some (d, ECall 1), sp_freed = f1\<rparr>"
    using v(1,2) assms(7,8) stop_enters [where s = "s\<lparr>sy_conns := sy_conns s @ [?new], sy_srv := ?v1\<rparr>" and d = d] by simp
  have "alive ?s2" "listening ((sy_conns s @ [?new]) ! d)"
    using al [of ?c] c(2) assms(9-11) d(1) by (simp_all add: is_dead_def listening_def nth_append)
  then obtain as2 x y where as2: "list_all silent as2" and 3: "sys_run J serve junk as2 ?s2 = Some x" "ss_pc (sy_srv x) = LDelete ?m (int d)"
      "sys_do J serve junk Return x = Some y" "alive y" "ss_pc (sy_srv y) = LLock ?m"
    using sys_evicts [OF assms(1,2), of ?s2 ?m d rest "(sy_conns s @ [?new]) ! d" serve junk] d c assms(7) by (auto simp: nth_append)
  have stopper: "ss_stopper (sy_srv x) = PClose 16"
    using sys_run_stopper [OF 3(1)] by simp
  obtain f2 where 4: "stop_run J serve junk (map Sys as2) \<lparr>sp_sys = ?s2, sp_call = Some (d, ECall 1), sp_freed = f1\<rparr>
      = Some \<lparr>sp_sys = x, sp_call = Some (d, ECall 1), sp_freed = f2\<rparr>"
    using stop_lift_any [of J serve junk as2 "\<lparr>sp_sys = ?s2, sp_call = Some (d, ECall 1), sp_freed = f1\<rparr>" x] 3(1,2) by auto
  have "alive x"
    using 3(3) by (auto simp: sys_do_def alive_def Let_def split: if_splits)
  then have 5: "stop_run J serve junk [Sys Return, Stopper] \<lparr>sp_sys = x, sp_call = Some (d, ECall 1), sp_freed = f2\<rparr>
      = Some \<lparr>sp_sys = y\<lparr>sy_srv := (sy_srv y)\<lparr>ss_stopper := PDead UseAfterFree\<rparr>\<rparr>, sp_call = Some (d, ECall 1), sp_freed = d # f2\<rparr>"
    using 3(2-5) stopper sys_do_stopper [OF 3(3)]
    by (simp add: stop_do_def stopper_do_def with_srv_def alive_def Let_def)
  let ?bs = "map Sys [Accept sock, Loop, Loop] @ [Stopper, Stopper] @ map Sys as2 @ [Sys Return, Stopper]"
  have "list_all stop_silent ?bs"
    using as2 by (simp add: list_all_iff)
  then show ?thesis
    using stop_run_then [OF 1 stop_run_then [OF 2 stop_run_then [OF 4 5]]]
    by (intro exI [of _ ?bs] exI conjI) (assumption | simp)+
qed

theorem stop_uses_deleted_witness:
  "\<exists>bs t. list_all stop_silent bs \<and> stop_run json_api on_request (\<lambda>_. NUL) bs (before_stop (crowded 16 sample_service)) = Some t
    \<and> 0 \<in> set (sp_freed t) \<and> ss_stopper (sy_srv (sp_sys t)) = PDead UseAfterFree"
proof -
  let ?s = "crowded 16 sample_service :: (unit, (nat, json) service, json) system"
  obtain as where as: "sys_run json_api on_request (\<lambda>_. NUL) as
      (new_system (new_server\<lparr>ss_pc := LHead\<rparr>) sample_service) = Some ?s"
    using sys_crowded [of 16 json_api on_request "\<lambda>_. NUL" sample_service] by auto
  have start: "running (new_server\<lparr>ss_pc := LHead\<rparr>)"
    by (simp add: running_def new_server_def)
  have "0 < (16 :: nat)"
    by simp
  note parts = crowded_parts [OF this, of sample_service]
  have rest: "length (map int [1..<16]) = 15"
    by simp
  have waits: "cn_pc (sy_conns ?s ! 0) = AtRecv" "n_reads (cn_wire (sy_conns ?s ! 0)) = []"
      "n_writes (cn_wire (sy_conns ?s ! 0)) = []"
    by (simp_all only: parts(4)) (simp_all add: Connection_def)
  show ?thesis
    by (rule stop_uses_deleted [OF json_api_laws json_api_closed_text start as parts(1-3) rest waits])
qed

end
