(* ===== verification/SockHistory.thy ===== *)
theory SockHistory
  imports SockSystem
begin

text \<open>
  sockserver.cpp, what the clients of one server see of each other: the requests of all connections are
  handled one after the other on the one service, and each client gets the replies to its own. The history
  of a run is the list of the messages in the order in which the threads handle them.
\<close>

section \<open>Histories\<close>

definition handled :: "action \<Rightarrow> ('h, 'v, 'j) system \<Rightarrow> (nat \<times> bytes) list" where
  "handled a s = (case a of
       Work i \<Rightarrow> (case cn_pc (sy_conns s ! i) of AtMessage msg \<Rightarrow> [(i, msg)] | _ \<Rightarrow> [])
     | _ \<Rightarrow> [])"

fun history ::
  "'j jconer \<Rightarrow> ('v \<times> 'j request \<Rightarrow> (exn, int) outcome \<times> 'v \<times> 'j request) \<Rightarrow> (nat \<Rightarrow> char) \<Rightarrow>
   action list \<Rightarrow> ('h, 'v, 'j) system \<Rightarrow> (nat \<times> bytes) list" where
  "history J serve junk [] s = []"
| "history J serve junk (a # as) s =
     (case sys_do J serve junk a s of None \<Rightarrow> [] | Some t \<Rightarrow> handled a s @ history J serve junk as t)"

text \<open>The same messages, handled by a program that has the service for itself.\<close>

fun handle_all ::
  "'j jconer \<Rightarrow> ('v \<times> 'j request \<Rightarrow> (exn, int) outcome \<times> 'v \<times> 'j request) \<Rightarrow> (nat \<times> bytes) list \<Rightarrow> 'v \<Rightarrow>
   (nat \<times> (exn, 'j response) outcome) list \<times> 'v" where
  "handle_all J serve [] sv = ([], sv)"
| "handle_all J serve ((i, msg) # h) sv =
     (case serve_message J serve sv msg of (r, sv') \<Rightarrow>
       (case handle_all J serve h sv' of (rs, sv'') \<Rightarrow> ((i, r) # rs, sv'')))"

definition outcomes_of :: "nat \<Rightarrow> (nat \<times> 'a) list \<Rightarrow> 'a list" where
  "outcomes_of i rs = map snd (filter (\<lambda>p. fst p = i) rs)"

definition reply_of :: "'j jconer \<Rightarrow> (exn, 'j response) outcome \<Rightarrow> bytes" where
  "reply_of J r = (case r of
       Returns p \<Rightarrow> build_response J p
     | Throws (Server e) \<Rightarrow> build_error J (get_code e)
     | _ \<Rightarrow> [])"

definition replies_text :: "'j jconer \<Rightarrow> (exn, 'j response) outcome list \<Rightarrow> bytes" where
  "replies_text J rs = concat (map (\<lambda>r. frame (reply_of J r)) rs)"

definition responses :: "(exn, 'j response) outcome list \<Rightarrow> bool" where
  "responses = list_all (\<lambda>r. case r of Returns p \<Rightarrow> True | _ \<Rightarrow> False)"

lemma history_snoc:
  "sys_run J serve junk as s = Some t \<Longrightarrow> sys_do J serve junk a t = Some u \<Longrightarrow>
    history J serve junk (as @ [a]) s = history J serve junk as s @ handled a t"
  by (induction as arbitrary: s) (auto simp: Option.bind_eq_Some_conv)

lemma handle_all_append:
  "handle_all J serve (h @ h') sv = (case handle_all J serve h sv of (rs, sv') \<Rightarrow>
     (case handle_all J serve h' sv' of (rs', sv'') \<Rightarrow> (rs @ rs', sv'')))"
  by (induction h arbitrary: sv) (auto split: prod.splits)

lemma replies_text_append: "replies_text J (rs @ rs') = replies_text J rs @ replies_text J rs'"
  by (simp add: replies_text_def)

lemma replies_text_simps: "replies_text J [] = []" "replies_text J (r # rs) = frame (reply_of J r) @ replies_text J rs"
  by (simp_all add: replies_text_def)

section \<open>One connection\<close>

text \<open>
  What its client has been sent, when its messages had these outcomes: all replies; all but the last, of
  which a part; and, when its thread has ended, perhaps one more error.
\<close>

definition all_told :: "'j jconer \<Rightarrow> (exn, 'j response) outcome list \<Rightarrow> bytes \<Rightarrow> bool" where
  "all_told J rs out \<longleftrightarrow> responses rs \<and> out = replies_text J rs"

definition cut_off :: "'j jconer \<Rightarrow> (exn, 'j response) outcome list \<Rightarrow> bytes \<Rightarrow> bool" where
  "cut_off J rs out \<longleftrightarrow> (\<exists>rs' r part. rs = rs' @ [r] \<and> responses rs'
     \<and> prefix part (frame (reply_of J r)) \<and> out = replies_text J rs' @ part)"

definition ended_with :: "'j jconer \<Rightarrow> (exn, 'j response) outcome list \<Rightarrow> bytes \<Rightarrow> bool" where
  "ended_with J rs out \<longleftrightarrow> (\<exists>out' tail. out = out' @ tail
     \<and> (cut_off J rs out' \<and> tail \<in> {[], frame (build_error J SOCKET_CLOSED)}
        \<or> all_told J rs out' \<and> (tail = [] \<or> (\<exists>e. tail = frame (build_error J (get_code e))))))"

definition failing :: "'j jconer \<Rightarrow> server_exception \<Rightarrow> (exn, 'j response) outcome list \<Rightarrow> bytes \<Rightarrow> bool" where
  "failing J e rs out \<longleftrightarrow> all_told J rs out
     \<or> (\<exists>rs'. rs = rs' @ [Throws (Server e)] \<and> all_told J rs' out)
     \<or> e = ServerCloseSocketException \<and> cut_off J rs out"

definition said :: "'j jconer \<Rightarrow> ('v, 'j) conn \<Rightarrow> (exn, 'j response) outcome list \<Rightarrow> bool" where
  "said J c rs =
     (case cn_pc c of
        AtReply p \<Rightarrow> (\<exists>rs'. rs = rs' @ [Returns p] \<and> all_told J rs' (n_sent (cn_wire c)))
      | AtCatch e \<Rightarrow> failing J e rs (n_sent (cn_wire c))
      | AtLocked e \<Rightarrow> failing J e rs (n_sent (cn_wire c))
      | AtUnlock \<Rightarrow> ended_with J rs (n_sent (cn_wire c))
      | AtEnd \<Rightarrow> ended_with J rs (n_sent (cn_wire c))
      | AtDead f \<Rightarrow> True
      | _ \<Rightarrow> all_told J rs (n_sent (cn_wire c)))"

text \<open>The results of a send: the whole frame; or a part of it, when \<open>write\<close> returns 0.\<close>

lemma Connection_send_cases:
  assumes "Connection_send junk n msg = (r, w)" "msg \<noteq> []" "length msg < 2 ^ 31"
  shows "(\<exists>part. prefix part (frame msg) \<and> n_sent w = n_sent n @ part \<and> (r = Returns () \<longrightarrow> part = frame msg))
    \<and> (\<forall>e. r = Throws e \<longrightarrow> e = Server ServerCloseSocketException)"
proof -
  obtain b where b: "SizedRDONBuffer junk (c_str msg) (size_as_int msg) = Inr b" "rdon_inv b"
      "unread b = frame msg"
    by (rule SizedRDONBuffer_frame [OF assms(2,3)])
  have "k = m" if "server_write_chk k m = Go" for k m
    using that by (simp add: server_write_chk_def split: if_splits)
  then have "\<exists>part. prefix part (frame msg) \<and> n_sent w = n_sent n @ part \<and> (r = Returns () \<longrightarrow> part = frame msg)"
    using rd.send_prefix [OF b(2) length_fresh, of server_write_chk "n_writes n" junk "n_sent n"] b(1,3) assms(1)
    by (auto simp: Connection_send_def split: prod.splits)
  moreover have "e = Server ServerCloseSocketException" if "r = Throws e" for e
  proof -
    have "fst (send_loop RDONBuffer_read server_write_chk (n_writes n) b (fresh junk CHUNK) (n_sent n)) = Throws e"
      using that assms(1) b(1) by (simp add: Connection_send_def split: prod.splits)
    from send_loop_throws [OF this] obtain k m where "server_write_chk k m = Stop e"
      by blast
    then show ?thesis
      by (simp add: server_write_chk_def split: if_splits)
  qed
  ultimately show ?thesis
    by blast
qed

section \<open>A step\<close>

definition fits_wire :: "'j jconer \<Rightarrow> (exn, 'j response) outcome list \<Rightarrow> bool" where
  "fits_wire J rs \<longleftrightarrow> (\<forall>e. length (build_error J (get_code e)) < 2 ^ 31)
     \<and> list_all (\<lambda>r. case r of Returns p \<Rightarrow> length (build_response J p) < 2 ^ 31 | _ \<Rightarrow> True) rs"

lemma caught_pc: "caught e = (case e of Server s \<Rightarrow> AtCatch s | _ \<Rightarrow> AtDead Terminate)"
  by (cases e) simp_all

lemma texts_nonempty: "json_laws J \<Longrightarrow> build_response J p \<noteq> [] \<and> build_error J k \<noteq> []"
  using dumps_text(1) [of J] by (simp add: build_response_def build_error_def)

lemma told_snoc: "all_told J rs out \<Longrightarrow> all_told J (rs @ [Returns p]) (out @ frame (build_response J p))"
  by (simp add: all_told_def responses_def replies_text_append replies_text_simps reply_of_def)

text \<open>The reply.\<close>

lemma said_reply:
  assumes "json_laws J" "cn_pc c = AtReply p" "said J c rs" "fits_wire J rs"
    "worker_step J serve junk c = Some c'"
  shows "said J c' rs"
proof -
  obtain rs' where rs: "rs = rs' @ [Returns p]" "all_told J rs' (n_sent (cn_wire c))"
    using assms(2,3) by (auto simp: said_def)
  obtain r w where r: "Connection_send_response J junk (cn_wire c) p = (r, w)"
    by (cases "Connection_send_response J junk (cn_wire c) p")
  have "length (build_response J p) < 2 ^ 31"
    using assms(4) rs(1) by (simp add: fits_wire_def)
  then obtain part where part: "prefix part (frame (build_response J p))" "n_sent w = n_sent (cn_wire c) @ part"
      "r = Returns () \<Longrightarrow> part = frame (build_response J p)" "\<And>e. r = Throws e \<Longrightarrow> e = Server ServerCloseSocketException"
    using Connection_send_cases [of junk "cn_wire c" "build_response J p" r w] r texts_nonempty [OF assms(1), of p]
    by (auto simp: Connection_send_response_def)
  have "cut_off J rs (n_sent w)"
    using rs part(1,2) by (auto simp: cut_off_def all_told_def reply_of_def)
  moreover have "r = Returns () \<Longrightarrow> all_told J rs (n_sent w)"
    using told_snoc [OF rs(2)] rs(1) part(2,3) by simp
  ultimately show ?thesis
    using assms(2,5) r part(4) by (auto simp: worker_step.simps said_def failing_def split: outcome.splits)
qed

lemma ended_withI:
  "cut_off J rs out \<Longrightarrow> ended_with J rs out"
  "cut_off J rs out \<Longrightarrow> ended_with J rs (out @ frame (build_error J SOCKET_CLOSED))"
  "all_told J rs out \<Longrightarrow> ended_with J rs out"
  "all_told J rs out \<Longrightarrow> ended_with J rs (out @ frame (build_error J (get_code e)))"
  unfolding ended_with_def by blast+

lemma cut_offI:
  "all_told J rs out \<Longrightarrow> cut_off J (rs @ [r]) out"
  "all_told J rs out \<Longrightarrow> cut_off J (rs @ [r]) (out @ frame (reply_of J r))"
  by (auto simp: cut_off_def all_told_def)

lemma failing_ends:
  assumes "failing J e rs out"
  shows "ended_with J rs out" "ended_with J rs (out @ frame (build_error J (get_code e)))"
proof -
  have err: "reply_of J (Throws (Server e)) = build_error J (get_code e)"
    by (simp add: reply_of_def)
  consider "all_told J rs out" | rs' where "rs = rs' @ [Throws (Server e)]" "all_told J rs' out"
    | "e = ServerCloseSocketException" "cut_off J rs out"
    using assms by (auto simp: failing_def)
  then have "ended_with J rs out \<and> ended_with J rs (out @ frame (build_error J (get_code e)))"
  proof cases
    case 1
    then show ?thesis
      by (simp add: ended_withI)
  next
    case (2 rs')
    then show ?thesis
      using ended_withI(1) [OF cut_offI(1) [OF 2(2)]]
        ended_withI(1) [OF cut_offI(2) [OF 2(2), of "Throws (Server e)"]] by (simp add: err)
  next
    case 3
    then show ?thesis
      using ended_withI(1,2) [OF 3(2)] by simp
  qed
  then show "ended_with J rs out" "ended_with J rs (out @ frame (build_error J (get_code e)))"
    by simp_all
qed

lemma send_error_sent:
  assumes "json_laws J" "length (build_error J code) < 2 ^ 31"
    "Connection_send_error J junk n code = (Returns u, w)"
  shows "n_sent w = n_sent n @ frame (build_error J code)"
  using Connection_send_cases [of junk n "build_error J code" "Returns u" w] assms texts_nonempty [OF assms(1)]
  by (auto simp: Connection_send_error_def)

text \<open>The error.\<close>

lemma said_error:
  assumes "json_laws J" "cn_pc c = AtLocked e" "said J c rs" "fits_wire J rs"
    "worker_step J serve junk c = Some c'"
  shows "said J c' rs"
proof -
  have fail: "failing J e rs (n_sent (cn_wire c))"
    using assms(2,3) by (simp add: said_def)
  have "n_sent w = n_sent (cn_wire c) @ frame (build_error J (get_code e))"
    if "Connection_send_error J junk (cn_wire c) (get_code e) = (Returns u, w)" for u w
    using send_error_sent [OF assms(1) _ that] assms(4) by (simp add: fits_wire_def)
  then show ?thesis
    using assms(2,5) failing_ends [OF fail]
    by (auto simp: worker_step.simps said_def split: outcome.splits prod.splits if_splits)
qed

text \<open>What is handled in a step of a connection's thread, and its outcome.\<close>

definition step_outcomes ::
  "'j jconer \<Rightarrow> ('v \<times> 'j request \<Rightarrow> (exn, int) outcome \<times> 'v \<times> 'j request) \<Rightarrow> ('v, 'j) conn \<Rightarrow>
   (exn, 'j response) outcome list" where
  "step_outcomes J serve c =
     (case cn_pc c of AtMessage msg \<Rightarrow> [fst (serve_message J serve (cn_service c) msg)] | _ \<Rightarrow> [])"

lemma said_step:
  assumes "json_laws J" "worker_step J serve junk c = Some c'" "said J c rs"
    "fits_wire J (rs @ step_outcomes J serve c)"
  shows "said J c' (rs @ step_outcomes J serve c)
    \<and> cn_service c' = (case cn_pc c of AtMessage msg \<Rightarrow> snd (serve_message J serve (cn_service c) msg) | _ \<Rightarrow> cn_service c)"
proof (cases "cn_pc c")
  case AtRecv
  obtain r w where r: "Connection_recv junk (cn_wire c) = (r, w)"
    by (cases "Connection_recv junk (cn_wire c)")
  then have "n_sent w = n_sent (cn_wire c)"
    using recv_keeps_sent [of junk "cn_wire c"] by simp
  then show ?thesis
    using AtRecv r assms(2,3)
    by (auto simp: worker_step.simps said_def step_outcomes_def failing_def caught_pc split: outcome.splits exn.splits)
next
  case (AtMessage msg)
  obtain r sv where r: "serve_message J serve (cn_service c) msg = (r, sv)"
    by (cases "serve_message J serve (cn_service c) msg")
  then show ?thesis
    using AtMessage assms(2,3)
    by (auto simp: worker_step.simps said_def step_outcomes_def failing_def caught_pc split: outcome.splits exn.splits)
next
  case (AtReply p)
  then show ?thesis
    using said_reply [OF assms(1) AtReply assms(3) _ assms(2)] assms(2,4)
    by (auto simp: step_outcomes_def worker_step.simps split: outcome.splits prod.splits)
next
  case (AtLocked e)
  then show ?thesis
    using said_error [OF assms(1) AtLocked assms(3) _ assms(2)] assms(2,4)
    by (auto simp: step_outcomes_def worker_step.simps split: outcome.splits prod.splits if_splits)
qed (use assms(2,3) in \<open>auto simp: worker_step.simps said_def step_outcomes_def failing_def ended_withI split: if_splits\<close>)

section \<open>All connections\<close>

definition history_inv :: "'j jconer \<Rightarrow> (nat \<times> (exn, 'j response) outcome) list \<Rightarrow> 'v \<Rightarrow> ('h, 'v, 'j) system \<Rightarrow> bool" where
  "history_inv J rs sv t \<longleftrightarrow> sy_service t = sv
     \<and> (\<forall>i<length (sy_conns t). said J (sy_conns t ! i) (outcomes_of i rs))
     \<and> (\<forall>i. length (sy_conns t) \<le> i \<longrightarrow> outcomes_of i rs = [])"

lemma said_cong: "cn_pc c' = cn_pc c \<Longrightarrow> n_sent (cn_wire c') = n_sent (cn_wire c) \<Longrightarrow> said J c' rs = said J c rs"
  by (cases "cn_pc c") (simp_all add: said_def)

lemma said_same:
  "said J (c\<lparr>cn_service := sv\<rparr>) rs = said J c rs" "said J (deliver bs ws c) rs = said J c rs"
  "said J (Connection sock sv n) []"
proof -
  show "said J (c\<lparr>cn_service := sv\<rparr>) rs = said J c rs" "said J (deliver bs ws c) rs = said J c rs"
    by (rule said_cong; simp add: deliver_def)+
qed (simp add: said_def Connection_def all_told_def responses_def replies_text_def)

lemma evictor_said: "evictor_step c = Some c' \<Longrightarrow> said J c' rs = said J c rs"
  by (rule said_cong) (auto simp: evictor_step.simps split: if_splits evictor_pc.splits nat.splits)

lemma outcomes_of_append: "outcomes_of i (rs @ rs') = outcomes_of i rs @ outcomes_of i rs'"
  by (simp add: outcomes_of_def)

lemma outcomes_of_pairs: "outcomes_of i (map (Pair j) xs) = (if i = j then xs else [])"
  by (induction xs) (auto simp: outcomes_of_def)

lemma fits_wire_append: "fits_wire J (rs @ rs') \<longleftrightarrow> fits_wire J rs \<and> fits_wire J rs'"
  by (auto simp: fits_wire_def)

lemma handle_handled:
  assumes "sys_do J serve junk a s = Some t"
  shows "handle_all J serve (handled a s) (sy_service s) = (case a of
       Work i \<Rightarrow> (let c = (sy_conns s ! i)\<lparr>cn_service := sy_service s\<rparr> in (map (Pair i) (step_outcomes J serve c),
          case cn_pc c of AtMessage msg \<Rightarrow> snd (serve_message J serve (sy_service s) msg) | _ \<Rightarrow> sy_service s))
     | _ \<Rightarrow> ([], sy_service s))"
  by (auto simp: handled_def step_outcomes_def Let_def split: action.splits worker_pc.splits prod.splits)

lemma history_step:
  assumes "json_laws J" "sys_do J serve junk a s = Some t" "history_inv J rs sv s"
    "handle_all J serve (handled a s) sv = (rs', sv')" "\<And>i. fits_wire J (outcomes_of i (rs @ rs'))"
  shows "history_inv J (rs @ rs') sv' t"
proof (cases a)
  case (Work i)
  let ?c = "(sy_conns s ! i)\<lparr>cn_service := sy_service s\<rparr>"
  obtain c' where c': "worker_step J serve junk ?c = Some c'" "i < length (sy_conns s)"
      "t = s\<lparr>sy_conns := (sy_conns s)[i := c'], sy_service := cn_service c'\<rparr>"
    using assms(2) Work by (auto simp: sys_do_def Let_def split: if_splits)
  have now: "rs' = map (Pair i) (step_outcomes J serve ?c)"
      "sv' = (case cn_pc ?c of AtMessage msg \<Rightarrow> snd (serve_message J serve (sy_service s) msg) | _ \<Rightarrow> sy_service s)"
    using handle_handled [OF assms(2)] assms(3,4) Work by (simp_all add: history_inv_def Let_def)
  have outs: "outcomes_of k (rs @ rs') = outcomes_of k rs @ (if k = i then step_outcomes J serve ?c else [])" for k
    by (simp add: outcomes_of_append outcomes_of_pairs now(1))
  have "said J ?c (outcomes_of i rs)"
    using assms(3) c'(2) by (simp add: history_inv_def said_same)
  moreover have "fits_wire J (outcomes_of i rs @ step_outcomes J serve ?c)"
    using assms(5) [of i] outs [of i] by simp
  ultimately have "said J c' (outcomes_of i rs @ step_outcomes J serve ?c)" "cn_service c' =
      (case cn_pc ?c of AtMessage msg \<Rightarrow> snd (serve_message J serve (cn_service ?c) msg) | _ \<Rightarrow> cn_service ?c)"
    using said_step [OF assms(1) c'(1)] by blast+
  moreover from this(2) have "cn_service c' = sv'"
    unfolding now(2) by (cases "cn_pc ?c") simp_all
  ultimately have "said J c' (outcomes_of i (rs @ rs')) \<and> cn_service c' = sv'"
    using outs [of i] by simp
  then show ?thesis
    using assms(3) c'(2,3) by (auto simp: history_inv_def outs update_nth)
next
  case (Accept sock)
  then show ?thesis
    using assms(2-4) handle_handled [OF assms(2)] said_same(3)
    by (auto simp: history_inv_def sys_do_def Let_def nth_append less_Suc_eq split: if_splits)
next
  case Call
  then show ?thesis
    using assms(2-4) handle_handled [OF assms(2)]
    by (auto simp: history_inv_def sys_do_def Let_def update_nth evictor_said split: if_splits option.splits)
next
  case (Deliver i bs ws)
  then show ?thesis
    using assms(2-4) handle_handled [OF assms(2)]
    by (auto simp: history_inv_def sys_do_def Let_def update_nth said_same split: if_splits)
qed (use assms(2-4) handle_handled [OF assms(2)] in
    \<open>auto simp: history_inv_def sys_do_def Let_def split: if_splits option.splits\<close>)

lemma history_run:
  assumes "json_laws J"
  shows "sys_run J serve junk as (new_system v sv) = Some t \<Longrightarrow>
    handle_all J serve (history J serve junk as (new_system v sv)) sv = (rs, sv') \<Longrightarrow>
    (\<And>i. fits_wire J (outcomes_of i rs)) \<Longrightarrow> history_inv J rs sv' t"
proof (induction as arbitrary: t rs sv' rule: rev_induct)
  case Nil
  then show ?case
    by (auto simp: history_inv_def new_system_def outcomes_of_def)
next
  case (snoc a as)
  obtain s where s: "sys_run J serve junk as (new_system v sv) = Some s" "sys_do J serve junk a s = Some t"
    using snoc.prems(1) by (auto simp: sys_run_append Option.bind_eq_Some_conv)
  obtain rs1 sv1 where 1: "handle_all J serve (history J serve junk as (new_system v sv)) sv = (rs1, sv1)"
    by (cases "handle_all J serve (history J serve junk as (new_system v sv)) sv")
  obtain rs2 where 2: "handle_all J serve (handled a s) sv1 = (rs2, sv')" "rs = rs1 @ rs2"
    using snoc.prems(2) by (auto simp: history_snoc [OF s] handle_all_append 1 split: prod.splits)
  have "fits_wire J (outcomes_of i rs1)" for i
    using snoc.prems(3) [of i] by (simp add: 2(2) outcomes_of_append fits_wire_append)
  then have "history_inv J rs1 sv1 s"
    using snoc.IH [OF s(1) 1] by blast
  then show ?case
    using history_step [OF assms s(2) _ 2(1)] snoc.prems(3) by (simp add: 2(2))
qed

lemma said_ended: "said J c rs \<Longrightarrow> \<not> is_dead (cn_pc c) \<Longrightarrow> ended_with J rs (n_sent (cn_wire c))"
  by (auto simp: said_def is_dead_def failing_ends intro: ended_withI cut_offI(1) split: worker_pc.splits)

lemma said_told: "said J c rs \<Longrightarrow> cn_pc c \<in> {AtLoop, AtRecv} \<Longrightarrow> all_told J rs (n_sent (cn_wire c))"
  by (auto simp: said_def)

section \<open>Property\<close>

text \<open>
  (C5) The server handles requests as if one at a time: for every interleaving of the connections, the loop and
  the kernel, the service is in the state that the handled messages, one after the other, lead to; and each
  client has been sent the replies to its own messages, in their order and complete: all of them when its
  thread waits for the next message, all but a part of the last while it is at work or has ended, followed at
  most by one error that says why it ended.
\<close>
theorem clients_see_one_service:
  assumes "json_laws J" "sys_run J serve junk as (new_system v sv) = Some t"
    "handle_all J serve (history J serve junk as (new_system v sv)) sv = (rs, sv')"
    "\<forall>i. fits_wire J (outcomes_of i rs)"
  shows "sy_service t = sv' \<and> (\<forall>i<length (sy_conns t).
      (cn_pc (sy_conns t ! i) \<in> {AtLoop, AtRecv} \<longrightarrow> all_told J (outcomes_of i rs) (n_sent (cn_wire (sy_conns t ! i))))
    \<and> (\<not> is_dead (cn_pc (sy_conns t ! i)) \<longrightarrow> ended_with J (outcomes_of i rs) (n_sent (cn_wire (sy_conns t ! i)))))"
proof -
  have inv: "history_inv J rs sv' t"
    using history_run [OF assms(1-3)] assms(4) by blast
  then show ?thesis
    using said_ended said_told unfolding history_inv_def by blast
qed

text \<open>A client connects and sends a request, which is handled.\<close>

lemma history_append:
  "sys_run J serve junk as s = Some t \<Longrightarrow>
    history J serve junk (as @ bs) s = history J serve junk as s @ history J serve junk bs t"
  by (induction as arbitrary: s) (auto simp: Option.bind_eq_Some_conv)

lemma quiet_history: "list_all (\<lambda>a. \<forall>i. a \<noteq> Work i) as \<Longrightarrow> history J serve junk as s = []"
  by (induction as arbitrary: s) (auto simp: handled_def split: option.splits action.splits)

lemma work_one:
  assumes "sy_conns s = [c]" "0 \<in> set (ss_started (sy_srv s))" "\<not> is_dead (cn_pc c)"
    "worker_step J serve junk (c\<lparr>cn_service := sy_service s\<rparr>) = Some c'"
  shows "sys_do J serve junk (Work 0) s = Some (s\<lparr>sy_conns := [c'], sy_service := cn_service c'\<rparr>)"
  using assms by (simp add: sys_do_def Let_def)

lemma one_message:
  assumes "sy_conns s = [c]" "0 \<in> set (ss_started (sy_srv s))" "cn_pc c = AtLoop" "cn_connected c"
    "cn_service c = sy_service s" "Connection_recv junk (cn_wire c) = (Returns msg, w)"
    "serve_message J serve (sy_service s) msg = (Returns p, sv)"
  shows "sys_run J serve junk (replicate 3 (Work 0)) s
      = Some (s\<lparr>sy_conns := [c\<lparr>cn_pc := AtReply p, cn_service := sv, cn_wire := w\<rparr>], sy_service := sv\<rparr>)"
    and "history J serve junk (replicate 3 (Work 0)) s = [(0, msg)]"
proof -
  let ?s1 = "s\<lparr>sy_conns := [c\<lparr>cn_pc := AtRecv\<rparr>]\<rparr>"
    and ?s2 = "s\<lparr>sy_conns := [c\<lparr>cn_pc := AtMessage msg, cn_wire := w\<rparr>]\<rparr>"
    and ?s3 = "s\<lparr>sy_conns := [c\<lparr>cn_pc := AtReply p, cn_service := sv, cn_wire := w\<rparr>], sy_service := sv\<rparr>"
  have same: "c\<lparr>cn_service := sy_service s\<rparr> = c"
    using assms(5) by simp
  have 1: "sys_do J serve junk (Work 0) s = Some ?s1"
    using assms(1-5) by (subst work_one [OF assms(1,2)]) (auto simp: same worker_step.simps is_dead_def)
  have 2: "sys_do J serve junk (Work 0) ?s1 = Some ?s2"
    using assms(2,5,6)
    by (subst work_one [where c = "c\<lparr>cn_pc := AtRecv\<rparr>" and c' = "c\<lparr>cn_pc := AtMessage msg, cn_wire := w\<rparr>"])
       (auto simp: worker_step.simps is_dead_def)
  have 3: "sys_do J serve junk (Work 0) ?s2 = Some ?s3"
    using assms(2,5,7)
    by (subst work_one [where c = "c\<lparr>cn_pc := AtMessage msg, cn_wire := w\<rparr>"
          and c' = "c\<lparr>cn_pc := AtReply p, cn_service := sv, cn_wire := w\<rparr>"])
       (auto simp: worker_step.simps is_dead_def)
  show "sys_run J serve junk (replicate 3 (Work 0)) s = Some ?s3"
    by (simp add: numeral_3_eq_3 1 2 3)
  show "history J serve junk (replicate 3 (Work 0)) s = [(0, msg)]"
    using assms(1,3) by (simp add: numeral_3_eq_3 1 2 3) (simp add: handled_def)
qed

theorem clients_see_one_service_witness:
  "\<exists>t. sys_run json_api on_request (\<lambda>_. NUL) ([Loop, Accept 3, Loop, Loop, Loop, Loop]
        @ Deliver 0 (request_reads sample_request [sample_request]) [] # replicate 3 (Work 0))
      (new_system (new_server\<lparr>ss_pc := LHead\<rparr>) sample_service) = Some t
    \<and> sv_object (sy_service t) = 1 \<and> ended_with json_api [Returns \<lparr>sout = JInt 7\<rparr>] (n_sent (cn_wire (sy_conns t ! 0)))"
proof -
  let ?s0 = "new_system (new_server\<lparr>ss_pc := LHead\<rparr>) sample_service :: (unit, (nat, json) service, json) system"
    and ?reads = "request_reads sample_request [sample_request]" and ?p = "\<lparr>sout = JInt 7\<rparr>"
    and ?sv = "sample_service\<lparr>sv_object := 1\<rparr>"
  let ?as = "[Loop, Accept 3, Loop, Loop, Loop, Loop] @ [Deliver 0 ?reads []]" and ?bs = "replicate 3 (Work 0)"
  let ?c = "deliver ?reads [] (Connection 3 sample_service 2) :: ((nat, json) service, json) conn"
  let ?v = "new_server\<lparr>ss_pc := LHead, ss_conns := [0], ss_started := [0]\<rparr>"
  let ?s1 = "\<lparr>sy_srv = ?v, sy_conns = [?c], sy_service = sample_service\<rparr>"
  have 1: "sys_run json_api on_request (\<lambda>_. NUL) ?as ?s0 = Some ?s1"
    by (rule sys_run_then, subst sys_accept_one)
       (auto simp: new_system_def new_server_def alive_def sys_do_def Let_def Connection_def is_dead_def)
  have short: "length sample_request < 2 ^ 31"
    using sample_length(2) by (rule le_less_trans) simp
  then have recv: "Connection_recv (\<lambda>_. NUL) (cn_wire ?c) = (Returns sample_request, (cn_wire ?c)\<lparr>n_reads := []\<rparr>)"
    using recv_request [of sample_request "[sample_request]" "cn_wire ?c" "[]" "\<lambda>_. NUL"] short
      pieces_whole [of sample_request] sample_length by (simp add: deliver_def Connection_def)
  let ?t = "?s1\<lparr>sy_conns := [?c\<lparr>cn_pc := AtReply ?p, cn_service := ?sv, cn_wire := (cn_wire ?c)\<lparr>n_reads := []\<rparr>\<rparr>], sy_service := ?sv\<rparr>"
  have pc: "cn_pc ?c = AtLoop" "cn_connected ?c"
    by (simp_all add: deliver_def Connection_def)
  have svc: "cn_service ?c = sample_service"
    by (simp add: deliver_def Connection_def)
  have 2: "sys_run json_api on_request (\<lambda>_. NUL) ?bs ?s1 = Some ?t"
    and h: "history json_api on_request (\<lambda>_. NUL) ?bs ?s1 = [(0, sample_request)]"
    using one_message [where s = ?s1 and c = ?c and serve = on_request and p = ?p and sv = ?sv, OF _ _ pc _ recv]
    by (simp_all add: svc sample_served)
  have quiet: "history json_api on_request (\<lambda>_. NUL) ?as ?s0 = []"
    by (rule quiet_history) simp
  have "handle_all json_api on_request [(0, sample_request)] sample_service = ([(0, Returns ?p)], ?sv)"
    by (simp add: sample_served)
  then have all: "handle_all json_api on_request (history json_api on_request (\<lambda>_. NUL) (?as @ ?bs) ?s0) sample_service
      = ([(0, Returns ?p)], ?sv)"
    by (simp only: history_append [OF 1] quiet h append_Nil)
  have outs: "outcomes_of i [(0, Returns ?p)] = (if i = 0 then [Returns ?p] else [])" for i
    by (simp add: outcomes_of_def)
  have errs: "length (build_error json_api (get_code ServerCloseSocketException)) \<le> 1024"
    "length (build_error json_api (get_code ServerMethodNotFoundException)) \<le> 1024"
    "length (build_error json_api (get_code ServerJsonNotParsedException)) \<le> 1024"
    "length (build_error json_api (get_code ServerParamMismatchException)) \<le> 1024"
    "length (build_error json_api (get_code ServerBadMessageException)) \<le> 1024"
    by code_simp+
  have "length (build_error json_api (get_code e)) \<le> 1024" for e
    by (cases e) (simp_all only: errs)
  moreover have "length (build_response json_api ?p) \<le> 1024"
    by code_simp
  moreover have "n \<le> 1024 \<Longrightarrow> n < 2 ^ 31" for n :: nat
    by simp
  ultimately have "length (build_error json_api (get_code e)) < 2 ^ 31" "length (build_response json_api ?p) < 2 ^ 31" for e
    by blast+
  then have "\<forall>i. fits_wire json_api (outcomes_of i [(0, Returns ?p)])"
    by (simp add: outs fits_wire_def)
  then have "sy_service ?t = ?sv \<and> ended_with json_api (outcomes_of 0 [(0, Returns ?p)]) (n_sent (cn_wire (sy_conns ?t ! 0)))"
    using clients_see_one_service [OF json_api_laws sys_run_then [OF 1 2] all] by (auto simp: is_dead_def)
  then have "sv_object (sy_service ?t) = 1 \<and> ended_with json_api [Returns ?p] (n_sent (cn_wire (sy_conns ?t ! 0)))"
    by (simp add: outs)
  moreover have "sys_run json_api on_request (\<lambda>_. NUL) ([Loop, Accept 3, Loop, Loop, Loop, Loop] @ Deliver 0 ?reads [] # ?bs) ?s0 = Some ?t"
    using sys_run_then [OF 1 2] by (simp only: append_assoc append_Cons append_Nil)
  ultimately show ?thesis
    by blast
qed

end
