(* ===== verification/StubDefs.thy ===== *)
theory StubDefs
  imports JsonInstance "HOL-Library.Char_ord" "HOL-Library.List_Lexorder"
begin

text \<open>
  classdef.hpp and servicedef.hpp of stubgen: what a specification says, read from its JSON
  value. A \<open>std::map\<close> from strings to strings is the list of its entries in the order of an
  iterator, that is, by key, bytes compared as unsigned chars. The records that \<open>LOG\<close> prints
  are left out.
\<close>

section \<open>Maps from strings to strings\<close>

type_synonym strmap = "(string \<times> string) list"

text \<open>\<open>m[k] = v\<close>.\<close>

fun smap_put :: "strmap \<Rightarrow> string \<Rightarrow> string \<Rightarrow> strmap" where
  "smap_put [] k v = [(k, v)]"
| "smap_put ((k', v') # m) k v =
     (if k < k' then (k, v) # (k', v') # m
      else if k = k' then (k, v) # m else (k', v') # smap_put m k v)"

definition smap_sorted :: "strmap \<Rightarrow> bool" where
  "smap_sorted m \<longleftrightarrow> sorted_wrt (<) (map fst m)"

lemma map_of_smap_put: "map_of (smap_put m k v) = (map_of m)(k \<mapsto> v)"
  by (induction m k v rule: smap_put.induct) (auto simp: fun_eq_iff)

lemma keys_smap_put: "fst ` set (smap_put m k v) = insert k (fst ` set m)"
  by (induction m k v rule: smap_put.induct) auto

lemma smap_sorted_Nil [simp]: "smap_sorted []"
  by (simp add: smap_sorted_def)

lemma smap_sorted_put: "smap_sorted m \<Longrightarrow> smap_sorted (smap_put m k v)"
proof (induction m k v rule: smap_put.induct)
  case (2 k' v' m k v)
  have "fst ` set (smap_put m k v) = insert k (fst ` set m)"
    by (rule keys_smap_put)
  then have "set (map fst (smap_put m k v)) = insert k (set (map fst m))"
    by simp
  then show ?case
    using 2 unfolding smap_sorted_def by (auto intro: less_trans simp del: set_map)
qed (simp add: smap_sorted_def)

text \<open>The entries of a map are determined by its content.\<close>

lemma smap_ext:
  assumes "smap_sorted m" "smap_sorted m'" "map_of m = map_of m'"
  shows "m = m'"
proof -
  have d: "distinct (map fst x) \<and> sorted (map fst x)" if "smap_sorted x" for x :: strmap
    using that by (simp add: smap_sorted_def strict_sorted_iff)
  have "(k, v) \<in> set m \<longleftrightarrow> (k, v) \<in> set m'" for k v
    using map_of_eq_Some_iff [of m k v] map_of_eq_Some_iff [of m' k v] d [OF assms(1)] d [OF assms(2)] assms(3)
    by simp
  then have "set m = set m'"
    by auto
  moreover have "inj_on fst (set m)"
    using d [OF assms(1)] by (simp add: distinct_map)
  ultimately show ?thesis
    using d [OF assms(1)] d [OF assms(2)] by (intro map_sorted_distinct_set_unique [of fst]) auto
qed

text \<open>A map in one expression: its keys in order, with their values.\<close>

definition smap_of :: "string set \<Rightarrow> (string \<Rightarrow> string) \<Rightarrow> strmap" where
  "smap_of K f = map (\<lambda>k. (k, f k)) (sorted_list_of_set K)"

lemma smap_sorted_of: "finite K \<Longrightarrow> smap_sorted (smap_of K f)"
  by (simp add: smap_sorted_def smap_of_def comp_def strict_sorted_iff)

lemma map_of_smap_of: "finite K \<Longrightarrow> map_of (smap_of K f) = (\<lambda>k. if k \<in> K then Some (f k) else None)"
  by (simp add: smap_of_def map_of_map_restrict restrict_map_def fun_eq_iff)

lemma smap_put_of: "finite K \<Longrightarrow> smap_put (smap_of K f) k (f k) = smap_of (insert k K) f"
  by (rule smap_ext)
     (auto simp: smap_sorted_put smap_sorted_of map_of_smap_put map_of_smap_of fun_eq_iff)

text \<open>\<open>m.insert (first, last)\<close>: a key that is there keeps its value.\<close>

fun smap_insert :: "strmap \<Rightarrow> strmap \<Rightarrow> strmap" where
  "smap_insert m [] = m"
| "smap_insert m ((k, v) # kvs) = smap_insert (if map_of m k \<noteq> None then m else smap_put m k v) kvs"

lemma smap_put_last: "\<forall>x\<in>fst ` set m. x < k \<Longrightarrow> smap_put m k v = m @ [(k, v)]"
  by (induction m k v rule: smap_put.induct) auto

lemma smap_insert_append: "smap_sorted (m @ kvs) \<Longrightarrow> smap_insert m kvs = m @ kvs"
proof (induction kvs arbitrary: m)
  case (Cons kv kvs)
  obtain k v where kv: "kv = (k, v)"
    by (cases kv)
  have less: "\<forall>x\<in>fst ` set m. x < k"
    using Cons.prems kv by (auto simp: smap_sorted_def sorted_wrt_append)
  then have "map_of m k = None"
    by (auto simp: map_of_eq_None_iff)
  then show ?case
    using Cons kv smap_put_last [OF less] by simp
qed simp

section \<open>ClassDef\<close>

record classdef =
  cd_name :: string
  cd_members :: strmap

definition ClassDef :: classdef where
  "ClassDef = \<lparr>cd_name = [], cd_members = []\<rparr>"

definition ClassDef_copy :: "classdef \<Rightarrow> classdef" where
  "ClassDef_copy other = \<lparr>cd_name = cd_name other, cd_members = smap_insert [] (cd_members other)\<rparr>"

text \<open>The new object of a move; what the old one keeps is never looked at.\<close>

definition ClassDef_move :: "classdef \<Rightarrow> classdef" where
  "ClassDef_move other = \<lparr>cd_name = cd_name other, cd_members = cd_members other\<rparr>"

definition ClassDef_add_member :: "classdef \<Rightarrow> string \<Rightarrow> string \<Rightarrow> classdef" where
  "ClassDef_add_member d name type' = d\<lparr>cd_members := smap_put (cd_members d) name type'\<rparr>"

definition ClassDef_set_name :: "classdef \<Rightarrow> string \<Rightarrow> classdef" where
  "ClassDef_set_name d name = d\<lparr>cd_name := name\<rparr>"

text \<open>
  The loop over the keys of an object, in \<open>ClassDef::from_json\<close> and in
  \<open>Function::from_json\<close>: \<open>add (keys[i], value->get (keys[i])->getString())\<close>.
\<close>

fun add_keys :: "'j jconer \<Rightarrow> ('d \<Rightarrow> string \<Rightarrow> string \<Rightarrow> 'd) \<Rightarrow> 'j \<Rightarrow> string list \<Rightarrow> 'd \<Rightarrow> fault + 'd" where
  "add_keys J add value [] d = Inr d"
| "add_keys J add value (k # ks) d =
     (case get J value k of
        None \<Rightarrow> Inl NullDeref
      | Some v \<Rightarrow> add_keys J add value ks (add d k (getString J v)))"

definition ClassDef_from_json :: "'j jconer \<Rightarrow> string \<Rightarrow> 'j option \<Rightarrow> fault + classdef" where
  "ClassDef_from_json J name value =
     (case value of
        None \<Rightarrow> Inl NullDeref
      | Some v \<Rightarrow>
          if \<not> isObject J v then Inl AssertFailed
          else add_keys J ClassDef_add_member v (getKeys J v) (ClassDef_set_name ClassDef name))"

section \<open>ServiceDef::Function\<close>

record fundef =
  fn_name :: string
  fn_rettype :: string
  fn_cname :: string
  fn_params :: strmap

definition Function_named :: "string \<Rightarrow> fundef" where
  "Function_named name = \<lparr>fn_name = name, fn_rettype = ''void'', fn_cname = [], fn_params = []\<rparr>"

definition Function :: fundef where
  "Function = \<lparr>fn_name = [], fn_rettype = ''void'', fn_cname = [], fn_params = []\<rparr>"

definition Function_in :: "string \<Rightarrow> string \<Rightarrow> fundef" where
  "Function_in name cname = \<lparr>fn_name = name, fn_rettype = ''void'', fn_cname = cname, fn_params = []\<rparr>"

definition Function_copy :: "fundef \<Rightarrow> fundef" where
  "Function_copy other =
     \<lparr>fn_name = fn_name other, fn_rettype = fn_rettype other, fn_cname = fn_cname other,
      fn_params = smap_insert [] (fn_params other)\<rparr>"

definition Function_move :: "fundef \<Rightarrow> fundef" where
  "Function_move other =
     (let f = \<lparr>fn_name = fn_name other, fn_rettype = fn_rettype other, fn_cname = fn_cname other, fn_params = []\<rparr>
      in f\<lparr>fn_params := fn_params other\<rparr>)"

definition Function_assign :: "fundef \<Rightarrow> fundef \<Rightarrow> fundef" where
  "Function_assign f other =
     f\<lparr>fn_name := fn_name other, fn_rettype := fn_rettype other, fn_cname := fn_cname other,
       fn_params := fn_params other\<rparr>"

definition Function_set_name :: "fundef \<Rightarrow> string \<Rightarrow> fundef" where
  "Function_set_name f name = f\<lparr>fn_name := name\<rparr>"

definition Function_add_param :: "fundef \<Rightarrow> string \<Rightarrow> string \<Rightarrow> fundef" where
  "Function_add_param f name type' = f\<lparr>fn_params := smap_put (fn_params f) name type'\<rparr>"

definition Function_set_cname :: "fundef \<Rightarrow> string \<Rightarrow> fundef" where
  "Function_set_cname f cname = f\<lparr>fn_cname := cname\<rparr>"

definition Function_set_rettype :: "fundef \<Rightarrow> string \<Rightarrow> fundef" where
  "Function_set_rettype f type' = f\<lparr>fn_rettype := type'\<rparr>"

fun declared_params :: "strmap \<Rightarrow> string" where
  "declared_params [] = []"
| "declared_params ((name, type') # ps) =
     type' @ '' '' @ name @ (if ps \<noteq> [] then '', '' else []) @ declared_params ps"

definition Function_get_declaration :: "fundef \<Rightarrow> bool \<Rightarrow> string" where
  "Function_get_declaration f with_class =
     fn_rettype f @ '' '' @ (if with_class then fn_cname f @ ''::'' else [])
     @ fn_name f @ ''('' @ declared_params (fn_params f) @ '')''"

definition Function_from_json :: "'j jconer \<Rightarrow> 'j option \<Rightarrow> fault + fundef" where
  "Function_from_json J value =
     (case value of
        None \<Rightarrow> Inl NullDeref
      | Some v \<Rightarrow>
          if \<not> isObject J v then Inl AssertFailed
          else
            (case get J v ''name'' of
               None \<Rightarrow> Inl AssertFailed
             | Some name \<Rightarrow>
                 if \<not> isString J name then Inl AssertFailed
                 else
                   (case get J v ''params'' of
                      None \<Rightarrow> Inl AssertFailed
                    | Some param \<Rightarrow>
                        (case (if isObject J param
                               then add_keys J Function_add_param param (getKeys J param)
                                      (Function_named (getString J name))
                               else if isNull J param then Inr (Function_named (getString J name))
                               else Inl AssertFailed) of
                           Inl e \<Rightarrow> Inl e
                         | Inr f \<Rightarrow>
                             (case get J v ''return'' of
                                None \<Rightarrow> Inr f
                              | Some returns \<Rightarrow>
                                  if \<not> isString J returns then Inl AssertFailed
                                  else Inr (Function_set_rettype f (getString J returns)))))))"

section \<open>ServiceDef\<close>

record servicedef =
  sd_name :: string
  sd_functions :: "fundef list"

definition ServiceDef :: "string \<Rightarrow> servicedef" where
  "ServiceDef name = \<lparr>sd_name = name, sd_functions = []\<rparr>"

definition ServiceDef_move :: "servicedef \<Rightarrow> servicedef" where
  "ServiceDef_move other = (ServiceDef (sd_name other))\<lparr>sd_functions := sd_functions other\<rparr>"

definition ServiceDef_add_function :: "servicedef \<Rightarrow> fundef \<Rightarrow> servicedef" where
  "ServiceDef_add_function d f = d\<lparr>sd_functions := sd_functions d @ [Function_copy f]\<rparr>"

fun add_functions :: "'j jconer \<Rightarrow> 'j \<Rightarrow> nat list \<Rightarrow> servicedef \<Rightarrow> fault + servicedef" where
  "add_functions J value [] d = Inr d"
| "add_functions J value (i # is) d =
     (case Function_from_json J (get_at J value i) of
        Inl e \<Rightarrow> Inl e
      | Inr f \<Rightarrow>
          add_functions J value is (ServiceDef_add_function d (Function_set_cname f (sd_name d))))"

definition ServiceDef_from_json :: "'j jconer \<Rightarrow> string \<Rightarrow> 'j \<Rightarrow> fault + servicedef" where
  "ServiceDef_from_json J name value = add_functions J value [0..<jsize J value] (ServiceDef name)"

section \<open>What a specification means\<close>

text \<open>
  The functions a value describes, in one expression: the parameters are the keys of
  \<open>params\<close> in ascending order.
\<close>

definition texts_of :: "'j jconer \<Rightarrow> 'j \<Rightarrow> strmap" where
  "texts_of J v = smap_of (set (getKeys J v)) (\<lambda>k. getString J (the (get J v k)))"

definition keys_found :: "'j jconer \<Rightarrow> 'j \<Rightarrow> bool" where
  "keys_found J v \<longleftrightarrow> list_all (\<lambda>k. get J v k \<noteq> None) (getKeys J v)"

definition wf_function :: "'j jconer \<Rightarrow> 'j \<Rightarrow> bool" where
  "wf_function J v \<longleftrightarrow> isObject J v
     \<and> (case get J v ''name'' of None \<Rightarrow> False | Some n \<Rightarrow> isString J n)
     \<and> (case get J v ''params'' of None \<Rightarrow> False | Some p \<Rightarrow> isObject J p \<or> isNull J p)
     \<and> (case get J v ''return'' of None \<Rightarrow> True | Some r \<Rightarrow> isString J r)"

definition function_of :: "'j jconer \<Rightarrow> string \<Rightarrow> 'j \<Rightarrow> fundef" where
  "function_of J cname v =
     \<lparr>fn_name = getString J (the (get J v ''name'')),
      fn_rettype = (case get J v ''return'' of None \<Rightarrow> ''void'' | Some r \<Rightarrow> getString J r),
      fn_cname = cname,
      fn_params = (let p = the (get J v ''params'') in if isObject J p then texts_of J p else [])\<rparr>"

definition items :: "'j jconer \<Rightarrow> 'j \<Rightarrow> 'j list" where
  "items J v = map (\<lambda>i. the (get_at J v i)) [0..<jsize J v]"

text \<open>What the code relies on: the keys and the indices of a value are there.\<close>

definition stub_laws :: "'j jconer \<Rightarrow> bool" where
  "stub_laws J \<longleftrightarrow> (\<forall>v. keys_found J v) \<and> (\<forall>v i. i < jsize J v \<longrightarrow> get_at J v i \<noteq> None)"

lemma json_keys_found: "k \<in> set (json_keys v) \<Longrightarrow> json_get v k \<noteq> None"
  by (induction v k rule: json_get.induct) auto

lemma json_api_stub_laws: "stub_laws json_api"
  using json_keys_found by (auto simp: stub_laws_def keys_found_def list_all_iff json_api_def)

section \<open>Reading\<close>

lemma add_keys_fold:
  "add_keys J add v ks d =
     (if list_all (\<lambda>k. get J v k \<noteq> None) ks
      then Inr (fold (\<lambda>k d. add d k (getString J (the (get J v k)))) ks d) else Inl NullDeref)"
  by (induction ks arbitrary: d) (auto split: option.splits)

lemma fold_smap_put: "finite K \<Longrightarrow> fold (\<lambda>k m. smap_put m k (f k)) ks (smap_of K f) = smap_of (K \<union> set ks) f"
  by (induction ks arbitrary: K) (simp_all add: smap_put_of)

lemma smap_of_empty [simp]: "smap_of {} f = []"
  by (simp add: smap_of_def)

lemma fold_texts: "fold (\<lambda>k m. smap_put m k (getString J (the (get J v k)))) (getKeys J v) [] = texts_of J v"
  using fold_smap_put [of "{}" "\<lambda>k. getString J (the (get J v k))" "getKeys J v"] by (simp add: texts_of_def)

lemma fold_add_member:
  "fold (\<lambda>k d. ClassDef_add_member d k (f k)) ks d = d\<lparr>cd_members := fold (\<lambda>k m. smap_put m k (f k)) ks (cd_members d)\<rparr>"
  by (induction ks arbitrary: d) (simp_all add: ClassDef_add_member_def)

lemma fold_add_param:
  "fold (\<lambda>k d. Function_add_param d k (f k)) ks d = d\<lparr>fn_params := fold (\<lambda>k m. smap_put m k (f k)) ks (fn_params d)\<rparr>"
  by (induction ks arbitrary: d) (simp_all add: Function_add_param_def)

lemma texts_sorted: "smap_sorted (texts_of J v)"
  by (simp add: texts_of_def smap_sorted_of)

lemma copies:
  "smap_sorted (cd_members d) \<Longrightarrow> ClassDef_copy d = d"
  "smap_sorted (fn_params f) \<Longrightarrow> Function_copy f = f"
  using smap_insert_append [of "[]"] by (simp_all add: ClassDef_copy_def Function_copy_def)

text \<open>
  Vectors that grow and functions that return by value may copy, move or assign: the value is the
  same, and so \<open>from_json\<close> does not say which is taken.
\<close>

lemma transfers:
  "smap_sorted (fn_params f) \<Longrightarrow> Function_copy f = f \<and> Function_move f = f \<and> Function_assign g f = f"
  "smap_sorted (cd_members d) \<Longrightarrow> ClassDef_copy d = d \<and> ClassDef_move d = d"
  "ServiceDef_move s = s"
  by (simp_all add: copies Function_move_def Function_assign_def ClassDef_move_def ServiceDef_move_def ServiceDef_def)

lemma function_of_sorted: "smap_sorted (fn_params (function_of J cname v))"
  by (simp add: function_of_def Let_def texts_sorted)

lemma ClassDef_from_json_exact:
  "ClassDef_from_json J name (Some v) =
     (if \<not> isObject J v then Inl AssertFailed
      else if keys_found J v then Inr \<lparr>cd_name = name, cd_members = texts_of J v\<rparr> else Inl NullDeref)"
  by (simp add: ClassDef_from_json_def add_keys_fold keys_found_def fold_add_member fold_texts
      ClassDef_set_name_def ClassDef_def)

lemma Function_from_json_exact:
  assumes "stub_laws J"
  shows "map_sum id (\<lambda>f. Function_set_cname f cname) (Function_from_json J (Some v)) =
     (if wf_function J v then Inr (function_of J cname v) else Inl AssertFailed)"
proof -
  have "keys_found J p" for p
    using assms by (simp add: stub_laws_def)
  then show ?thesis
    by (auto simp: Function_from_json_def wf_function_def function_of_def add_keys_fold keys_found_def
        fold_add_param fold_texts Function_named_def Function_set_cname_def Function_set_rettype_def
        split: option.splits)
qed

lemma add_functions_exact:
  assumes "stub_laws J" "\<forall>i\<in>set is. i < jsize J v"
  shows "add_functions J v is d =
     (if list_all (\<lambda>i. wf_function J (the (get_at J v i))) is
      then Inr (d\<lparr>sd_functions := sd_functions d @ map (\<lambda>i. function_of J (sd_name d) (the (get_at J v i))) is\<rparr>)
      else Inl AssertFailed)"
  using assms(2)
proof (induction "is" arbitrary: d)
  case (Cons i "is")
  obtain x where x: "get_at J v i = Some x"
    using Cons.prems assms(1) unfolding stub_laws_def by (metis list.set_intros(1) option.exhaust)
  show ?case
    using Function_from_json_exact [OF assms(1), of "sd_name d" x] Cons x
    by (cases "Function_from_json J (Some x)") (auto simp: ServiceDef_add_function_def copies(2) function_of_sorted split: if_splits)
qed simp

section \<open>Properties\<close>

text \<open>
  (C22) Reading a service is exact: the program goes on just when every item of the array is an
  object with a string \<open>name\<close>, \<open>params\<close> that are an object or null, and no \<open>return\<close> that is not
  a string, and stops at an assertion otherwise; it has one function per item then, in
  order, with its name, its return type (\<open>void\<close> without one) and its parameters in the
  ascending order of their names.
\<close>
theorem service_from_json_exact:
  assumes "stub_laws J"
  shows "ServiceDef_from_json J name v =
     (if list_all (wf_function J) (items J v)
      then Inr \<lparr>sd_name = name, sd_functions = map (function_of J name) (items J v)\<rparr>
      else Inl AssertFailed)"
  using add_functions_exact [OF assms, of "[0..<jsize J v]" v "ServiceDef name"]
  by (simp add: ServiceDef_from_json_def ServiceDef_def items_def list.pred_map comp_def)

text \<open>The functions of the README's example.\<close>

definition readme_service :: json where
  "readme_service =
     ACons (OCons ''params'' (OCons ''age'' (JStr ''int'') (OCons ''name'' (JStr ''string'') ONil))
              (OCons ''name'' (JStr ''sayHello'') ONil))
       (ACons (OCons ''return'' (JStr ''int'') (OCons ''params'' JNull
                (OCons ''name'' (JStr ''getRandomNumber'') ONil))) ANil)"

definition say_hello :: fundef where
  "say_hello = \<lparr>fn_name = ''sayHello'', fn_rettype = ''void'', fn_cname = ''Demo'',
                fn_params = [(''age'', ''int''), (''name'', ''string'')]\<rparr>"

definition random_number :: fundef where
  "random_number = \<lparr>fn_name = ''getRandomNumber'', fn_rettype = ''int'', fn_cname = ''Demo'', fn_params = []\<rparr>"

theorem service_from_json_exact_witness:
  "ServiceDef_from_json json_api ''Demo'' readme_service
     = Inr \<lparr>sd_name = ''Demo'', sd_functions = [say_hello, random_number]\<rparr>"
  using service_from_json_exact [OF json_api_stub_laws, of "''Demo''" readme_service]
  by (simp add: readme_service_def items_def json_api_def wf_function_def function_of_def texts_of_def
      smap_of_def Let_def say_hello_def random_number_def)

text \<open>
  (C31) The order in which the keys of an object come does not matter: two readings of a
  specification that differ only in that order give the same classes and the same
  service, so the stubs of client and server agree on the order of the parameters.
\<close>
theorem key_order_is_irrelevant:
  assumes "\<forall>v. set (keys v) = set (getKeys J v)"
  shows "ServiceDef_from_json (J\<lparr>getKeys := keys\<rparr>) name v = ServiceDef_from_json J name v
    \<and> ClassDef_from_json (J\<lparr>getKeys := keys\<rparr>) name (Some v) = ClassDef_from_json J name (Some v)"
proof -
  let ?J = "J\<lparr>getKeys := keys\<rparr>"
  have found: "keys_found ?J v = keys_found J v" for v
    using assms by (simp add: keys_found_def list_all_iff)
  have texts: "texts_of ?J v = texts_of J v" for v
    using assms by (simp add: texts_of_def)
  have "add_keys ?J Function_add_param p (getKeys ?J p) f = add_keys J Function_add_param p (getKeys J p) f"
    if "fn_params f = []" for p and f :: fundef
    using found [of p] fold_texts [of ?J p] fold_texts [of J p] texts [of p] that
    by (simp add: add_keys_fold fold_add_param keys_found_def)
  then have "Function_from_json ?J = Function_from_json J"
    by (simp add: Function_from_json_def fun_eq_iff Function_named_def cong: option.case_cong if_cong sum.case_cong)
  then have "add_functions ?J v is d = add_functions J v is d" for "is" d
    by (induction "is" arbitrary: d) (simp_all split: sum.split)
  then show ?thesis
    using found [of v] texts [of v] by (simp add: ServiceDef_from_json_def ClassDef_from_json_exact)
qed

theorem key_order_is_irrelevant_witness:
  "ServiceDef_from_json (json_api\<lparr>getKeys := rev \<circ> json_keys\<rparr>) ''Demo'' readme_service
     = ServiceDef_from_json json_api ''Demo'' readme_service"
  using key_order_is_irrelevant [of "rev \<circ> json_keys" json_api "''Demo''" readme_service]
  by (simp add: json_api_def)

end
