(* ===== verification/CppWriter.thy ===== *)
theory CppWriter
  imports StubDefs
begin

text \<open>
  writer.hpp: the text of the header that stubgen generates, piece by piece as \<open>write\<close>
  sends it to the file. The functions of other libraries are parameters: \<open>VarString::toupper\<close>
  and \<open>itos\<close>, and \<open>std::hash\<close>, whose values the standard leaves open.
\<close>

section \<open>Helpers\<close>

record externs =
  ex_toupper :: "string \<Rightarrow> string"
  ex_itos :: "nat \<Rightarrow> string"
  ex_hash :: "string \<Rightarrow> size_t"

definition nl :: string where "nl = [CHR 0x0A]"

text \<open>What \<open><<\<close> prints for an int that is not negative.\<close>

fun decimal :: "nat \<Rightarrow> string" where
  "decimal n = (if n < 10 then [char_of (48 + n)] else decimal (n div 10) @ [char_of (48 + n mod 10)])"

declare decimal.simps [simp del]

fun get_indent :: "nat \<Rightarrow> string" where
  "get_indent 0 = []"
| "get_indent (Suc level) = get_indent level @ ''  ''"

definition get_filename :: "string \<Rightarrow> string" where
  "get_filename spacename = spacename @ ''CppStub.hpp''"

definition get_protocol_name :: "string \<Rightarrow> string" where
  "get_protocol_name spacename = spacename @ ''Protocol''"

definition get_service_name :: "string \<Rightarrow> string" where
  "get_service_name spacename = spacename @ ''Service''"

definition get_client_name :: "string \<Rightarrow> string" where
  "get_client_name spacename = spacename @ ''Client''"

definition get_header_def :: "externs \<Rightarrow> string \<Rightarrow> string" where
  "get_header_def X spacename = ''__'' @ ex_toupper X spacename @ ''_CPP_STUB_HPP__''"

fun serializer_lines :: "strmap \<Rightarrow> string" where
  "serializer_lines [] = []"
| "serializer_lines ((name, type') # m) = get_indent 4 @ ''serializer & '' @ name @ '';'' @ nl @ serializer_lines m"

definition get_serializer :: "strmap \<Rightarrow> string" where
  "get_serializer variables =
     get_indent 2 @ ''template<class Serializer>'' @ nl
     @ get_indent 3 @ ''void seralize(Serializer& serializer) {'' @ nl
     @ serializer_lines variables
     @ get_indent 3 @ ''}'' @ nl"

section \<open>Classes and protocol\<close>

fun member_lines :: "strmap \<Rightarrow> string" where
  "member_lines [] = []"
| "member_lines ((name, type') # m) = ''  '' @ type' @ '' '' @ name @ '';'' @ nl @ member_lines m"

definition write_class :: "classdef \<Rightarrow> string" where
  "write_class d =
     ''//Definition of class '' @ cd_name d @ nl
     @ ''class '' @ cd_name d @ '' {'' @ nl @ nl
     @ member_lines (cd_members d)
     @ nl @ nl
     @ ''//Define serializer'' @ nl
     @ get_indent 1 @ ''public:'' @ nl
     @ get_serializer (cd_members d)
     @ nl @ nl @ ''};'' @ nl"

text \<open>
  \<open>std::abs ((int) hash)\<close>: the conversion keeps the low 32 bits; the least int has no
  absolute value.
\<close>

definition enum_value :: "externs \<Rightarrow> string \<Rightarrow> fault + nat" where
  "enum_value X upper_name =
     (let h = sint (ucast (ex_hash X upper_name) :: i32)
      in if h = - (2 ^ 31) then Inl IntOverflow else Inr (nat \<bar>h\<bar>))"

fun write_enumerators :: "externs \<Rightarrow> fundef list \<Rightarrow> fault + string" where
  "write_enumerators X [] = Inr []"
| "write_enumerators X (f # fs) =
     (let upper_name = ex_toupper X (fn_name f) in
      case enum_value X upper_name of
        Inl e \<Rightarrow> Inl e
      | Inr v \<Rightarrow>
          map_sum id (\<lambda>rest. get_indent 3 @ upper_name @ ''='' @ decimal v @ '','' @ nl @ rest)
            (write_enumerators X fs))"

definition write_protocol :: "externs \<Rightarrow> string \<Rightarrow> fundef list \<Rightarrow> fault + string" where
  "write_protocol X spacename fs =
     map_sum id
       (\<lambda>enumerators.
          ''//Protocol Definition'' @ nl
          @ ''class '' @ get_protocol_name spacename @ ''{'' @ nl
          @ get_indent 1 @ ''public:'' @ nl
          @ get_indent 2 @ ''enum {'' @ nl
          @ enumerators
          @ get_indent 2 @ ''};'' @ nl @ ''};'' @ nl)
       (write_enumerators X fs)"

section \<open>The service\<close>

definition wrapper_name :: "string \<Rightarrow> string" where
  "wrapper_name name = ''_'' @ name @ ''_wrapper''"

text \<open>
  The loop over the parameters: what it writes and \<open>param_list_string\<close>; \<open>n\<close> is \<open>params.size ()\<close>.
\<close>

fun wrapper_params :: "externs \<Rightarrow> nat \<Rightarrow> nat \<Rightarrow> string \<Rightarrow> strmap \<Rightarrow> string \<times> string" where
  "wrapper_params X n count param_list [] = ([], param_list)"
| "wrapper_params X n count param_list ((name, param_type) # ps) =
     (let param_name = ''_arg'' @ ex_itos X count;
          param_list = param_list @ param_name;
          param_list = (if count \<noteq> n - 1 then param_list @ '', '' else param_list)
      in case wrapper_params X n (count + 1) param_list ps of
           (out, param_list') \<Rightarrow>
             (get_indent 2 @ param_type @ '' '' @ param_name @ '';'' @ nl
              @ get_indent 2 @ ''sin & '' @ param_name @ '';'' @ nl @ out, param_list'))"

definition write_wrapper :: "externs \<Rightarrow> fundef \<Rightarrow> string" where
  "write_wrapper X f =
     (let name = fn_name f; params = fn_params f; rettype = fn_rettype f;
          (args, param_list) = wrapper_params X (length params) 0 [] params
      in get_indent 1 @ ''void '' @ wrapper_name name @ ''(Request* req) {'' @ nl
         @ (if length params \<noteq> 0
            then get_indent 2 @ ''InSerializer& sin = req->get_serializer();'' @ nl @ args @ nl else [])
         @ (if rettype = ''void'' then get_indent 2 @ name @ ''('' @ param_list @ '');'' @ nl
            else get_indent 2 @ rettype @ '' __r = '' @ name @ ''('' @ param_list @ '');'' @ nl
              @ get_indent 2 @ ''OutSerializer& sout = req->get_response().get_serializer();'' @ nl
              @ get_indent 2 @ ''sout & __r;'' @ nl)
         @ get_indent 1 @ ''}'' @ nl @ nl)"

definition write_reg :: "externs \<Rightarrow> string \<Rightarrow> fundef \<Rightarrow> string" where
  "write_reg X spacename f =
     get_indent 3 @ ''reg('' @ get_protocol_name spacename @ ''::'' @ ex_toupper X (fn_name f)
     @ '', &'' @ get_service_name spacename @ ''::'' @ wrapper_name (fn_name f) @ '');'' @ nl"

definition write_virtual :: "fundef \<Rightarrow> string" where
  "write_virtual f =
     get_indent 2 @ ''virtual '' @ Function_get_declaration f False @ ''{'' @ nl
     @ get_indent 3 @ ''//TODO: stub HERE'' @ nl
     @ get_indent 2 @ ''}'' @ nl"

definition write_service :: "externs \<Rightarrow> string \<Rightarrow> fundef list \<Rightarrow> string" where
  "write_service X spacename fs =
     (let service_name = get_service_name spacename in
      ''//Service Definition'' @ nl
      @ ''class '' @ service_name @ '': public '' @ ''AbstractService'' @ ''<'' @ service_name @ ''> {'' @ nl @ nl
      @ concat (map (write_wrapper X) fs)
      @ nl @ nl
      @ get_indent 1 @ ''public:'' @ nl @ nl
      @ get_indent 2 @ service_name @ ''('' @ ''ServerConnector'' @ ''& server):'' @ ''AbstractService''
      @ ''<'' @ service_name @ ''>'' @ ''(server) {'' @ nl
      @ get_indent 3 @ ''register_service();'' @ nl
      @ get_indent 2 @ ''}'' @ nl @ nl
      @ get_indent 2 @ ''void _reg_wrappers() {'' @ nl
      @ concat (map (write_reg X spacename) fs)
      @ get_indent 2 @ ''}'' @ nl @ nl
      @ concat (map write_virtual fs)
      @ nl @ nl @ ''};'' @ nl)"

section \<open>The client\<close>

fun client_params :: "strmap \<Rightarrow> string" where
  "client_params [] = []"
| "client_params ((name, type') # ps) = get_indent 3 @ ''sout & '' @ name @ '';'' @ nl @ client_params ps"

definition write_client_function :: "externs \<Rightarrow> string \<Rightarrow> fundef \<Rightarrow> string" where
  "write_client_function X spacename f =
     (let rettype = fn_rettype f; method = get_protocol_name spacename @ ''::'' @ ex_toupper X (fn_name f) in
      get_indent 2 @ ''virtual '' @ Function_get_declaration f False @ '' {'' @ nl
      @ get_indent 3 @ ''OutSerializer sout;'' @ nl
      @ client_params (fn_params f)
      @ (if rettype \<noteq> ''void'' then get_indent 3 @ rettype @ '' __r;'' @ nl else [])
      @ (if rettype \<noteq> ''void''
         then get_indent 3 @ ''call('' @ method @ '', sout, &__r);'' @ nl @ get_indent 3 @ ''return __r;'' @ nl
         else get_indent 3 @ ''call('' @ method @ '', sout);'' @ nl)
      @ get_indent 2 @ ''}'' @ nl @ nl)"

definition write_client :: "externs \<Rightarrow> string \<Rightarrow> fundef list \<Rightarrow> string" where
  "write_client X spacename fs =
     (let client_name = get_client_name spacename in
      ''//Client Definition'' @ nl
      @ ''class '' @ client_name @ '' : public '' @ ''AbstractClient'' @ '' {'' @ nl @ nl
      @ get_indent 1 @ ''public:'' @ nl
      @ get_indent 2 @ client_name @ ''('' @ ''ClientConnector'' @ ''& client) : '' @ ''AbstractClient''
      @ ''(client) {}'' @ nl
      @ concat (map (write_client_function X spacename) fs)
      @ nl @ nl @ ''};'' @ nl)"

section \<open>The file\<close>

definition write_includes :: string where
  "write_includes =
     nl @ nl @ ''#include \"json-rpc/all.hpp\"'' @ nl
     @ ''#include \"jconer/json.hpp\"'' @ nl
     @ ''#include <iostream>'' @ nl
     @ ''#include <string>'' @ nl
     @ ''#include <vector>'' @ nl
     @ ''#include <map>'' @ nl
     @ ''#include <list>'' @ nl
     @ ''#include <set>'' @ nl
     @ nl
     @ ''using namespace std;'' @ nl
     @ ''using namespace JCONER;'' @ nl
     @ nl"

definition stub_text :: "externs \<Rightarrow> string \<Rightarrow> classdef list \<Rightarrow> servicedef \<Rightarrow> fault + string" where
  "stub_text X spacename classdefs sv =
     map_sum id
       (\<lambda>protocol.
          ''#ifndef '' @ get_header_def X spacename @ nl
          @ ''#define '' @ get_header_def X spacename @ nl
          @ write_includes
          @ concat (map (\<lambda>d. write_class (ClassDef_copy d)) classdefs)
          @ protocol
          @ write_service X spacename (sd_functions sv)
          @ write_client X spacename (sd_functions sv)
          @ ''#endif //'' @ get_header_def X spacename)
       (write_protocol X spacename (sd_functions sv))"

text \<open>
  \<open>write\<close> on a file system; \<open>opens\<close> says whether the file can be opened. If not, everything
  that is sent to the stream is dropped, and nobody is told.
\<close>

definition CppWriter_write ::
  "externs \<Rightarrow> string \<Rightarrow> classdef list \<Rightarrow> servicedef \<Rightarrow> (string \<Rightarrow> bool) \<Rightarrow> (string \<rightharpoonup> string) \<Rightarrow> fault + (string \<rightharpoonup> string)"
where
  "CppWriter_write X spacename classdefs sv opens files =
     (case stub_text X spacename classdefs sv of
        Inl e \<Rightarrow> Inl e
      | Inr out \<Rightarrow>
          if opens (get_filename spacename) then Inr (files(get_filename spacename \<mapsto> out)) else Inr files)"

end
