(* ===== verification/StubRun.thy ===== *)
theory StubRun
  imports CppWriter Service
begin

text \<open>
  What the generated stubs do. The bodies of a wrapper and of a client function are lists of
  statements; the text that stubgen writes is what \<open>render\<close> makes of them. \<open>exec\<close>
  runs the statements: a serializer is a list of values, the methods of the user and the remote
  call are functions on a state. The rules of C++ on names are not modelled: the stubs are
  supposed to compile. This is a reading of the generated code, used to state what
  the text is good for; it has no counterpart in the source.
\<close>

section \<open>Statements\<close>

datatype stmt =
    DeclIn
  | Decl string string                 \<comment> \<open>type and name\<close>
  | ReadIn string
  | Blank
  | CallVoid string "string list"
  | CallRet string string "string list"    \<comment> \<open>type, method, arguments\<close>
  | DeclOutRef
  | DeclOut
  | WriteOut string
  | Rpc string bool                    \<comment> \<open>enumerator; is there a result?\<close>
  | Return

fun commas :: "string list \<Rightarrow> string" where
  "commas [] = []"
| "commas [a] = a"
| "commas (a # b # as) = a @ '', '' @ commas (b # as)"

fun code_of :: "stmt \<Rightarrow> string" where
  "code_of DeclIn = ''InSerializer& sin = req->get_serializer();''"
| "code_of (Decl t x) = t @ '' '' @ x @ '';''"
| "code_of (ReadIn x) = ''sin & '' @ x @ '';''"
| "code_of Blank = []"
| "code_of (CallVoid f as) = f @ ''('' @ commas as @ '');''"
| "code_of (CallRet t f as) = t @ '' __r = '' @ f @ ''('' @ commas as @ '');''"
| "code_of DeclOutRef = ''OutSerializer& sout = req->get_response().get_serializer();''"
| "code_of DeclOut = ''OutSerializer sout;''"
| "code_of (WriteOut x) = ''sout & '' @ x @ '';''"
| "code_of (Rpc m res) = ''call('' @ m @ (if res then '', sout, &__r);'' else '', sout);'')"
| "code_of Return = ''return __r;''"

definition render :: "nat \<Rightarrow> stmt \<Rightarrow> string" where
  "render level s = (if s = Blank then nl else get_indent level @ code_of s @ nl)"

definition arg :: "externs \<Rightarrow> nat \<Rightarrow> string" where
  "arg X i = ''_arg'' @ ex_itos X i"

fun read_args :: "externs \<Rightarrow> nat \<Rightarrow> strmap \<Rightarrow> stmt list" where
  "read_args X i [] = []"
| "read_args X i ((name, t) # ps) = Decl t (arg X i) # ReadIn (arg X i) # read_args X (Suc i) ps"

definition wrapper_stmts :: "externs \<Rightarrow> fundef \<Rightarrow> stmt list" where
  "wrapper_stmts X f =
     (let args = map (arg X) [0..<length (fn_params f)] in
      (if fn_params f = [] then [] else DeclIn # read_args X 0 (fn_params f) @ [Blank])
      @ (if fn_rettype f = ''void'' then [CallVoid (fn_name f) args]
         else [CallRet (fn_rettype f) (fn_name f) args, DeclOutRef, WriteOut ''__r'']))"

definition enumerator :: "externs \<Rightarrow> string \<Rightarrow> fundef \<Rightarrow> string" where
  "enumerator X spacename f = get_protocol_name spacename @ ''::'' @ ex_toupper X (fn_name f)"

definition client_stmts :: "externs \<Rightarrow> string \<Rightarrow> fundef \<Rightarrow> stmt list" where
  "client_stmts X spacename f =
     DeclOut # map (\<lambda>p. WriteOut (fst p)) (fn_params f)
     @ (if fn_rettype f = ''void'' then [Rpc (enumerator X spacename f) False]
        else [Decl (fn_rettype f) ''__r'', Rpc (enumerator X spacename f) True, Return])"

section \<open>Runs\<close>

record ('v, 'o) frame =
  fr_vars :: "string \<rightharpoonup> 'v"
  fr_ins :: "'v list"
  fr_outs :: "'v list"
  fr_world :: 'o
  fr_result :: "'v option"

fun exec1 ::
  "(string \<Rightarrow> 'v list \<Rightarrow> 'o \<Rightarrow> (exn, 'v) outcome \<times> 'o) \<Rightarrow>
   (string \<Rightarrow> bool \<Rightarrow> 'v list \<Rightarrow> 'o \<Rightarrow> (exn, 'v option) outcome \<times> 'o) \<Rightarrow>
   stmt \<Rightarrow> ('v, 'o) frame \<Rightarrow> (exn, unit) outcome \<times> ('v, 'o) frame" where
  "exec1 meth rpc (ReadIn x) s =
     (case fr_ins s of
        [] \<Rightarrow> (Throws SerializeFailException, s)
      | v # vs \<Rightarrow> (Returns (), s\<lparr>fr_vars := (fr_vars s)(x \<mapsto> v), fr_ins := vs\<rparr>))"
| "exec1 meth rpc (CallVoid f as) s =
     (case those (map (fr_vars s) as) of
        None \<Rightarrow> (Faults Uninitialised, s)
      | Some vs \<Rightarrow>
          (case meth f vs (fr_world s) of (r, w) \<Rightarrow> (obind r (\<lambda>_. Returns ()), s\<lparr>fr_world := w\<rparr>)))"
| "exec1 meth rpc (CallRet t f as) s =
     (case those (map (fr_vars s) as) of
        None \<Rightarrow> (Faults Uninitialised, s)
      | Some vs \<Rightarrow>
          (case meth f vs (fr_world s) of (r, w) \<Rightarrow>
             pbind (r, s\<lparr>fr_world := w\<rparr>)
               (\<lambda>v s. (Returns (), s\<lparr>fr_vars := (fr_vars s)(''__r'' \<mapsto> v)\<rparr>))))"
| "exec1 meth rpc (WriteOut x) s =
     (case fr_vars s x of
        None \<Rightarrow> (Faults Uninitialised, s)
      | Some v \<Rightarrow> (Returns (), s\<lparr>fr_outs := fr_outs s @ [v]\<rparr>))"
| "exec1 meth rpc (Rpc m res) s =
     (case rpc m res (fr_outs s) (fr_world s) of (r, w) \<Rightarrow>
        pbind (r, s\<lparr>fr_world := w\<rparr>)
          (\<lambda>v s. (Returns (), case v of None \<Rightarrow> s | Some v \<Rightarrow> s\<lparr>fr_vars := (fr_vars s)(''__r'' \<mapsto> v)\<rparr>)))"
| "exec1 meth rpc Return s =
     (case fr_vars s ''__r'' of
        None \<Rightarrow> (Faults Uninitialised, s)
      | Some v \<Rightarrow> (Returns (), s\<lparr>fr_result := Some v\<rparr>))"
| "exec1 meth rpc _ s = (Returns (), s)"

fun exec where
  "exec meth rpc [] s = (Returns (), s)"
| "exec meth rpc (st # sts) s = pbind (exec1 meth rpc st s) (\<lambda>_ s. exec meth rpc sts s)"

definition start_frame :: "(string \<rightharpoonup> 'v) \<Rightarrow> 'v list \<Rightarrow> 'o \<Rightarrow> ('v, 'o) frame" where
  "start_frame vars ins w = \<lparr>fr_vars = vars, fr_ins = ins, fr_outs = [], fr_world = w, fr_result = None\<rparr>"

text \<open>A wrapper on the values of the request: what it writes to the response.\<close>

definition run_wrapper ::
  "externs \<Rightarrow> (string \<Rightarrow> 'v list \<Rightarrow> 'o \<Rightarrow> (exn, 'v) outcome \<times> 'o) \<Rightarrow> fundef \<Rightarrow> 'v list \<Rightarrow> 'o \<Rightarrow>
   (exn, 'v list) outcome \<times> 'o" where
  "run_wrapper X meth f ins w =
     (case exec meth (\<lambda>m res vs w. (Waits, w)) (wrapper_stmts X f) (start_frame Map.empty ins w) of
        (r, s) \<Rightarrow> (obind r (\<lambda>_. Returns (fr_outs s)), fr_world s))"

text \<open>A client function on its arguments: its result, if it has one.\<close>

definition run_client ::
  "externs \<Rightarrow> string \<Rightarrow> (string \<Rightarrow> bool \<Rightarrow> 'v list \<Rightarrow> 'o \<Rightarrow> (exn, 'v option) outcome \<times> 'o) \<Rightarrow> fundef \<Rightarrow>
   'v list \<Rightarrow> 'o \<Rightarrow> (exn, 'v option) outcome \<times> 'o" where
  "run_client X spacename rpc f args w =
     (case exec (\<lambda>f vs w. (Waits, w)) rpc (client_stmts X spacename f)
             (start_frame (map_of (zip (map fst (fn_params f)) args)) [] w) of
        (r, s) \<Rightarrow> (obind r (\<lambda>_. Returns (fr_result s)), fr_world s))"

section \<open>The text is the statements\<close>

lemma commas_snoc: "commas (as @ [a]) = (if as = [] then a else commas as @ '', '' @ a)"
  by (induction as rule: commas.induct) auto

lemma wrapper_params_Cons:
  "wrapper_params X n i acc ((name, t) # ps) =
     (case wrapper_params X n (Suc i) (acc @ arg X i @ (if i \<noteq> n - 1 then '', '' else [])) ps of
        (out, l) \<Rightarrow> (render 2 (Decl t (arg X i)) @ render 2 (ReadIn (arg X i)) @ out, l))"
  by (simp add: render_def Let_def flip: arg_def) (simp add: arg_def)

lemma wrapper_params_stmts:
  assumes "n = i + length ps"
  shows "wrapper_params X n i acc ps =
    (concat (map (render 2) (read_args X i ps)), acc @ commas (map (arg X) [i..<n]))"
  using assms
proof (induction ps arbitrary: i acc)
  case (Cons p ps)
  obtain name t where p: "p = (name, t)"
    by (cases p)
  have next_args: "[i..<n] = i # [Suc i..<n]"
    using Cons.prems by (intro upt_conv_Cons) simp
  have last: "i \<noteq> n - 1 \<longleftrightarrow> ps \<noteq> []"
    using Cons.prems by (cases ps) simp_all
  have "commas (map (arg X) [i..<n]) = arg X i @ (if ps = [] then [] else '', '' @ commas (map (arg X) [Suc i..<n]))"
  proof (cases ps)
    case (Cons q qs)
    then have "[Suc i..<n] = Suc i # [Suc (Suc i)..<n]"
      using Cons.prems by (intro upt_conv_Cons) simp
    then show ?thesis
      using Cons next_args by simp
  qed (use next_args Cons.prems in simp)
  moreover have "wrapper_params X n (Suc i) acc' ps =
      (concat (map (render 2) (read_args X (Suc i) ps)), acc' @ commas (map (arg X) [Suc i..<n]))" for acc'
    using Cons.IH Cons.prems by simp
  moreover have "commas (map (arg X) [Suc i..<n]) = []" if "ps = []"
    using that Cons.prems by simp
  ultimately show ?case
    using p last by (simp add: wrapper_params_Cons del: wrapper_params.simps)
qed simp

lemma client_params_stmts:
  "client_params ps = concat (map (render 3) (map (\<lambda>p. WriteOut (fst p)) ps))"
  by (induction ps rule: client_params.induct) (simp_all add: render_def)

text \<open>
  (C23) The text of a wrapper and of a client function is exactly the text of their
  statements, one per line, between the heads and the closing braces.
\<close>
theorem stub_text_is_statements:
  "write_wrapper X f = get_indent 1 @ ''void '' @ wrapper_name (fn_name f) @ ''(Request* req) {'' @ nl
      @ concat (map (render 2) (wrapper_stmts X f)) @ get_indent 1 @ ''}'' @ nl @ nl
   \<and> write_client_function X spacename f =
      get_indent 2 @ ''virtual '' @ Function_get_declaration f False @ '' {'' @ nl
      @ concat (map (render 3) (client_stmts X spacename f)) @ get_indent 2 @ ''}'' @ nl @ nl"
proof
  have args: "wrapper_params X (length (fn_params f)) 0 [] (fn_params f) =
      (concat (map (render 2) (read_args X 0 (fn_params f))), commas (map (arg X) [0..<length (fn_params f)]))"
    by (subst wrapper_params_stmts) simp_all
  show "write_wrapper X f = get_indent 1 @ ''void '' @ wrapper_name (fn_name f) @ ''(Request* req) {'' @ nl
      @ concat (map (render 2) (wrapper_stmts X f)) @ get_indent 1 @ ''}'' @ nl @ nl"
    unfolding write_wrapper_def Let_def args
    by (simp add: wrapper_stmts_def Let_def render_def)
  show "write_client_function X spacename f =
      get_indent 2 @ ''virtual '' @ Function_get_declaration f False @ '' {'' @ nl
      @ concat (map (render 3) (client_stmts X spacename f)) @ get_indent 2 @ ''}'' @ nl @ nl"
    by (simp add: write_client_function_def client_stmts_def client_params_stmts render_def Let_def
        enumerator_def)
qed

section \<open>Scoping\<close>

lemma arg_inject: "inj (ex_itos X) \<Longrightarrow> arg X i = arg X j \<longleftrightarrow> i = j"
  by (simp add: arg_def inj_eq)

lemma arg_names [simp]:
  "arg X i \<noteq> ''sin''" "arg X i \<noteq> ''req''" "arg X i \<noteq> ''sout''" "arg X i \<noteq> ''__r''"
  "''sin'' \<notin> arg X ` A" "''req'' \<notin> arg X ` A" "''sout'' \<notin> arg X ` A" "''__r'' \<notin> arg X ` A"
  by (auto simp: arg_def)

lemma arg_range:
  "arg X ` {i..<i + length (p # ps)} = insert (arg X i) (arg X ` {Suc i..<Suc i + length ps})"
proof -
  have "{i..<i + length (p # ps)} = insert i {Suc i..<Suc i + length ps}"
    by auto
  then show ?thesis
    by (metis image_insert)
qed

text \<open>Unary numbers and the identity: functions that can stand for the libraries'.\<close>

definition sample_externs :: externs where
  "sample_externs = \<lparr>ex_toupper = id, ex_itos = (\<lambda>n. replicate n CHR ''i''), ex_hash = (\<lambda>s. word_of_nat (length s))\<rparr>"

lemma sample_itos: "inj (ex_itos sample_externs)"
  by (rule injI) (simp add: sample_externs_def replicate_eq_replicate)

section \<open>What a wrapper and a client function do\<close>

lemma exec_append: "exec meth rpc (sts @ sts') s = pbind (exec meth rpc sts s) (\<lambda>_ s. exec meth rpc sts' s)"
proof (induction sts arbitrary: s)
  case (Cons st sts)
  obtain r s' where "exec1 meth rpc st s = (r, s')"
    by (cases "exec1 meth rpc st s")
  then show ?case
    using Cons by (cases r) simp_all
qed simp

lemma those_Some: "those (map Some vs) = Some vs"
  by (induction vs) simp_all

lemma exec_read_args:
  assumes "inj (ex_itos X)" "length ps \<le> length (fr_ins s)"
  shows "\<exists>vars. exec meth rpc (read_args X i ps) s =
      (Returns (), s\<lparr>fr_vars := vars, fr_ins := drop (length ps) (fr_ins s)\<rparr>)
    \<and> map vars (map (arg X) [i..<i + length ps]) = map Some (take (length ps) (fr_ins s))
    \<and> (\<forall>x. x \<notin> arg X ` {i..<i + length ps} \<longrightarrow> vars x = fr_vars s x)"
  using assms(2)
proof (induction ps arbitrary: i s)
  case Nil
  then show ?case
    by (intro exI [of _ "fr_vars s"]) simp
next
  case (Cons p ps)
  obtain name t where p: "p = (name, t)"
    by (cases p)
  obtain v vs where ins: "fr_ins s = v # vs"
    using Cons.prems by (cases "fr_ins s") auto
  let ?s = "s\<lparr>fr_vars := (fr_vars s)(arg X i \<mapsto> v), fr_ins := vs\<rparr>"
  obtain vars where vars: "exec meth rpc (read_args X (Suc i) ps) ?s =
      (Returns (), ?s\<lparr>fr_vars := vars, fr_ins := drop (length ps) vs\<rparr>)"
      "map vars (map (arg X) [Suc i..<Suc i + length ps]) = map Some (take (length ps) vs)"
      "\<forall>x. x \<notin> arg X ` {Suc i..<Suc i + length ps} \<longrightarrow> vars x = fr_vars ?s x"
    using Cons.IH [of ?s "Suc i"] Cons.prems ins by auto
  have "arg X i \<notin> arg X ` {Suc i..<Suc i + length ps}"
    using assms(1) by (auto simp: arg_inject)
  then have "vars (arg X i) = Some v"
    using vars(3) by simp
  moreover have "[i..<i + length (p # ps)] = i # [Suc i..<Suc i + length ps]"
    by (simp add: upt_conv_Cons del: upt_Suc)
  moreover have "vars x = fr_vars s x" if "x \<notin> arg X ` {i..<i + length (p # ps)}" for x
    using that vars(3) unfolding arg_range by simp
  ultimately show ?case
    using vars p ins by (intro exI [of _ vars]) (auto simp del: upt_Suc)
qed

lemma exec_read_args_short:
  "length (fr_ins s) < length ps \<Longrightarrow>
     \<exists>s'. exec meth rpc (read_args X i ps) s = (Throws SerializeFailException, s') \<and> fr_world s' = fr_world s"
proof (induction ps arbitrary: i s)
  case (Cons p ps)
  obtain name t where p: "p = (name, t)"
    by (cases p)
  show ?case
  proof (cases "fr_ins s")
    case (Cons v vs)
    then show ?thesis
      using Cons.IH [of "s\<lparr>fr_vars := (fr_vars s)(arg X i \<mapsto> v), fr_ins := vs\<rparr>" "Suc i"] Cons.prems p by auto
  qed (use p in simp)
qed simp

lemma exec_writes:
  "map (fr_vars s) (map fst ps) = map Some vs \<Longrightarrow>
     exec meth rpc (map (\<lambda>p. WriteOut (fst p)) ps) s = (Returns (), s\<lparr>fr_outs := fr_outs s @ vs\<rparr>)"
proof (induction ps arbitrary: vs s)
  case (Cons p ps)
  then obtain v vs' where "vs = v # vs'" "fr_vars s (fst p) = Some v" "map (fr_vars s) (map fst ps) = map Some vs'"
    by (cases vs) auto
  then show ?case
    using Cons.IH [of "s\<lparr>fr_outs := fr_outs s @ [v]\<rparr>" vs'] by simp
qed simp

text \<open>What a method's result is on the wire.\<close>

definition reply_values :: "fundef \<Rightarrow> 'v \<Rightarrow> 'v list" where
  "reply_values f v = (if fn_rettype f = ''void'' then [] else [v])"

lemma run_wrapper_calls:
  assumes "inj (ex_itos X)" "length (fn_params f) \<le> length ins"
  shows "run_wrapper X meth f ins w =
    (case meth (fn_name f) (take (length (fn_params f)) ins) w of
       (r, w') \<Rightarrow> (obind r (\<lambda>v. Returns (reply_values f v)), w'))"
proof -
  let ?n = "length (fn_params f)" and ?s = "start_frame Map.empty ins w :: ('a, 'b) frame"
  let ?rpc = "\<lambda>m res vs w. (Waits, w)"
  have call: "exec meth ?rpc
      (if fn_rettype f = ''void'' then [CallVoid (fn_name f) (map (arg X) [0..<?n])]
       else [CallRet (fn_rettype f) (fn_name f) (map (arg X) [0..<?n]), DeclOutRef, WriteOut ''__r'']) s =
      (case meth (fn_name f) (take ?n ins) w of (r, w') \<Rightarrow>
        pbind (r, s\<lparr>fr_world := w'\<rparr>) (\<lambda>v s. (Returns (),
          if fn_rettype f = ''void'' then s
          else s\<lparr>fr_vars := (fr_vars s)(''__r'' \<mapsto> v), fr_outs := [v]\<rparr>)))"
    if "map (fr_vars s) (map (arg X) [0..<?n]) = map Some (take ?n ins)" "fr_world s = w" "fr_outs s = []"
    for s :: "('a, 'b) frame"
  proof -
    obtain r w' where "meth (fn_name f) (take ?n ins) w = (r, w')"
      by fastforce
    moreover have "those (map (fr_vars s) (map (arg X) [0..<?n])) = Some (take ?n ins)"
      using that(1) by (simp only: those_Some)
    ultimately show ?thesis
      using that(2,3) by (cases r) (simp_all del: map_map)
  qed
  obtain vars where vars: "exec meth ?rpc (read_args X 0 (fn_params f)) ?s =
      (Returns (), ?s\<lparr>fr_vars := vars, fr_ins := drop ?n ins\<rparr>)"
      "map vars (map (arg X) [0..<?n]) = map Some (take ?n ins)"
    using exec_read_args [OF assms(1), of "fn_params f" ?s meth ?rpc 0] assms(2) by (auto simp: start_frame_def)
  obtain r w' where m: "meth (fn_name f) (take ?n ins) w = (r, w')"
    by fastforce
  have "exec meth ?rpc (wrapper_stmts X f) ?s = exec meth ?rpc
      (if fn_rettype f = ''void'' then [CallVoid (fn_name f) (map (arg X) [0..<?n])]
       else [CallRet (fn_rettype f) (fn_name f) (map (arg X) [0..<?n]), DeclOutRef, WriteOut ''__r''])
      (?s\<lparr>fr_vars := vars, fr_ins := drop ?n ins\<rparr>)"
  proof (cases "fn_params f = []")
    case True
    then have "?s\<lparr>fr_vars := vars, fr_ins := drop ?n ins\<rparr> = ?s"
      using vars(1) by simp
    then show ?thesis
      using True by (simp add: wrapper_stmts_def)
  next
    case False
    then show ?thesis
      using vars(1) by (simp add: wrapper_stmts_def Let_def exec_append del: exec.simps(2))
         (simp add: exec_append)
  qed
  also have "\<dots> = (case meth (fn_name f) (take ?n ins) w of (r, w') \<Rightarrow>
      pbind (r, (?s\<lparr>fr_vars := vars, fr_ins := drop ?n ins\<rparr>)\<lparr>fr_world := w'\<rparr>) (\<lambda>v s. (Returns (),
        if fn_rettype f = ''void'' then s else s\<lparr>fr_vars := (fr_vars s)(''__r'' \<mapsto> v), fr_outs := [v]\<rparr>)))"
    using vars(2) by (intro call) (simp_all add: start_frame_def)
  finally show ?thesis
    using m by (cases r) (simp_all add: run_wrapper_def start_frame_def reply_values_def)
qed

lemma run_wrapper_short:
  assumes "length ins < length (fn_params f)"
  shows "run_wrapper X meth f ins w = (Throws SerializeFailException, w)"
proof -
  obtain s' where "exec meth (\<lambda>m res vs w. (Waits, w)) (read_args X 0 (fn_params f)) (start_frame Map.empty ins w)
      = (Throws SerializeFailException, s')" "fr_world s' = w"
    using exec_read_args_short [of "start_frame Map.empty ins w" "fn_params f" meth "\<lambda>m res vs w. (Waits, w)" X 0] assms
    by (auto simp: start_frame_def)
  moreover have "fn_params f \<noteq> []"
    using assms by auto
  ultimately show ?thesis
    by (simp add: run_wrapper_def wrapper_stmts_def Let_def exec_append)
qed

lemma run_client_calls:
  assumes "distinct (map fst (fn_params f))" "length args = length (fn_params f)"
  shows "run_client X spacename rpc f args w =
    (case rpc (enumerator X spacename f) (fn_rettype f \<noteq> ''void'') args w of
       (r, w') \<Rightarrow>
         (obind r (\<lambda>v. if fn_rettype f = ''void'' then Returns None
                       else case v of Some v \<Rightarrow> Returns (Some v)
                            | None \<Rightarrow> (case map_of (zip (map fst (fn_params f)) args) ''__r'' of
                                None \<Rightarrow> Faults Uninitialised | Some v \<Rightarrow> Returns (Some v))), w'))"
proof -
  let ?vars = "map_of (zip (map fst (fn_params f)) args)"
  have vals: "map (fr_vars (start_frame ?vars [] w)) (map fst (fn_params f)) = map Some args"
    using assms by (intro nth_equalityI) (force simp: start_frame_def set_zip)+
  obtain r w' where "rpc (enumerator X spacename f) (fn_rettype f \<noteq> ''void'') args w = (r, w')"
    by fastforce
  then show ?thesis
    using exec_writes [OF vals]
    by (cases r) (auto simp: run_client_def client_stmts_def exec_append start_frame_def split: option.split)
qed

end
