(* ===== verification/StubService.thy ===== *)
theory StubService
  imports StubRun
begin

text \<open>
  The generated client on the generated service, through the real protocol: the client
  function serializes its arguments, \<open>call\<close> makes the request, \<open>on_request\<close> finds the
  wrapper that \<open>_reg_wrappers\<close> registered, and the reply comes back. The serializers belong
  to JConer: \<open>ser\<close> makes the array of an \<open>OutSerializer\<close> from the values written to it and
  \<open>deser\<close> takes it apart.
\<close>

definition serial_laws :: "'j jconer \<Rightarrow> ('v list \<Rightarrow> 'j) \<Rightarrow> ('j \<Rightarrow> 'v list option) \<Rightarrow> bool" where
  "serial_laws J ser deser \<longleftrightarrow> (\<forall>vs. isArray J (ser vs) \<and> deser (ser vs) = Some vs)"

text \<open>The value of a method's enumerator, as the handler id it becomes.\<close>

definition id_of :: "externs \<Rightarrow> fundef \<Rightarrow> size_t" where
  "id_of X f = word_of_nat (projr (enum_value X (ex_toupper X (fn_name f))))"

definition wrapper_handler ::
  "externs \<Rightarrow> ('v list \<Rightarrow> 'j) \<Rightarrow> ('j \<Rightarrow> 'v list option) \<Rightarrow>
   (string \<Rightarrow> 'v list \<Rightarrow> 'o \<Rightarrow> (exn, 'v) outcome \<times> 'o) \<Rightarrow> fundef \<Rightarrow> ('o, 'j) handler" where
  "wrapper_handler X ser deser meth f = (\<lambda>(obj, q).
     case deser (sin q) of
       None \<Rightarrow> (Throws SerializeFailException, obj, q)
     | Some ins \<Rightarrow>
         (case run_wrapper X meth f ins obj of (r, obj') \<Rightarrow>
           (obind r (\<lambda>_. Returns ()), obj',
            case r of Returns (v # vs) \<Rightarrow> q\<lparr>resp := \<lparr>sout = ser (v # vs)\<rparr>\<rparr> | _ \<Rightarrow> q)))"

definition generated_service ::
  "externs \<Rightarrow> ('v list \<Rightarrow> 'j) \<Rightarrow> ('j \<Rightarrow> 'v list option) \<Rightarrow>
   (string \<Rightarrow> 'v list \<Rightarrow> 'o \<Rightarrow> (exn, 'v) outcome \<times> 'o) \<Rightarrow> fundef list \<Rightarrow> 'o \<Rightarrow> ('o, 'j) service" where
  "generated_service X ser deser meth fs obj =
     snd (register_service (new_service obj) (map (\<lambda>f. (id_of X f, wrapper_handler X ser deser meth f)) fs))"

text \<open>A connector that hands each message to a service in the same process, which answers as the poll server does.\<close>

definition direct_sr ::
  "'j jconer \<Rightarrow> bytes \<Rightarrow> ('o, 'j) service \<Rightarrow> (exn, bytes) outcome \<times> ('o, 'j) service" where
  "direct_sr J msg sv =
     (case serve_message J on_request sv msg of (r, sv') \<Rightarrow>
       (case poll_replies J r of t # _ \<Rightarrow> Returns t | [] \<Rightarrow> Waits, sv'))"

definition direct_rc :: "'c \<Rightarrow> (exn, unit) outcome \<times> 'c" where
  "direct_rc c = (Returns (), c)"

definition first_value :: "('j \<Rightarrow> 'v list option) \<Rightarrow> 'j \<Rightarrow> (exn, 'v) outcome" where
  "first_value deser j = (case deser j of Some (v # vs) \<Rightarrow> Returns v | _ \<Rightarrow> Throws SerializeFailException)"

text \<open>What \<open>call\<close> of the generated client comes to, over any connector.\<close>

definition stub_rpc ::
  "'j jconer \<Rightarrow> (bytes \<Rightarrow> 'c \<Rightarrow> (exn, bytes) outcome \<times> 'c) \<Rightarrow> ('c \<Rightarrow> (exn, unit) outcome \<times> 'c) \<Rightarrow>
   externs \<Rightarrow> string \<Rightarrow> ('v list \<Rightarrow> 'j) \<Rightarrow> ('j \<Rightarrow> 'v list option) \<Rightarrow> fundef list \<Rightarrow> i64 \<Rightarrow>
   string \<Rightarrow> bool \<Rightarrow> 'v list \<Rightarrow> 'c absclient \<Rightarrow> (exn, 'v option) outcome \<times> 'c absclient" where
  "stub_rpc J sr rc X spacename ser deser fs now m res outs a =
     (case map_of (map (\<lambda>f. (enumerator X spacename f, id_of X f)) fs) m of
        None \<Rightarrow> (Faults Uninitialised, a)
      | Some h \<Rightarrow>
          if res
          then (case call_result J sr rc (first_value deser) now h (ser outs) a of
                  None \<Rightarrow> (Waits, a)
                | Some (r, a') \<Rightarrow> (obind r (\<lambda>v. Returns (Some v)), a'))
          else (case call_void J sr rc now h (ser outs) a of
                  None \<Rightarrow> (Waits, a)
                | Some (r, a') \<Rightarrow> (obind r (\<lambda>v. Returns None), a')))"

definition client_rpc ::
  "'j jconer \<Rightarrow> externs \<Rightarrow> string \<Rightarrow> ('v list \<Rightarrow> 'j) \<Rightarrow> ('j \<Rightarrow> 'v list option) \<Rightarrow> fundef list \<Rightarrow> i64 \<Rightarrow>
   string \<Rightarrow> bool \<Rightarrow> 'v list \<Rightarrow> ('o, 'j) service absclient \<Rightarrow>
   (exn, 'v option) outcome \<times> ('o, 'j) service absclient" where
  "client_rpc J = stub_rpc J (direct_sr J) direct_rc"

section \<open>Lemmas\<close>

lemma generated_service_fields:
  "sv_object (generated_service X ser deser meth fs obj) = obj"
  "sv_handlers (generated_service X ser deser meth fs obj) =
     map_of (rev (map (\<lambda>f. (id_of X f, wrapper_handler X ser deser meth f)) fs))"
  by (simp_all add: generated_service_def register_handlers new_service_def)

lemma generated_service_object:
  "(generated_service X ser deser meth fs obj)\<lparr>sv_object := obj'\<rparr> = generated_service X ser deser meth fs obj'"
  using generated_service_fields [of X ser deser meth fs obj] generated_service_fields [of X ser deser meth fs obj']
  by simp

text \<open>The enumerator of a method has its value, even if another method has the same name in capitals.\<close>

lemma enumerator_value:
  "f \<in> set fs \<Longrightarrow>
     map_of (map (\<lambda>f. (enumerator X spacename f, id_of X f)) fs) (enumerator X spacename f) = Some (id_of X f)"
proof (induction fs)
  case (Cons g fs)
  have "id_of X f = id_of X g" if "enumerator X spacename f = enumerator X spacename g"
    using that by (simp add: enumerator_def id_of_def)
  then show ?case
    using Cons by auto
qed simp

lemma stub_served:
  assumes "json_laws J" "serial_laws J ser deser" "inj (ex_itos X)"
    "map_of (rev (map (\<lambda>f. (id_of X f, wrapper_handler X ser deser meth f)) fs)) h
       = Some (wrapper_handler X ser deser meth g)"
    "length (fn_params g) \<le> length args" "meth (fn_name g) (take (length (fn_params g)) args) obj = (Returns v, obj')"
  shows "serve_message J on_request (generated_service X ser deser meth fs obj)
      (build_client_request J cno sno mid now h (ser args))
      = (Returns (if fn_rettype g = ''void'' then new_Response J else \<lparr>sout = ser [v]\<rparr>),
         generated_service X ser deser meth fs obj')"
proof -
  let ?q = "Request J cno sno 1 now mid h (ser args) (request_object J cno sno mid now h (ser args))"
  have q: "sin ?q = ser args" "handlerid ?q = h" "resp ?q = new_Response J"
    by (simp_all add: Request_def)
  let ?q' = "if fn_rettype g = ''void'' then ?q else ?q\<lparr>resp := \<lparr>sout = ser [v]\<rparr>\<rparr>"
  have "wrapper_handler X ser deser meth g (obj, ?q) = (Returns (), obj', ?q')"
    using assms(2,5,6) q run_wrapper_calls [OF assms(3,5), of meth obj]
    by (simp add: wrapper_handler_def serial_laws_def reply_values_def)
  then have "on_request (generated_service X ser deser meth fs obj, ?q)
      = (Returns 1, generated_service X ser deser meth fs obj', ?q')"
    using assms(4) q by (simp add: on_request_def generated_service_fields generated_service_object)
  moreover have "isArray J (ser args)"
    using assms(2) by (simp add: serial_laws_def)
  ultimately show ?thesis
    using serve_client_request [OF assms(1) _ refl, where content = "ser args" and serve = on_request
        and sv = "generated_service X ser deser meth fs obj" and cno = cno and sno = sno and mid = mid
        and ts = now and h = h] q(3)
    by (cases "fn_rettype g = ''void''") simp_all
qed

text \<open>A client function returns what \<open>call\<close> does.\<close>

lemma run_client_returns:
  assumes "distinct (map fst (fn_params f))" "f \<in> set fs" "length args = length (fn_params f)"
    "fn_rettype f = ''void'' \<Longrightarrow> call_void J sr rc now (id_of X f) (ser args) a = Some (Returns (), a')"
    "fn_rettype f \<noteq> ''void'' \<Longrightarrow>
       call_result J sr rc (first_value deser) now (id_of X f) (ser args) a = Some (Returns v, a')"
  shows "run_client X spacename (stub_rpc J sr rc X spacename ser deser fs now) f args a
    = (Returns (if fn_rettype f = ''void'' then None else Some v), a')"
  using run_client_calls [OF assms(1,3), of X spacename "stub_rpc J sr rc X spacename ser deser fs now" a]
    enumerator_value [OF assms(2), of X spacename] assms(4,5)
  by (cases "fn_rettype f = ''void''") (simp_all add: stub_rpc_def)

text \<open>A client function of \<open>f\<close> reaches the method \<open>g\<close> that its handler id is registered for.\<close>

lemma client_reaches_handler:
  assumes "json_laws J" "serial_laws J ser deser" "inj (ex_itos X)" "distinct (map fst (fn_params f))"
    "f \<in> set fs" "length args = length (fn_params f)"
    "map_of (rev (map (\<lambda>f. (id_of X f, wrapper_handler X ser deser meth f)) fs)) (id_of X f)
       = Some (wrapper_handler X ser deser meth g)"
    "length (fn_params g) \<le> length args" "meth (fn_name g) (take (length (fn_params g)) args) obj = (Returns v, obj')"
    "fn_rettype f \<noteq> ''void'' \<longrightarrow> fn_rettype g \<noteq> ''void''"
  shows "run_client X spacename (client_rpc J X spacename ser deser fs now) f args
      \<lparr>ac_client = generated_service X ser deser meth fs obj, ac_msg_id = i, ac_clientno = c\<rparr>
    = (Returns (if fn_rettype f = ''void'' then None else Some v),
       \<lparr>ac_client = generated_service X ser deser meth fs obj', ac_msg_id = i + 1, ac_clientno = c\<rparr>)"
proof -
  let ?a = "\<lparr>ac_client = generated_service X ser deser meth fs obj, ac_msg_id = i, ac_clientno = c\<rparr>"
  let ?p = "if fn_rettype g = ''void'' then new_Response J else \<lparr>sout = ser [v]\<rparr>"
  have sent: "direct_sr J (build_client_request J (ac_clientno ?a) 0 (ac_msg_id ?a) now (id_of X f) (ser args))
      (ac_client ?a) = (Returns (build_response J ?p), generated_service X ser deser meth fs obj')"
    using stub_served [OF assms(1-3,7-9), of c 0 i now] by (simp add: direct_sr_def poll_replies_def)
  have "call_void J (direct_sr J) direct_rc now (id_of X f) (ser args) ?a
      = Some (Returns (), ?a\<lparr>ac_msg_id := ac_msg_id ?a + 1, ac_client := generated_service X ser deser meth fs obj'\<rparr>)"
    unfolding call_void_def
    by (rule call_with_returns [where sr = "direct_sr J", OF sent])
       (simp add: parse_result_response(2) [OF assms(1)])
  moreover have "call_result J (direct_sr J) direct_rc (first_value deser) now (id_of X f) (ser args) ?a
      = Some (Returns v, ?a\<lparr>ac_msg_id := ac_msg_id ?a + 1, ac_client := generated_service X ser deser meth fs obj'\<rparr>)"
    if "fn_rettype f \<noteq> ''void''"
    unfolding call_result_def
    by (rule call_with_returns [where sr = "direct_sr J", OF sent])
       (use assms(2,10) that in \<open>simp add: parse_result_response(1) [OF assms(1)] first_value_def serial_laws_def\<close>)
  ultimately show ?thesis
    unfolding client_rpc_def by (subst run_client_returns [OF assms(4-6)]) simp_all
qed

lemma map_of_rev_inj:
  assumes "inj_on k (set xs)" "x \<in> set xs"
  shows "map_of (rev (map (\<lambda>x. (k x, h x)) xs)) (k x) = Some (h x)"
proof -
  let ?m = "map_of (rev (map (\<lambda>x. (k x, h x)) xs))"
  have "?m (k x) \<noteq> None"
    using assms(2) by (auto simp: map_of_eq_None_iff image_image)
  then obtain y where y: "?m (k x) = Some y"
    by blast
  then obtain z where "z \<in> set xs" "k z = k x" "y = h z"
    by (auto dest!: map_of_SomeD)
  then show ?thesis
    using y assms by (metis inj_onD)
qed

section \<open>Properties\<close>

text \<open>
  (C7) The stubs do what they are for: a call of the generated client's function runs the user's
  method of the same name, with the arguments in the declared order, once, and returns what
  the method returns; nothing else of the service changes. This holds through the
  serialization, the request, the dispatch and the response, for every method of a
  service whose enumerators have different values.
\<close>
theorem stub_call_runs_method:
  assumes "json_laws J" "serial_laws J ser deser" "inj (ex_itos X)" "inj_on (id_of X) (set fs)"
    "f \<in> set fs" "distinct (map fst (fn_params f))" "length args = length (fn_params f)"
    "meth (fn_name f) args obj = (Returns v, obj')"
  shows "run_client X spacename (client_rpc J X spacename ser deser fs now) f args
      \<lparr>ac_client = generated_service X ser deser meth fs obj, ac_msg_id = i, ac_clientno = c\<rparr>
    = (Returns (if fn_rettype f = ''void'' then None else Some v),
       \<lparr>ac_client = generated_service X ser deser meth fs obj', ac_msg_id = i + 1, ac_clientno = c\<rparr>)"
  using assms map_of_rev_inj [OF assms(4,5), of "wrapper_handler X ser deser meth"]
  by (intro client_reaches_handler [where g = f]) simp_all

text \<open>Serializers for integers over the sample JSON, and an adder.\<close>

fun ser_ints :: "int list \<Rightarrow> json" where
  "ser_ints [] = ANil"
| "ser_ints (i # is) = ACons (JInt i) (ser_ints is)"

definition deser_ints :: "json \<Rightarrow> int list option" where
  "deser_ints j = Some (map json_int (json_items j))"

lemma serial_ints: "serial_laws json_api ser_ints deser_ints"
proof -
  have "json_isArray (ser_ints is)" "map json_int (json_items (ser_ints is)) = is" for "is"
    by (induction "is") simp_all
  then show ?thesis
    by (simp add: serial_laws_def deser_ints_def json_api_def)
qed

definition two_methods :: "fundef list" where
  "two_methods =
     [\<lparr>fn_name = ''minus'', fn_rettype = ''int'', fn_cname = ''Demo'', fn_params = [(''a'', ''int''), (''b'', ''int'')]\<rparr>,
      \<lparr>fn_name = ''set'', fn_rettype = ''void'', fn_cname = ''Demo'', fn_params = [(''a'', ''int'')]\<rparr>]"

definition calculator :: "string \<Rightarrow> int list \<Rightarrow> int \<Rightarrow> (exn, int) outcome \<times> int" where
  "calculator name args acc =
     (if name = ''minus'' then (Returns (args ! 0 - args ! 1), acc + 1) else (Returns 0, args ! 0))"

lemma two_ids: "id_of sample_externs (two_methods ! 0) = 5" "id_of sample_externs (two_methods ! 1) = 3"
  by (simp_all add: id_of_def two_methods_def enum_value_def sample_externs_def Let_def)

theorem stub_call_runs_method_witness:
  "run_client sample_externs ''Demo'' (client_rpc json_api sample_externs ''Demo'' ser_ints deser_ints two_methods 99)
      (two_methods ! 0) [9, 2]
      \<lparr>ac_client = generated_service sample_externs ser_ints deser_ints calculator two_methods 4, ac_msg_id = 0, ac_clientno = 1\<rparr>
    = (Returns (Some 7),
       \<lparr>ac_client = generated_service sample_externs ser_ints deser_ints calculator two_methods 5, ac_msg_id = 1, ac_clientno = 1\<rparr>)"
proof -
  have ids: "inj_on (id_of sample_externs) (set two_methods)"
    using two_ids by (auto simp: two_methods_def)
  show ?thesis
    using stub_call_runs_method [OF json_api_laws serial_ints sample_itos ids, of "two_methods ! 0" "[9, 2]" calculator 4 7 5
        "''Demo''" 99 0 1]
    by (simp add: two_methods_def calculator_def)
qed

text \<open>
  (C36) Nothing keeps two enumerators apart: when the hashes of two names agree in their low 32
  bits (up to the sign), the client's function of the first runs the method registered
  last, with as many of the arguments as that one has.
\<close>
theorem hash_collision_runs_other_method:
  assumes "json_laws J" "serial_laws J ser deser" "inj (ex_itos X)" "fs = before @ g # after"
    "f \<in> set before" "id_of X f = id_of X g" "\<forall>x\<in>set after. id_of X x \<noteq> id_of X g"
    "distinct (map fst (fn_params f))" "length args = length (fn_params f)" "length (fn_params g) \<le> length args"
    "meth (fn_name g) (take (length (fn_params g)) args) obj = (Returns v, obj')"
    "fn_rettype f \<noteq> ''void''" "fn_rettype g \<noteq> ''void''"
  shows "run_client X spacename (client_rpc J X spacename ser deser fs now) f args
      \<lparr>ac_client = generated_service X ser deser meth fs obj, ac_msg_id = i, ac_clientno = c\<rparr>
    = (Returns (Some v), \<lparr>ac_client = generated_service X ser deser meth fs obj', ac_msg_id = i + 1, ac_clientno = c\<rparr>)"
proof -
  have "map_of (rev (map (\<lambda>f. (id_of X f, wrapper_handler X ser deser meth f)) after)) (id_of X g) = None"
    using assms(7) by (auto simp: map_of_eq_None_iff)
  then have "map_of (rev (map (\<lambda>f. (id_of X f, wrapper_handler X ser deser meth f)) fs)) (id_of X f)
      = Some (wrapper_handler X ser deser meth g)"
    using assms(4,6) by (simp add: map_add_def)
  then have "run_client X spacename (client_rpc J X spacename ser deser fs now) f args
      \<lparr>ac_client = generated_service X ser deser meth fs obj, ac_msg_id = i, ac_clientno = c\<rparr>
    = (Returns (if fn_rettype f = ''void'' then None else Some v),
       \<lparr>ac_client = generated_service X ser deser meth fs obj', ac_msg_id = i + 1, ac_clientno = c\<rparr>)"
    using assms by (intro client_reaches_handler [where g = g]) simp_all
  then show ?thesis
    using assms(12) by simp
qed

definition times_method :: fundef where
  "times_method = \<lparr>fn_name = ''times'', fn_rettype = ''int'', fn_cname = ''Demo'', fn_params = [(''a'', ''int'')]\<rparr>"

theorem hash_collision_runs_other_method_witness:
  "run_client sample_externs ''Demo''
      (client_rpc json_api sample_externs ''Demo'' ser_ints deser_ints [two_methods ! 0, times_method] 99)
      (two_methods ! 0) [9, 2]
      \<lparr>ac_client = generated_service sample_externs ser_ints deser_ints calculator [two_methods ! 0, times_method] 4,
       ac_msg_id = 0, ac_clientno = 1\<rparr>
    = (Returns (Some 0),
       \<lparr>ac_client = generated_service sample_externs ser_ints deser_ints calculator [two_methods ! 0, times_method] 9,
        ac_msg_id = 1, ac_clientno = 1\<rparr>)"
proof -
  have "id_of sample_externs (two_methods ! 0) = id_of sample_externs times_method"
    by (simp add: id_of_def two_methods_def times_method_def enum_value_def sample_externs_def)
  then show ?thesis
    using hash_collision_runs_other_method [OF json_api_laws serial_ints sample_itos, where before = "[two_methods ! 0]"
        and g = times_method and after = "[]" and f = "two_methods ! 0" and args = "[9, 2]" and meth = calculator
        and obj = 4 and v = 0 and obj' = 9 and fs = "[two_methods ! 0, times_method]"
        and spacename = "''Demo''" and now = 99 and i = 0 and c = 1]
    by (simp add: two_methods_def times_method_def calculator_def)
qed

end
