(* ===== verification/SockClient.thy ===== *)
theory SockClient
  imports Util Buffer Client
begin

text \<open>
  sockclient.hpp and sockclient.cpp: the client's connector. Its state is the descriptor
  \<open>_sock\<close>; the kernel is the record \<open>net\<close>: the wire, and for each \<open>reconnect\<close> what
  \<open>socket\<close> and \<open>connect\<close> give at each address.
\<close>

record net = wire +
  n_tries :: "(int \<times> int) list list"

record sockclient =
  cl_sock :: int
  cl_host :: string
  cl_port :: string

section \<open>Connecting\<close>

text \<open>The constructor; \<open>r\<close> is the result of \<open>getaddrinfo\<close>.\<close>

definition SockClient :: "string \<Rightarrow> string \<Rightarrow> int \<Rightarrow> (exn, sockclient) outcome" where
  "SockClient host port r =
     (if r \<noteq> 0 then Throws (HostFailException ''Function getaddrinfo fail'' host port)
      else Returns \<lparr>cl_sock = UNINIT_SOCKET, cl_host = host, cl_port = port\<rparr>)"

text \<open>
  The loop over the addresses: whether one accepted, the value of \<open>_sock\<close> at the end, and
  the descriptors closed.
\<close>

fun connect_loop :: "(int \<times> int) list \<Rightarrow> int \<Rightarrow> int list \<Rightarrow> bool \<times> int \<times> int list" where
  "connect_loop [] sock closed = (False, sock, closed)"
| "connect_loop ((s, c) # tries) sock closed =
     (if s = UNINIT_SOCKET then connect_loop tries s closed
      else if c = 0 then (True, s, closed)
      else connect_loop tries s (closed @ [s]))"

definition SockClient_reconnect ::
  "sockclient \<Rightarrow> net \<Rightarrow> (exn, unit) outcome \<times> sockclient \<times> net" where
  "SockClient_reconnect c n =
     (let closed = (if cl_sock c \<noteq> UNINIT_SOCKET then n_closed n @ [cl_sock c] else n_closed n) in
      case n_tries n of
        [] \<Rightarrow> (Waits, c\<lparr>cl_sock := UNINIT_SOCKET\<rparr>, n\<lparr>n_closed := closed\<rparr>)
      | tries # later \<Rightarrow>
          (case connect_loop tries UNINIT_SOCKET closed of
             (ok, sock, closed') \<Rightarrow>
               (if \<not> ok then Throws (HostFailException ''Can't connect'' (cl_host c) (cl_port c))
                else Returns (),
                c\<lparr>cl_sock := sock\<rparr>, n\<lparr>n_tries := later, n_closed := closed'\<rparr>)))"

section \<open>Sending and receiving\<close>

definition client_write_chk :: "int \<Rightarrow> int \<Rightarrow> exn verdict" where
  "client_write_chk w len = (if w \<noteq> len then Stop WriteFailException else Go)"

definition SockClient_send :: "(nat \<Rightarrow> char) \<Rightarrow> net \<Rightarrow> bytes \<Rightarrow> (exn, unit) outcome \<times> net" where
  "SockClient_send junk n msg =
     (case SizedRDONBuffer junk (c_str msg) (size_as_int msg) of
        Inl f \<Rightarrow> (Faults f, n)
      | Inr b \<Rightarrow>
          (case send_loop RDONBuffer_read client_write_chk (n_writes n) b (fresh junk CHUNK) (n_sent n)
           of (r, out, ws) \<Rightarrow> (r, n\<lparr>n_sent := out, n_writes := ws\<rparr>)))"

definition client_read_chk :: "i32 \<Rightarrow> exn verdict" where
  "client_read_chk len = (if sint len < 0 then Stop ReadFailException else Go)"

definition SockClient_recv :: "(nat \<Rightarrow> char) \<Rightarrow> net \<Rightarrow> (exn, bytes) outcome \<times> net" where
  "SockClient_recv junk n =
     (case n_reads n of
        [] \<Rightarrow> (Waits, n)
      | r # rs \<Rightarrow>
          (case sys_read r 4 (int_bytes 0) of
             (len, size_bytes) \<Rightarrow>
               (let msize = bytes_int size_bytes in
                if len \<noteq> 4 \<or> sint msize \<le> 0 then (Throws ReadFailException, n\<lparr>n_reads := rs\<rparr>)
                else
                  (case recv_loop (WRONBuffer_write junk) client_read_chk msize rs
                          (WRONBuffer junk) (fresh junk CHUNK) 0 of
                     (r', rs') \<Rightarrow>
                       (obind r' (\<lambda>wr_buffer.
                          case cstring (write_only_str wr_buffer) of
                            None \<Rightarrow> Faults OutOfBounds
                          | Some result \<Rightarrow> Returns result),
                        n\<lparr>n_reads := rs'\<rparr>)))))"

text \<open>A transfer changes the net and leaves the connector as it is.\<close>

definition on_net :: "(net \<Rightarrow> (exn, 'a) outcome \<times> net) \<Rightarrow> sockclient \<times> net \<Rightarrow>
    (exn, 'a) outcome \<times> sockclient \<times> net" where
  "on_net f s = (case f (snd s) of (r, n) \<Rightarrow> (r, fst s, n))"

definition SockClient_send_and_response ::
  "(nat \<Rightarrow> char) \<Rightarrow> bytes \<Rightarrow> sockclient \<times> net \<Rightarrow> (exn, bytes) outcome \<times> sockclient \<times> net" where
  "SockClient_send_and_response junk message s =
     pbind (if cl_sock (fst s) = UNINIT_SOCKET then SockClient_reconnect (fst s) (snd s)
            else (Returns (), s)) (\<lambda>_ s.
     pbind (on_net (\<lambda>n. SockClient_send junk n message) s) (\<lambda>_ s.
     on_net (SockClient_recv junk) s))"

definition SockClient_destroy :: "sockclient \<Rightarrow> net \<Rightarrow> net" where
  "SockClient_destroy c n =
     (if cl_sock c \<noteq> UNINIT_SOCKET then n\<lparr>n_closed := n_closed n @ [cl_sock c]\<rparr> else n)"

section \<open>Lemmas\<close>

text \<open>An address the loop passes over.\<close>

definition refuses :: "int \<times> int \<Rightarrow> bool" where
  "refuses p \<longleftrightarrow> fst p = UNINIT_SOCKET \<or> snd p \<noteq> 0"

lemma connect_loop_skip:
  assumes "\<forall>p \<in> set pre. refuses p"
  shows "connect_loop (pre @ tries) sock closed =
    connect_loop tries (last (sock # map fst pre))
      (closed @ filter (\<lambda>s. s \<noteq> UNINIT_SOCKET) (map fst pre))"
  using assms
proof (induction pre arbitrary: sock closed)
  case (Cons p pre)
  then show ?case by (cases p) (auto simp: refuses_def)
qed simp

lemma SockClient_send_all:
  assumes "msg \<noteq> []" "length msg < 2 ^ 31" "n_writes n = full_writes (length (frame msg)) @ ws"
  shows "SockClient_send junk n msg =
    (Returns (), n\<lparr>n_sent := n_sent n @ frame msg, n_writes := ws\<rparr>)"
proof -
  obtain b where b: "SizedRDONBuffer junk (c_str msg) (size_as_int msg) = Inr b" "rdon_inv b"
      "unread b = frame msg"
    by (rule SizedRDONBuffer_frame [OF assms(1,2)])
  have "send_loop RDONBuffer_read client_write_chk (full_writes (length (frame msg)) @ ws) b
      (fresh junk CHUNK) (n_sent n) = (Returns (), n_sent n @ frame msg, ws)"
    using rd.send_all [OF b(2) length_fresh, of client_write_chk ws junk "n_sent n"] b(3)
    by (simp add: client_write_chk_def)
  then show ?thesis
    using b assms(3) by (simp add: SockClient_send_def)
qed

lemma client_recv_loop:
  assumes "pieces msg cs" "length msg < 2 ^ 31"
  shows "\<exists>b. recv_loop (WRONBuffer_write junk) client_read_chk (size_as_int msg)
      (map RData cs @ rs) (WRONBuffer junk) (fresh junk CHUNK) 0 = (Returns b, rs)
    \<and> wron_inv b \<and> contents b = msg"
  using wr.recv_all [OF wron_inv_new, of "fresh junk CHUNK" client_read_chk cs 0 junk
      "size_as_int msg" junk rs] assms
  by (auto simp: pieces_def list_all_iff client_read_chk_def size_as_int_def)

lemma client_recv_loop_small:
  assumes "pieces msg cs" "length msg \<le> CHUNK"
  shows "\<exists>b. recv_loop (WRONBuffer_write junk) client_read_chk (size_as_int msg)
      (map RData cs @ rs) (WRONBuffer junk) (fresh junk CHUNK) 0 = (Returns b, rs)
    \<and> ungrown junk b \<and> contents b = msg"
  using wr_small.recv_all [OF ungrown_new, of "fresh junk CHUNK" client_read_chk cs 0 junk
      "size_as_int msg" rs] assms
  by (auto simp: pieces_def list_all_iff client_read_chk_def size_as_int_def)

lemma SockClient_recv_frame:
  assumes "pieces msg cs" "length msg < 2 ^ 31"
    "n_reads n = RData (int_bytes (size_as_int msg)) # map RData cs @ rs"
  obtains b where "wron_inv b" "contents b = msg" "SockClient_recv junk n =
      (case cstring (write_only_str b) of None \<Rightarrow> Faults OutOfBounds | Some s \<Rightarrow> Returns s,
       n\<lparr>n_reads := rs\<rparr>)"
proof -
  have "msg \<noteq> []" using assms(1) by (cases cs) (auto simp: pieces_def)
  then have "\<not> sint (size_as_int msg) \<le> 0"
    using size_as_int_pos assms(2) by (simp add: not_le)
  then show ?thesis
    using client_recv_loop [OF assms(1,2), of junk rs] that assms(3)
    by (auto simp: SockClient_recv_def sys_read_header Let_def)
qed

lemma SockClient_recv_small:
  assumes "pieces msg cs" "length msg \<le> CHUNK" "NUL \<notin> set msg"
    "n_reads n = RData (int_bytes (size_as_int msg)) # map RData cs @ rs"
  shows "SockClient_recv junk n =
    (case cstring (drop (length msg) (fresh junk CHUNK)) of
       None \<Rightarrow> Faults OutOfBounds
     | Some g \<Rightarrow> Returns (msg @ g), n\<lparr>n_reads := rs\<rparr>)"
proof -
  have "msg \<noteq> []" using assms(1) by (cases cs) (auto simp: pieces_def)
  then have pos: "\<not> sint (size_as_int msg) \<le> 0"
    using size_as_int_pos assms(2) by (simp add: not_le)
  obtain b where b: "recv_loop (WRONBuffer_write junk) client_read_chk (size_as_int msg)
      (map RData cs @ rs) (WRONBuffer junk) (fresh junk CHUNK) 0 = (Returns b, rs)"
      "ungrown junk b" "contents b = msg"
    using client_recv_loop_small [OF assms(1,2)] by blast
  have "write_only_str b = msg @ drop (length msg) (fresh junk CHUNK)"
    using b(2,3) length_ungrown [OF b(2)] by (simp add: ungrown_def)
  then have "cstring (write_only_str b) = map_option (append msg) (cstring (drop (length msg) (fresh junk CHUNK)))"
    by (simp add: cstring_append [OF assms(3)])
  then show ?thesis
    using assms(4) b(1) pos
    by (simp add: SockClient_recv_def sys_read_header Let_def split: option.split)
qed

section \<open>The connector contract\<close>

abbreviation sock_sr where "sock_sr junk \<equiv> SockClient_send_and_response junk"

abbreviation sock_rc where "sock_rc s \<equiv> SockClient_reconnect (fst s) (snd s)"

definition sock_linked :: "sockclient \<times> net \<Rightarrow> bool" where
  "sock_linked s \<longleftrightarrow> cl_sock (fst s) \<noteq> UNINIT_SOCKET"

lemma connect_loop_linked:
  "connect_loop tries sock closed = (True, sock', closed') \<Longrightarrow> sock' \<noteq> UNINIT_SOCKET"
  by (induction tries sock closed rule: connect_loop.induct) (auto split: if_splits)

lemma reconnect_links: "SockClient_reconnect c n = (Returns u, c', n') \<Longrightarrow> cl_sock c' \<noteq> UNINIT_SOCKET"
  by (auto simp: SockClient_reconnect_def Let_def connect_loop_linked
      split: list.splits prod.splits if_splits)

lemma reconnect_throws: "SockClient_reconnect c n = (Throws e, c', n') \<Longrightarrow> host_exn e"
  by (auto simp: SockClient_reconnect_def Let_def host_exn_def split: list.splits prod.splits if_splits)

lemma SockClient_send_throws:
  assumes "fst (SockClient_send junk n msg) = Throws e"
  shows "e = WriteFailException"
proof -
  have "e = WriteFailException"
    if "send_loop RDONBuffer_read client_write_chk ws b ch out = (Throws e, s)" for ws b ch out s
    using send_loop_throws [of RDONBuffer_read client_write_chk ws b ch out e] that
    by (auto simp: client_write_chk_def split: if_splits)
  then show ?thesis
    using assms by (auto simp: SockClient_send_def split: sum.splits prod.splits)
qed

lemma send_throws: "fst (SockClient_send junk n msg) = Throws e \<Longrightarrow> transfer_exn e"
  using SockClient_send_throws by (fastforce simp: transfer_exn_def)

lemma recv_throws:
  assumes "fst (SockClient_recv junk n) = Throws e"
  shows "transfer_exn e"
proof -
  have "transfer_exn e"
    if "recv_loop (WRONBuffer_write junk) client_read_chk m rs b ch g = (Throws e, s)"
    for m rs b ch g s
    using recv_loop_throws [of "WRONBuffer_write junk" client_read_chk m rs b ch g e] that
    by (auto simp: client_read_chk_def transfer_exn_def split: if_splits)
  moreover have "transfer_exn ReadFailException"
    by (simp add: transfer_exn_def)
  ultimately show ?thesis
    using assms
    by (auto simp: SockClient_recv_def Let_def obind_Throws_iff
        split: list.splits prod.splits if_splits option.splits)
qed

lemma on_net_throws:
  "on_net f s = (Throws e, t) \<Longrightarrow> fst (f (snd s)) = Throws e"
  by (auto simp: on_net_def split: prod.splits)

lemma on_net_linked:
  "on_net f s = (r, t) \<Longrightarrow> sock_linked s \<Longrightarrow> sock_linked t"
  "sock_linked s \<Longrightarrow> sock_linked (snd (on_net f s))"
  by (auto simp add: on_net_def sock_linked_def split: prod.splits)

interpretation sock: client_connector "sock_sr junk" sock_rc sock_linked for junk
proof unfold_locales
  fix c :: "sockclient \<times> net" and u c'
  assume "sock_rc c = (Returns u, c')"
  then show "sock_linked c'"
    by (cases c') (auto simp: sock_linked_def dest: reconnect_links)
next
  fix c :: "sockclient \<times> net" and e c'
  assume "sock_rc c = (Throws e, c')"
  then show "host_exn e"
    by (cases c') (auto dest: reconnect_throws)
next
  fix m and s :: "sockclient \<times> net" and e s'
  assume "sock_sr junk m s = (Throws e, s')"
  then show "transfer_exn e \<or> host_exn e \<and> \<not> sock_linked s"
    using reconnect_throws [of "fst s" "snd s"]
    by (cases s') (auto simp: SockClient_send_and_response_def pbind_Throws_iff sock_linked_def
        dest!: on_net_throws send_throws recv_throws split: if_splits)
next
  fix m and s :: "sockclient \<times> net" and r s'
  let ?first = "if cl_sock (fst s) = UNINIT_SOCKET then sock_rc s else (Returns (), s)"
  assume a: "sock_sr junk m s = (r, s')" "sock_linked s \<or> (\<exists>v. r = Returns v)"
  have "\<exists>s1. ?first = (Returns (), s1)"
    using pbind_state [OF a(1) [unfolded SockClient_send_and_response_def]] a(2)
    by (auto simp: sock_linked_def)
  then obtain s1 where s1: "?first = (Returns (), s1)" by blast
  then have "sock_linked s1"
    using reconnect_links [of "fst s" "snd s" "()" "fst s1" "snd s1"]
    by (auto simp: sock_linked_def split: if_splits)
  moreover have "pbind (on_net (\<lambda>n. SockClient_send junk n m) s1) (\<lambda>_. on_net (SockClient_recv junk))
      = (r, s')"
    using a(1) s1 by (simp add: SockClient_send_and_response_def)
  ultimately show "sock_linked s'"
    by (auto dest!: pbind_state dest: on_net_linked)
qed

lemma on_net_keeps_tries:
  assumes "\<And>n. n_tries (snd (f n)) = n_tries n"
  shows "n_tries (snd (snd (on_net f s))) = n_tries (snd s)"
  using assms [of "snd s"] by (cases "f (snd s)") (simp add: on_net_def)

lemma transfer_keeps_tries:
  "n_tries (snd (SockClient_send junk n msg)) = n_tries n"
  "n_tries (snd (SockClient_recv junk n)) = n_tries n"
  by (auto simp: SockClient_send_def SockClient_recv_def Let_def split: sum.split prod.split list.split)

lemma sr_keeps_tries:
  assumes "sock_linked s"
  shows "n_tries (snd (snd (sock_sr junk msg s))) = n_tries (snd s)"
proof -
  let ?send = "on_net (\<lambda>n. SockClient_send junk n msg) s"
  have send: "n_tries (snd (snd ?send)) = n_tries (snd s)"
    and recv: "n_tries (snd (snd (on_net (SockClient_recv junk) t))) = n_tries (snd t)" for t
    by (rule on_net_keeps_tries, rule transfer_keeps_tries)+
  show ?thesis
    using assms send recv
    by (cases ?send; cases "fst ?send")
       (simp_all add: SockClient_send_and_response_def sock_linked_def)
qed

lemma reconnect_split:
  "SockClient_reconnect c (n\<lparr>n_tries := tries # later\<rparr>) =
     (let refused = takeWhile refuses tries;
          closed = n_closed n @ filter (\<lambda>s. s \<noteq> UNINIT_SOCKET) (cl_sock c # map fst refused)
      in case dropWhile refuses tries of
           [] \<Rightarrow> (Throws (HostFailException ''Can't connect'' (cl_host c) (cl_port c)),
                  c\<lparr>cl_sock := last (UNINIT_SOCKET # map fst tries)\<rparr>,
                  n\<lparr>n_tries := later, n_closed := closed\<rparr>)
         | (s, r) # _ \<Rightarrow> (Returns (), c\<lparr>cl_sock := s\<rparr>, n\<lparr>n_tries := later, n_closed := closed\<rparr>))"
proof -
  let ?pre = "takeWhile refuses tries"
  have pre: "\<forall>p \<in> set ?pre. refuses p"
    by (auto dest: set_takeWhileD)
  have loop: "connect_loop tries UNINIT_SOCKET cls
      = connect_loop (dropWhile refuses tries) (last (UNINIT_SOCKET # map fst ?pre))
          (cls @ filter (\<lambda>s. s \<noteq> UNINIT_SOCKET) (map fst ?pre))" for cls
    using connect_loop_skip [OF pre, of "dropWhile refuses tries" UNINIT_SOCKET cls] by simp
  show ?thesis
  proof (cases "dropWhile refuses tries")
    case Nil
    then have pre_all: "?pre = tries"
      using takeWhile_dropWhile_id [of refuses tries] by (simp only: append_Nil2)
    have "connect_loop tries UNINIT_SOCKET cls = (False, last (UNINIT_SOCKET # map fst tries),
        cls @ filter (\<lambda>s. s \<noteq> UNINIT_SOCKET) (map fst tries))" for cls
      unfolding loop [of cls] Nil pre_all connect_loop.simps ..
    then show ?thesis
      unfolding SockClient_reconnect_def Nil pre_all by (simp add: Let_def)
  next
    case (Cons p rest)
    obtain s r where p: "p = (s, r)" by (cases p)
    have "\<not> refuses p"
      using hd_dropWhile [of refuses tries] Cons by simp
    then have "connect_loop tries UNINIT_SOCKET cls
        = (True, s, cls @ filter (\<lambda>s. s \<noteq> UNINIT_SOCKET) (map fst ?pre))" for cls
      by (simp add: loop [of cls] Cons p refuses_def)
    then show ?thesis
      by (simp add: SockClient_reconnect_def Cons p Let_def)
  qed
qed

section \<open>Properties\<close>

text \<open>
  (C27) Whatever the kernel does with the writes, what \<open>_send\<close> has put on the wire is a
  prefix of the frame of the message (length, then bytes), all of it if \<open>_send\<close> returns;
  the only exception is WriteFailException. If every write is full, it does return.
\<close>
theorem client_send_frame:
  assumes "msg \<noteq> []" "length msg < 2 ^ 31"
  shows "(\<exists>p. prefix p (frame msg) \<and> n_sent (snd (SockClient_send junk n msg)) = n_sent n @ p
       \<and> (fst (SockClient_send junk n msg) = Returns () \<longrightarrow> p = frame msg))
    \<and> (\<forall>e. fst (SockClient_send junk n msg) = Throws e \<longrightarrow> e = WriteFailException)
    \<and> SockClient_send junk (n\<lparr>n_writes := full_writes (length (frame msg)) @ ws\<rparr>) msg
       = (Returns (), n\<lparr>n_sent := n_sent n @ frame msg, n_writes := ws\<rparr>)"
proof (intro conjI allI impI)
  obtain b where b: "SizedRDONBuffer junk (c_str msg) (size_as_int msg) = Inr b" "rdon_inv b"
      "unread b = frame msg"
    by (rule SizedRDONBuffer_frame [OF assms])
  have "w = n" if "client_write_chk w n = Go" for w n
    using that by (simp add: client_write_chk_def split: if_splits)
  then show "\<exists>p. prefix p (frame msg) \<and> n_sent (snd (SockClient_send junk n msg)) = n_sent n @ p
       \<and> (fst (SockClient_send junk n msg) = Returns () \<longrightarrow> p = frame msg)"
    using rd.send_prefix [OF b(2) length_fresh, of client_write_chk "n_writes n" junk "n_sent n"] b(1,3)
    by (auto simp: SockClient_send_def split: prod.splits)
  show "e = WriteFailException" if "fst (SockClient_send junk n msg) = Throws e" for e
    by (rule SockClient_send_throws [OF that])
  show "SockClient_send junk (n\<lparr>n_writes := full_writes (length (frame msg)) @ ws\<rparr>) msg
       = (Returns (), n\<lparr>n_sent := n_sent n @ frame msg, n_writes := ws\<rparr>)"
    by (subst SockClient_send_all [OF assms, where ws = ws]) simp_all
qed

definition idle_net :: net where
  "idle_net = \<lparr>n_writes = [], n_reads = [], n_sent = [], n_closed = [], n_tries = []\<rparr>"

theorem client_send_frame_witness:
  "(\<exists>p. prefix p (frame ''{}'') \<and> n_sent (snd (SockClient_send (\<lambda>_. NUL) idle_net ''{}'')) = p)
    \<and> fst (SockClient_send (\<lambda>_. NUL) idle_net ''{}'') \<noteq> Throws ReadFailException
    \<and> SockClient_send (\<lambda>_. NUL) (idle_net\<lparr>n_writes := full_writes (length (frame ''{}'')) @ []\<rparr>) ''{}''
       = (Returns (), idle_net\<lparr>n_sent := frame ''{}'', n_writes := []\<rparr>)"
  using client_send_frame [of "''{}''" "\<lambda>_. NUL" idle_net "[]"] by (auto simp: idle_net_def)

text \<open>
  (C37) \<open>_recv\<close> reads past the message: for a message of up to 1024 bytes without NUL, in
  any pieces, the result is the message followed by whatever the rest of the fresh buffer
  holds up to a NUL, and the scan leaves the array if there is none. The result is the
  message just when the first byte after it happens to be NUL.
\<close>
theorem client_recv_overruns:
  assumes "pieces msg cs" "length msg \<le> CHUNK" "NUL \<notin> set msg"
    "n_reads n = RData (int_bytes (size_as_int msg)) # map RData cs @ rs"
  shows "fst (SockClient_recv junk n) =
    (case cstring (drop (length msg) (fresh junk CHUNK)) of
       None \<Rightarrow> Faults OutOfBounds
     | Some g \<Rightarrow> Returns (msg @ g))"
  by (simp add: SockClient_recv_small [OF assms] split: option.split)

definition braces_net :: net where
  "braces_net = idle_net\<lparr>n_reads := [RData (int_bytes (size_as_int ''{}'')), RData ''{'', RData ''}'']\<rparr>"

theorem client_recv_overruns_witness:
  "fst (SockClient_recv (\<lambda>_. CHR ''x'') braces_net) = Faults OutOfBounds
   \<and> fst (SockClient_recv (\<lambda>_. NUL) braces_net) = Returns ''{}''"
proof -
  have p: "pieces ''{}'' [''{'', ''}'']" by (simp add: pieces_def)
  have l: "length ''{}'' \<le> CHUNK" "NUL \<notin> set ''{}''" by (simp_all add: NUL_def)
  have r: "n_reads braces_net = RData (int_bytes (size_as_int ''{}'')) # map RData [''{'', ''}''] @ []"
    by (simp add: braces_net_def)
  have "cstring (drop (length ''{}'') (fresh (\<lambda>_. CHR ''x'') CHUNK)) = None"
    by (rule cstring_junk) (simp add: NUL_def)
  moreover have "cstring (drop (length ''{}'') (fresh (\<lambda>_. NUL) CHUNK)) = Some []"
    by (rule cstring_zero) simp
  ultimately show ?thesis
    by (simp only: client_recv_overruns [OF p l r] option.case append_Nil2)
qed

text \<open>
  A server that closes the connection before the whole message has come is never
  noticed: after any pieces that do not complete it, reads that return 0 keep \<open>_recv\<close>
  going round, however many there are.
\<close>
theorem client_recv_waits_at_eof:
  assumes "list_all (\<lambda>c. 0 < length c \<and> length c \<le> CHUNK) cs" "length (concat cs) < sz"
    "0 < sz" "sz < 2 ^ 31"
    "n_reads n = RData (int_bytes (word_of_nat sz)) # map RData cs @ replicate k (RData [])"
  shows "fst (SockClient_recv junk n) = Waits"
proof -
  have "recv_loop (WRONBuffer_write junk) client_read_chk (word_of_nat sz)
      (map RData cs @ replicate k (RData [])) (WRONBuffer junk) (fresh junk CHUNK) 0 = (Waits, [])"
    by (rule wr.recv_cut_off [OF wron_inv_new])
       (use assms in \<open>auto simp: client_read_chk_def list_all_iff\<close>)
  then show ?thesis
    using assms(3-5) sint_word_of_nat32 [of sz]
    by (simp add: SockClient_recv_def sys_read_header Let_def)
qed

theorem client_recv_waits_at_eof_witness:
  "fst (SockClient_recv (\<lambda>_. NUL)
     (idle_net\<lparr>n_reads := RData (int_bytes (word_of_nat 5)) # map RData [''ab''] @ replicate 100 (RData [])\<rparr>))
   = Waits"
  by (rule client_recv_waits_at_eof [where cs = "[''ab'']" and sz = 5 and k = 100]) simp_all

text \<open>
  \<open>reconnect\<close> takes the first address of the list that gives a descriptor and accepts,
  after closing the old descriptor and those of the addresses before it. If there is
  none it throws HostFailException, every descriptor it made is closed, and \<open>_sock\<close>
  keeps what the last \<open>socket\<close> call returned.
\<close>
theorem reconnect_first_address:
  "SockClient_reconnect c (n\<lparr>n_tries := tries # later\<rparr>) =
     (let refused = takeWhile refuses tries;
          closed = n_closed n @ filter (\<lambda>s. s \<noteq> UNINIT_SOCKET) (cl_sock c # map fst refused)
      in case dropWhile refuses tries of
           [] \<Rightarrow> (Throws (HostFailException ''Can't connect'' (cl_host c) (cl_port c)),
                  c\<lparr>cl_sock := last (UNINIT_SOCKET # map fst tries)\<rparr>,
                  n\<lparr>n_tries := later, n_closed := closed\<rparr>)
         | (s, r) # _ \<Rightarrow> (Returns (), c\<lparr>cl_sock := s\<rparr>, n\<lparr>n_tries := later, n_closed := closed\<rparr>))"
  by (rule reconnect_split)

text \<open>
  After a failed \<open>reconnect\<close> whose last address gave a descriptor, \<open>_sock\<close> holds a
  descriptor that has been closed, and the next call uses it: \<open>send_and_response\<close> does not
  connect again (no \<open>socket\<close> or \<open>connect\<close> is made), and the next \<open>reconnect\<close> or the
  destructor closes the descriptor a second time.
\<close>
theorem reconnect_leaves_closed_socket:
  assumes "list_all refuses tries" "tries \<noteq> []"
    "fst (last tries) \<noteq> UNINIT_SOCKET"
  shows "\<exists>e c' n'. SockClient_reconnect c (n\<lparr>n_tries := tries # later\<rparr>) = (Throws e, c', n')
    \<and> cl_sock c' = fst (last tries) \<and> cl_sock c' \<in> set (n_closed n')
    \<and> n_tries (snd (snd (SockClient_send_and_response junk msg (c', n')))) = later
    \<and> n_closed (SockClient_destroy c' n') = n_closed n' @ [cl_sock c']"
proof -
  let ?c' = "c\<lparr>cl_sock := fst (last tries)\<rparr>"
  let ?n' = "n\<lparr>n_tries := later, n_closed :=
    n_closed n @ filter (\<lambda>s. s \<noteq> UNINIT_SOCKET) (cl_sock c # map fst tries)\<rparr>"
  have tw: "takeWhile refuses tries = tries" and dw: "dropWhile refuses tries = []"
    using assms(1) by (auto simp: list_all_iff)
  have sock: "last (UNINIT_SOCKET # map fst tries) = fst (last tries)"
    using assms(2) by (simp add: last_map)
  have "\<exists>e. SockClient_reconnect c (n\<lparr>n_tries := tries # later\<rparr>) = (Throws e, ?c', ?n')"
    unfolding reconnect_split Let_def tw dw sock by simp
  moreover have "fst (last tries) \<in> set (map fst tries)"
    using assms(2) by simp
  ultimately show ?thesis
    using assms(3) sr_keeps_tries [of "(?c', ?n')" junk msg]
    by (elim exE, intro exI conjI) (auto simp: sock_linked_def SockClient_destroy_def)
qed

theorem reconnect_leaves_closed_socket_witness:
  "\<exists>e c' n'. SockClient_reconnect \<lparr>cl_sock = UNINIT_SOCKET, cl_host = ''h'', cl_port = ''1''\<rparr>
      (idle_net\<lparr>n_tries := [[(3, -1)]]\<rparr>) = (Throws e, c', n')
    \<and> cl_sock c' = 3 \<and> cl_sock c' \<in> set (n_closed n')"
  using reconnect_leaves_closed_socket [where tries = "[(3, -1)]" and later = "[]" and n = idle_net
      and c = "\<lparr>cl_sock = UNINIT_SOCKET, cl_host = ''h'', cl_port = ''1''\<rparr>"]
  by (fastforce simp: UNINIT_SOCKET_def refuses_def)

lemma parse_result_throws:
  "parse_result J decode rst = Throws e \<Longrightarrow>
     e = NoResultException \<or> (\<exists>x. e = Server x) \<or> (\<exists>v. decode v = Throws e)"
  by (auto simp: parse_result_def parse_response_def obind_Throws_iff Let_def
      split: option.splits if_splits)

text \<open>
  (C33) What a typed call over a socket can throw: a failed connection, an error of the server
  other than SOCKET_CLOSED, a response without result, an exception of the
  deserializer, or the late "PRC call failed". Failed reads and writes never reach the caller.
\<close>
theorem socket_call_throws:
  assumes "call_result J (SockClient_send_and_response junk)
      (\<lambda>s. SockClient_reconnect (fst s) (snd s)) decode now h content a = Some (Throws e, a')"
    "\<And>v. decode v \<noteq> Throws ReadFailException \<and> decode v \<noteq> Throws WriteFailException"
  shows "e \<noteq> ReadFailException \<and> e \<noteq> WriteFailException \<and> e \<noteq> Server ServerCloseSocketException
    \<and> (host_exn e \<or> e = NoResultException \<or> e = RuntimeError ''PRC call failed''
       \<or> (\<exists>x. e = Server x) \<or> (\<exists>v. decode v = Throws e))"
proof -
  let ?re = "\<lambda>e. e = Server ServerCloseSocketException"
  let ?msg = "build_client_request J (ac_clientno a) 0 (ac_msg_id a) now h content"
  obtain r t c where loop: "call_loop (sock_sr junk) sock_rc ?re (parse_result J decode) ?msg (ac_client a)
      = Some (r, t, c)" and "obind r (check_tried t) = Throws e"
    using assms(1) by (auto simp: call_result_def call_with_def Let_def split: option.splits)
  then consider "r = Throws e" | "e = RuntimeError ''PRC call failed''"
    by (cases r) (auto simp: check_tried_def split: if_splits)
  then show ?thesis
  proof cases
    case 1
    then show ?thesis
      using sock.loop_throws [OF loop [unfolded 1]] parse_result_throws [of J decode _ e]
      by (auto simp: host_exn_def transfer_exn_def)
  qed auto
qed

theorem socket_call_throws_witness:
  "\<exists>e a'. call_result json_api (SockClient_send_and_response (\<lambda>_. NUL))
      (\<lambda>s. SockClient_reconnect (fst s) (snd s)) (\<lambda>v. Returns v) 0 42 ANil
      \<lparr>ac_client = (\<lparr>cl_sock = UNINIT_SOCKET, cl_host = ''h'', cl_port = ''1''\<rparr>, idle_net\<lparr>n_tries := [[]]\<rparr>),
       ac_msg_id = 0, ac_clientno = 7\<rparr> = Some (Throws e, a') \<and> e \<noteq> ReadFailException"
proof -
  let ?a = "\<lparr>ac_client = (\<lparr>cl_sock = UNINIT_SOCKET, cl_host = ''h'', cl_port = ''1''\<rparr>, idle_net\<lparr>n_tries := [[]]\<rparr>),
       ac_msg_id = 0, ac_clientno = 7\<rparr>"
  obtain e a' where call: "call_result json_api (sock_sr (\<lambda>_. NUL)) sock_rc (\<lambda>v. Returns v) 0 42 ANil ?a
      = Some (Throws e, a')"
    by (simp add: call_result_def call_with_def call_loop_def forever.simps attempt_def
        SockClient_send_and_response_def SockClient_reconnect_def Let_def)
  then show ?thesis
    using socket_call_throws [OF call] by blast
qed

end
