(* ===== verification/Remote.thy ===== *)
theory Remote
  imports Connection
begin

text \<open>
  A client's calls over any connection to any server. The locale \<open>rpc_link\<close> says what a
  connector that is joined to a server promises: a request that the service answers comes back
  as the text of its response. From this the calls of client.hpp are shown to give what the
  service gives, once for all servers; \<open>Link\<close> and \<open>PollLink\<close> are the two that there are.
\<close>

section \<open>The calls of a client program\<close>

type_synonym 'j call = "i64 \<times> size_t \<times> 'j"   \<comment> \<open>time, method, arguments\<close>

text \<open>One after the other, as long as they return.\<close>

fun remote_calls ::
  "'j jconer \<Rightarrow> (bytes \<Rightarrow> 'c \<Rightarrow> (exn, bytes) outcome \<times> 'c) \<Rightarrow> ('c \<Rightarrow> (exn, unit) outcome \<times> 'c) \<Rightarrow>
   ('j \<Rightarrow> (exn, 'r) outcome) \<Rightarrow> 'j call list \<Rightarrow> 'c absclient \<Rightarrow> ('r list \<times> 'c absclient) option" where
  "remote_calls J sr rc decode [] a = Some ([], a)"
| "remote_calls J sr rc decode ((now, h, content) # calls) a =
     (case call_result J sr rc decode now h content a of
        Some (Returns v, a') \<Rightarrow> map_option (\<lambda>(vs, b). (v # vs, b)) (remote_calls J sr rc decode calls a')
      | _ \<Rightarrow> None)"

text \<open>The texts of their requests.\<close>

fun requests :: "'j jconer \<Rightarrow> i32 \<Rightarrow> i32 \<Rightarrow> 'j call list \<Rightarrow> bytes list" where
  "requests J cno mid [] = []"
| "requests J cno mid ((now, h, content) # calls) =
     build_client_request J cno 0 mid now h content # requests J cno (mid + 1) calls"

lemma length_requests [simp]: "length (requests J cno mid calls) = length calls"
  by (induction J cno mid calls rule: requests.induct) simp_all

lemma serve_all_length: "serve_all J serve sv ms = Some (ps, sv') \<Longrightarrow> length ps = length ms"
  by (induction ms arbitrary: sv ps) (auto split: prod.splits outcome.splits)

text \<open>The calls see the connector only through its operations.\<close>

lemma remote_calls_start:
  assumes "\<And>msg. sr msg (ac_client a) = sr msg c" "calls \<noteq> []"
  shows "remote_calls J sr rc decode calls a = remote_calls J sr rc decode calls (a\<lparr>ac_client := c\<rparr>)"
proof -
  have loop: "call_loop sr rc reconnects parse msg (ac_client a) = call_loop sr rc reconnects parse msg c" for reconnects parse msg
    unfolding call_loop_def by (subst (1 2) forever.simps) (simp add: attempt_def assms(1))
  have "call_result J sr rc decode now h content a = call_result J sr rc decode now h content (a\<lparr>ac_client := c\<rparr>)"
    for now h content
    by (simp add: call_result_def call_with_def Let_def loop split: option.split)
  then show ?thesis
    using assms(2) by (cases calls) auto
qed

section \<open>What a joined connector promises\<close>

text \<open>
  \<open>service l\<close> is the state of the service behind the connection, \<open>up l\<close> and \<open>down l\<close> the bytes that
  have gone either way, \<open>carries l xs\<close> that the kernel will take the requests and replies \<open>xs\<close>, and
  \<open>fits r\<close> that the client can read the reply \<open>r\<close>.
\<close>

locale rpc_link =
  fixes J :: "'j jconer"
    and serve :: "'v \<times> 'j request \<Rightarrow> (exn, int) outcome \<times> 'v \<times> 'j request"
    and sr :: "bytes \<Rightarrow> 'l \<Rightarrow> (exn, bytes) outcome \<times> 'l"
    and rc :: "'l \<Rightarrow> (exn, unit) outcome \<times> 'l"
    and ready :: "'l \<Rightarrow> bool"
    and service :: "'l \<Rightarrow> 'v"
    and up :: "'l \<Rightarrow> bytes"
    and down :: "'l \<Rightarrow> bytes"
    and carries :: "'l \<Rightarrow> (bytes \<times> bytes) list \<Rightarrow> bool"
    and fits :: "bytes \<Rightarrow> bool"
  assumes exchange:
    "json_laws J \<Longrightarrow> ready l \<Longrightarrow> msg \<noteq> [] \<Longrightarrow> NUL \<notin> set msg \<Longrightarrow> length msg < 2 ^ 31 \<Longrightarrow>
     serve_message J serve (service l) msg = (Returns p, sv) \<Longrightarrow> fits (build_response J p) \<Longrightarrow>
     carries l ((msg, build_response J p) # xs) \<Longrightarrow>
     \<exists>l'. sr msg l = (Returns (build_response J p), l') \<and> ready l' \<and> service l' = sv \<and> carries l' xs
        \<and> up l' = up l @ frame msg \<and> down l' = down l @ frame (build_response J p)"
begin

text \<open>One call, with or without a result.\<close>

lemma call_answered:
  assumes "json_laws J" "ready (ac_client a)"
    "msg = build_client_request J (ac_clientno a) 0 (ac_msg_id a) now h content" "length msg < 2 ^ 31"
    "serve_message J serve (service (ac_client a)) msg = (Returns p, sv)"
    "fits (build_response J p)" "parse (build_response J p) = Returns v"
    "carries (ac_client a) ((msg, build_response J p) # xs)"
  shows "\<exists>l'. call_with J sr rc reconnects parse now h content a
      = Some (Returns v, a\<lparr>ac_msg_id := ac_msg_id a + 1, ac_client := l'\<rparr>) \<and> ready l' \<and> service l' = sv
    \<and> carries l' xs \<and> up l' = up (ac_client a) @ frame msg
    \<and> down l' = down (ac_client a) @ frame (build_response J p)"
proof -
  have "msg \<noteq> []" "NUL \<notin> set msg"
    using dumps_text [OF assms(1)] by (simp_all add: assms(3) build_client_request_dumps)
  from exchange [OF assms(1,2) this assms(4-6,8)]
  obtain l' where l': "sr msg (ac_client a) = (Returns (build_response J p), l')"
    "ready l' \<and> service l' = sv \<and> carries l' xs \<and> up l' = up (ac_client a) @ frame msg
     \<and> down l' = down (ac_client a) @ frame (build_response J p)"
    by blast
  have "call_with J sr rc reconnects parse now h content a
      = Some (Returns v, a\<lparr>ac_msg_id := ac_msg_id a + 1, ac_client := l'\<rparr>)"
    using l'(1) assms(3,7) by (intro call_with_returns [where rst = "Returns (build_response J p)"]) simp_all
  then show ?thesis
    using l'(2) by blast
qed

lemma call_result_answered:
  assumes "json_laws J" "ready (ac_client a)"
    "msg = build_client_request J (ac_clientno a) 0 (ac_msg_id a) now h content" "length msg < 2 ^ 31"
    "serve_message J serve (service (ac_client a)) msg = (Returns p, sv)"
    "fits (build_response J p)" "decode (sout p) = Returns v"
    "carries (ac_client a) ((msg, build_response J p) # xs)"
  shows "\<exists>l'. call_result J sr rc decode now h content a
      = Some (Returns v, a\<lparr>ac_msg_id := ac_msg_id a + 1, ac_client := l'\<rparr>) \<and> ready l' \<and> service l' = sv
    \<and> carries l' xs \<and> up l' = up (ac_client a) @ frame msg
    \<and> down l' = down (ac_client a) @ frame (build_response J p)"
  unfolding call_result_def
  by (rule call_answered [OF assms(1-6) _ assms(8)])
     (simp add: parse_result_response(1) [OF assms(1)] assms(7))

text \<open>A program.\<close>

lemma session:
  assumes "json_laws J"
  shows "ready (ac_client a) \<Longrightarrow>
    serve_all J serve (service (ac_client a)) (requests J (ac_clientno a) (ac_msg_id a) calls) = Some (ps, sv) \<Longrightarrow>
    map (\<lambda>p. decode (sout p)) ps = map Returns vs \<Longrightarrow>
    list_all (\<lambda>m. length m < 2 ^ 31) (requests J (ac_clientno a) (ac_msg_id a) calls) \<Longrightarrow>
    list_all (\<lambda>p. fits (build_response J p)) ps \<Longrightarrow>
    carries (ac_client a) (zip (requests J (ac_clientno a) (ac_msg_id a) calls) (map (build_response J) ps)) \<Longrightarrow>
    \<exists>a'. remote_calls J sr rc decode calls a = Some (vs, a') \<and> ready (ac_client a')
      \<and> service (ac_client a') = sv \<and> ac_msg_id a' = ac_msg_id a + word_of_nat (length calls)
      \<and> up (ac_client a') = up (ac_client a) @ concat (map frame (requests J (ac_clientno a) (ac_msg_id a) calls))
      \<and> down (ac_client a') = down (ac_client a) @ concat (map (\<lambda>p. frame (build_response J p)) ps)"
proof (induction calls arbitrary: a ps vs)
  case Nil
  then show ?case by simp
next
  case (Cons call calls)
  obtain now h content where call: "call = (now, h, content)"
    by (cases call) auto
  let ?msg = "build_client_request J (ac_clientno a) 0 (ac_msg_id a) now h content"
  let ?rest = "requests J (ac_clientno a) (ac_msg_id a + 1) calls"
  obtain p sv1 ps' where p: "serve_message J serve (service (ac_client a)) ?msg = (Returns p, sv1)"
      "serve_all J serve sv1 ?rest = Some (ps', sv)" "ps = p # ps'"
    using Cons.prems(2) by (auto simp: call split: prod.splits outcome.splits)
  obtain v vs' where v: "decode (sout p) = Returns v" "map (\<lambda>p. decode (sout p)) ps' = map Returns vs'" "vs = v # vs'"
    using Cons.prems(3) p(3) by (cases vs) auto
  have one: "length ?msg < 2 ^ 31" "fits (build_response J p)"
      "carries (ac_client a) ((?msg, build_response J p) # zip ?rest (map (build_response J) ps'))"
    using Cons.prems(4-6) p(3) by (simp_all add: call)
  obtain l' where l': "call_result J sr rc decode now h content a
      = Some (Returns v, a\<lparr>ac_msg_id := ac_msg_id a + 1, ac_client := l'\<rparr>)" "ready l'" "service l' = sv1"
    "carries l' (zip ?rest (map (build_response J) ps'))" "up l' = up (ac_client a) @ frame ?msg"
    "down l' = down (ac_client a) @ frame (build_response J p)"
    using call_result_answered [where decode = decode and v = v, OF assms Cons.prems(1) refl one(1) p(1) one(2) v(1) one(3)]
    by blast
  show ?case
    using Cons.IH [of "a\<lparr>ac_msg_id := ac_msg_id a + 1, ac_client := l'\<rparr>" ps' vs'] l' p v Cons.prems(4,5)
    by (auto simp: call)
qed

end

end
