(* ===== verification/Link.thy ===== *)
theory Link
  imports SockClient Remote
begin

text \<open>
  sockclient.cpp against sockserver.cpp: the client of \<open>SockClient\<close> and the worker of
  \<open>Connection\<close> joined by a socket. What one side has sent the other side reads, in any pieces;
  the client's code is that of \<open>SockClient::send_and_response\<close>, and between its \<open>_send\<close> and its
  \<open>_recv\<close> the worker runs until it waits again. \<open>call\<close> of \<open>Client\<close> runs over the whole.
\<close>

section \<open>The joined state\<close>

text \<open>
  Both ends; how many of the bytes sent by each have reached the other; and for the
  connections to come the descriptor that the server's \<open>accept\<close> gives and the results of its writes.
\<close>

record ('v, 'j) link =
  lk_client :: sockclient
  lk_net :: net
  lk_conn :: "('v, 'j) conn"
  lk_up :: nat
  lk_down :: nat
  lk_accepts :: "(int \<times> int list) list"

text \<open>
  How the bytes that have come are read: four for the length, the rest in the pieces that
  the kernel chooses.
\<close>

definition segments :: "(bytes \<Rightarrow> bytes list) \<Rightarrow> bytes \<Rightarrow> rres list" where
  "segments chop bs = (if bs = [] then [] else RData (take 4 bs) # map RData (chop (drop 4 bs)))"

text \<open>The worker until it waits, for at most so many steps.\<close>

fun settle ::
  "'j jconer \<Rightarrow> ('v \<times> 'j request \<Rightarrow> (exn, int) outcome \<times> 'v \<times> 'j request) \<Rightarrow> (nat \<Rightarrow> char) \<Rightarrow>
   nat \<Rightarrow> ('v, 'j) conn \<Rightarrow> ('v, 'j) conn" where
  "settle J serve junk 0 c = c"
| "settle J serve junk (Suc k) c =
     (case worker_step J serve junk c of None \<Rightarrow> c | Some c' \<Rightarrow> settle J serve junk k c')"

text \<open>Eight steps are more than one message needs (\<open>settle_answers\<close> below).\<close>

definition TURN :: nat where "TURN = 8"

definition server_turn ::
  "'j jconer \<Rightarrow> ('v \<times> 'j request \<Rightarrow> (exn, int) outcome \<times> 'v \<times> 'j request) \<Rightarrow> (nat \<Rightarrow> char) \<Rightarrow>
   (bytes \<Rightarrow> bytes list) \<Rightarrow> ('v, 'j) link \<Rightarrow> ('v, 'j) link" where
  "server_turn J serve junk chop l =
     (let sent = n_sent (lk_net l);
          c = settle J serve junk TURN (deliver (segments chop (drop (lk_up l) sent)) [] (lk_conn l));
          got = n_sent (cn_wire c)
      in l\<lparr>lk_conn := c, lk_up := length sent, lk_down := length got,
           lk_net := (lk_net l)\<lparr>n_reads := n_reads (lk_net l) @ segments chop (drop (lk_down l) got)\<rparr>\<rparr>)"

definition on_link :: "(net \<Rightarrow> (exn, 'a) outcome \<times> net) \<Rightarrow> ('v, 'j) link \<Rightarrow>
    (exn, 'a) outcome \<times> ('v, 'j) link" where
  "on_link f l = (case f (lk_net l) of (r, n) \<Rightarrow> (r, l\<lparr>lk_net := n\<rparr>))"

text \<open>
  \<open>reconnect\<close> when the server accepts: a new connection of the same service, and what was
  left unread on the old socket is gone.
\<close>

definition link_rc :: "('v, 'j) link \<Rightarrow> (exn, unit) outcome \<times> ('v, 'j) link" where
  "link_rc l =
     (case SockClient_reconnect (lk_client l) (lk_net l) of
        (r, c, n) \<Rightarrow>
          (let l' = l\<lparr>lk_client := c, lk_net := n\<rparr> in
           case r of
             Returns _ \<Rightarrow>
               (case lk_accepts l of
                  [] \<Rightarrow> (Waits, l')
                | (sock, ws) # later \<Rightarrow>
                    (Returns (), l'\<lparr>lk_net := n\<lparr>n_reads := []\<rparr>,
                       lk_conn := deliver [] ws (Connection sock (cn_service (lk_conn l)) 2),
                       lk_up := length (n_sent n), lk_down := 0, lk_accepts := later\<rparr>))
           | _ \<Rightarrow> (r, l')))"

definition link_sr ::
  "'j jconer \<Rightarrow> ('v \<times> 'j request \<Rightarrow> (exn, int) outcome \<times> 'v \<times> 'j request) \<Rightarrow> (nat \<Rightarrow> char) \<Rightarrow>
   (bytes \<Rightarrow> bytes list) \<Rightarrow> bytes \<Rightarrow> ('v, 'j) link \<Rightarrow> (exn, bytes) outcome \<times> ('v, 'j) link" where
  "link_sr J serve junk chop message l =
     pbind (if cl_sock (lk_client l) = UNINIT_SOCKET then link_rc l else (Returns (), l)) (\<lambda>_ l.
     pbind (on_link (\<lambda>n. SockClient_send junk n message) l) (\<lambda>_ l.
     on_link (SockClient_recv junk) (server_turn J serve junk chop l)))"

section \<open>Lemmas\<close>

text \<open>The joined client is the client on its own, when the reply is what the kernel hands it.\<close>

lemma send_ignores_reads:
  "SockClient_send junk (n\<lparr>n_reads := rs\<rparr>) msg =
     (case SockClient_send junk n msg of (r, n') \<Rightarrow> (r, n'\<lparr>n_reads := rs\<rparr>))"
  by (auto simp: SockClient_send_def split: sum.split prod.split)

lemma send_keeps_reads: "n_reads (snd (SockClient_send junk n msg)) = n_reads n"
  by (auto simp: SockClient_send_def split: sum.split prod.split)

lemma link_sr_is_client:
  assumes "cl_sock (lk_client l) \<noteq> UNINIT_SOCKET"
    "SockClient_send junk (lk_net l) message = (Returns (), n)"
    "rs = n_reads (lk_net (server_turn J serve junk chop (l\<lparr>lk_net := n\<rparr>)))"
    "link_sr J serve junk chop message l = (r, l')"
  shows "SockClient_send_and_response junk message (lk_client l, (lk_net l)\<lparr>n_reads := rs\<rparr>)
    = (r, lk_client l', lk_net l')"
proof -
  let ?l = "server_turn J serve junk chop (l\<lparr>lk_net := n\<rparr>)"
  have net: "lk_net ?l = n\<lparr>n_reads := rs\<rparr>" "lk_client ?l = lk_client l"
    using assms(3) by (simp_all add: server_turn_def Let_def)
  have "on_link (SockClient_recv junk) ?l = (r, l')"
    using assms(1,2,4) by (simp add: link_sr_def on_link_def)
  then have "SockClient_recv junk (n\<lparr>n_reads := rs\<rparr>) = (r, lk_net l') \<and> lk_client l' = lk_client l"
    using net by (auto simp: on_link_def split: prod.splits)
  then show ?thesis
    using assms(1,2) by (simp add: SockClient_send_and_response_def on_net_def send_ignores_reads)
qed

lemma settle_run:
  "worker_run J serve junk j c = Some c' \<Longrightarrow> settle J serve junk (j + k) c = settle J serve junk k c'"
proof (induction j arbitrary: c)
  case (Suc j)
  then obtain d where "worker_step J serve junk c = Some d" "worker_run J serve junk j d = Some c'"
    by (auto simp: Option.bind_eq_Some_conv)
  then show ?case
    using Suc.IH by simp
qed simp

lemma settle_waits_id: "worker_step J serve junk c = None \<Longrightarrow> settle J serve junk k c = c"
  by (cases k) simp_all

text \<open>What a client reads right with the code as it is: up to 1024 bytes, and a NUL after them.\<close>

definition legible :: "(nat \<Rightarrow> char) \<Rightarrow> bytes \<Rightarrow> bool" where
  "legible junk msg \<longleftrightarrow> length msg \<le> CHUNK \<and> cstring (drop (length msg) (fresh junk CHUNK)) = Some []"

definition cuts :: "(bytes \<Rightarrow> bytes list) \<Rightarrow> bool" where
  "cuts chop \<longleftrightarrow> (\<forall>m. m \<noteq> [] \<longrightarrow> pieces m (chop m))"

lemma segments_frame:
  "msg \<noteq> [] \<Longrightarrow> segments chop (frame msg) = request_reads msg (chop msg)"
  by (simp add: segments_def frame_def request_reads_def)

text \<open>A connection whose worker waits at its loop or in \<open>read\<close> with nothing left to read.\<close>

definition waiting :: "('v, 'j) conn \<Rightarrow> bool" where
  "waiting c \<longleftrightarrow> (cn_pc c = AtLoop \<or> cn_pc c = AtRecv) \<and> cn_connected c \<and> n_reads (cn_wire c) = []"

definition ready :: "('v, 'j) link \<Rightarrow> bool" where
  "ready l \<longleftrightarrow> cl_sock (lk_client l) \<noteq> UNINIT_SOCKET \<and> n_reads (lk_net l) = []
     \<and> lk_up l = length (n_sent (lk_net l)) \<and> lk_down l = length (n_sent (cn_wire (lk_conn l)))
     \<and> waiting (lk_conn l)"

lemma settle_answers:
  assumes "json_laws J" "waiting c" "pieces msg cs" "length msg < 2 ^ 31"
    "serve_message J serve (cn_service c) msg = (Returns p, sv)"
    "length (build_response J p) < 2 ^ 31"
    "n_writes (cn_wire c) = all_writes (build_response J p) @ ws"
  shows "settle J serve junk TURN (deliver (request_reads msg cs) [] c)
    = c\<lparr>cn_pc := AtRecv, cn_service := sv, cn_wire := (cn_wire c)\<lparr>n_writes := ws,
        n_sent := n_sent (cn_wire c) @ frame (build_response J p)\<rparr>\<rparr>" (is "_ = ?t")
proof -
  let ?s = "(deliver (request_reads msg cs) [] c)\<lparr>cn_pc := AtLoop\<rparr>"
  have "worker_run J serve junk 5 ?s = Some (?t\<lparr>cn_pc := AtLoop\<rparr>)"
    by (subst worker_answers [where rs = "[]" and ws = ws])
       (use assms in \<open>auto simp: waiting_def deliver_def\<close>)
  then have run: "settle J serve junk (5 + k) ?s = settle J serve junk k (?t\<lparr>cn_pc := AtLoop\<rparr>)" for k
    by (rule settle_run)
  have "worker_step J serve junk (?t\<lparr>cn_pc := AtLoop\<rparr>) = Some ?t" "worker_step J serve junk ?t = None"
    using assms(2) by (simp_all add: worker_step.simps waiting_def Connection_recv_def)
  then have stop: "settle J serve junk (Suc k) (?t\<lparr>cn_pc := AtLoop\<rparr>) = ?t" for k
    by (simp add: settle_waits_id)
  show ?thesis
  proof (cases "cn_pc c = AtLoop")
    case True
    then have "deliver (request_reads msg cs) [] c = ?s"
      by (simp add: deliver_def)
    then show ?thesis
      using run [of 3] stop [of 2] by (simp add: TURN_def eval_nat_numeral)
  next
    case False
    then have "worker_step J serve junk ?s = Some (deliver (request_reads msg cs) [] c)"
      using assms(2) by (simp add: worker_step.simps waiting_def deliver_def)
    then have "settle J serve junk (Suc TURN) ?s = settle J serve junk TURN (deliver (request_reads msg cs) [] c)"
      by simp
    then show ?thesis
      using run [of 4] stop [of 3] by (simp add: TURN_def eval_nat_numeral)
  qed
qed

text \<open>One exchange.\<close>

lemma link_sr_answers:
  assumes "json_laws J" "cuts chop" "ready l" "msg \<noteq> []" "length msg < 2 ^ 31"
    "n_writes (lk_net l) = all_writes msg @ ws"
    "serve_message J serve (cn_service (lk_conn l)) msg = (Returns p, sv)"
    "legible junk (build_response J p)"
    "n_writes (cn_wire (lk_conn l)) = all_writes (build_response J p) @ ws'"
  shows "\<exists>l'. link_sr J serve junk chop msg l = (Returns (build_response J p), l') \<and> ready l'
    \<and> n_writes (lk_net l') = ws \<and> n_sent (lk_net l') = n_sent (lk_net l) @ frame msg
    \<and> n_writes (cn_wire (lk_conn l')) = ws' \<and> cn_service (lk_conn l') = sv
    \<and> n_sent (cn_wire (lk_conn l')) = n_sent (cn_wire (lk_conn l)) @ frame (build_response J p)
    \<and> cn_sock (lk_conn l') = cn_sock (lk_conn l)"
proof -
  let ?r = "build_response J p"
  let ?n = "(lk_net l)\<lparr>n_sent := n_sent (lk_net l) @ frame msg, n_writes := ws\<rparr>"
  let ?c = "(lk_conn l)\<lparr>cn_pc := AtRecv, cn_service := sv, cn_wire := (cn_wire (lk_conn l))\<lparr>n_writes := ws',
        n_sent := n_sent (cn_wire (lk_conn l)) @ frame ?r\<rparr>\<rparr>"
  have r: "?r \<noteq> []" "NUL \<notin> set ?r"
    using dumps_text [OF assms(1)] by (simp_all add: build_response_def)
  have len: "length ?r \<le> CHUNK"
    using assms(8) by (simp add: legible_def)
  have send: "on_link (\<lambda>n. SockClient_send junk n msg) l = (Returns (), l\<lparr>lk_net := ?n\<rparr>)"
    using SockClient_send_all [OF assms(4,5), of "lk_net l" ws junk] assms(6)
    by (simp add: on_link_def all_writes_def)
  have "settle J serve junk TURN (deliver (request_reads msg (chop msg)) [] (lk_conn l)) = ?c"
    by (rule settle_answers [OF assms(1)])
       (use assms len in \<open>auto simp: ready_def cuts_def\<close>)
  then have turn: "server_turn J serve junk chop (l\<lparr>lk_net := ?n\<rparr>) =
      l\<lparr>lk_conn := ?c, lk_up := length (n_sent ?n), lk_down := length (n_sent (cn_wire ?c)),
        lk_net := ?n\<lparr>n_reads := request_reads ?r (chop ?r)\<rparr>\<rparr>"
    using assms(3,4) r(1) by (simp add: server_turn_def Let_def ready_def segments_frame)
  have "SockClient_recv junk (?n\<lparr>n_reads := request_reads ?r (chop ?r)\<rparr>) = (Returns ?r, ?n\<lparr>n_reads := []\<rparr>)"
    using SockClient_recv_small [of ?r "chop ?r" "?n\<lparr>n_reads := request_reads ?r (chop ?r)\<rparr>" "[]" junk]
      assms(2,8) r len by (simp add: cuts_def legible_def request_reads_def)
  then have "link_sr J serve junk chop msg l =
      (Returns ?r, l\<lparr>lk_conn := ?c, lk_up := length (n_sent ?n), lk_down := length (n_sent (cn_wire ?c)),
        lk_net := ?n\<lparr>n_reads := []\<rparr>\<rparr>)"
    using assms(3) by (simp add: link_sr_def ready_def send turn) (simp add: on_link_def)
  then show ?thesis
    using assms(3) by (simp add: ready_def waiting_def)
qed

text \<open>So the joined client keeps the promise, with the writes that these messages need.\<close>

definition link_carries :: "('v, 'j) link \<Rightarrow> (bytes \<times> bytes) list \<Rightarrow> bool" where
  "link_carries l xs \<longleftrightarrow>
     (\<exists>ws ws'. n_writes (lk_net l) = concat (map (\<lambda>x. all_writes (fst x)) xs) @ ws
        \<and> n_writes (cn_wire (lk_conn l)) = concat (map (\<lambda>x. all_writes (snd x)) xs) @ ws')"

lemma link_carries_zip:
  assumes "length ms = length rs" "n_writes (lk_net l) = concat (map all_writes ms) @ ws"
    "n_writes (cn_wire (lk_conn l)) = concat (map all_writes rs) @ ws'"
  shows "link_carries l (zip ms rs)"
proof -
  have "map (\<lambda>x. all_writes (fst x)) (zip ms rs) = map all_writes (map fst (zip ms rs))"
    "map (\<lambda>x. all_writes (snd x)) (zip ms rs) = map all_writes (map snd (zip ms rs))"
    by simp_all
  then show ?thesis
    using assms by (simp add: link_carries_def del: map_map)
qed

interpretation lk: rpc_link J serve "link_sr J serve junk chop" link_rc "\<lambda>l. cuts chop \<and> ready l"
    "\<lambda>l. cn_service (lk_conn l)" "\<lambda>l. n_sent (lk_net l)" "\<lambda>l. n_sent (cn_wire (lk_conn l))"
    link_carries "legible junk" for J serve junk chop
proof unfold_locales
  fix l :: "('b, 'a) link" and msg p sv xs
  assume *: "json_laws J" "cuts chop \<and> ready l" "msg \<noteq> []" "length msg < 2 ^ 31"
    "serve_message J serve (cn_service (lk_conn l)) msg = (Returns p, sv)" "legible junk (build_response J p)"
    "link_carries l ((msg, build_response J p) # xs)"
  then obtain ws ws' where ws: "n_writes (lk_net l) = all_writes msg @ concat (map (\<lambda>x. all_writes (fst x)) xs) @ ws"
    "n_writes (cn_wire (lk_conn l)) = all_writes (build_response J p) @ concat (map (\<lambda>x. all_writes (snd x)) xs) @ ws'"
    by (auto simp: link_carries_def)
  have cut: "cuts chop" "ready l"
    using *(2) by simp_all
  show "\<exists>l'. link_sr J serve junk chop msg l = (Returns (build_response J p), l') \<and> (cuts chop \<and> ready l')
      \<and> cn_service (lk_conn l') = sv \<and> link_carries l' xs \<and> n_sent (lk_net l') = n_sent (lk_net l) @ frame msg
      \<and> n_sent (cn_wire (lk_conn l')) = n_sent (cn_wire (lk_conn l)) @ frame (build_response J p)"
    using link_sr_answers [OF *(1) cut *(3,4) ws(1) *(5,6) ws(2)] cut(1) unfolding link_carries_def by blast
qed

section \<open>Eviction between two calls\<close>

lemma reconnect_ok:
  assumes "n_tries n = tries # later" "\<not> list_all refuses tries"
  shows "\<exists>c' closed. SockClient_reconnect c n = (Returns (), c', n\<lparr>n_tries := later, n_closed := closed\<rparr>)
    \<and> cl_sock c' \<noteq> UNINIT_SOCKET"
proof -
  have "dropWhile refuses tries \<noteq> []"
    using assms(2) by (auto simp: dropWhile_eq_Nil_conv list_all_iff)
  moreover have same: "n\<lparr>n_tries := tries # later\<rparr> = n"
    using assms(1) by simp
  ultimately obtain s r rest where "dropWhile refuses tries = (s, r) # rest"
    by (cases "dropWhile refuses tries") auto
  then have "\<exists>c' closed. SockClient_reconnect c n = (Returns (), c', n\<lparr>n_tries := later, n_closed := closed\<rparr>)"
    using reconnect_split [where c = c and n = n and tries = tries and later = later] same by (auto simp: Let_def)
  then show ?thesis
    using reconnect_links by blast
qed

lemma link_rc_ok:
  assumes "n_tries (lk_net l) = tries # later" "\<not> list_all refuses tries" "lk_accepts l = (sock, ws) # rest"
  shows "\<exists>l'. link_rc l = (Returns (), l') \<and> ready l' \<and> n_writes (lk_net l') = n_writes (lk_net l)
    \<and> n_sent (lk_net l') = n_sent (lk_net l) \<and> n_writes (cn_wire (lk_conn l')) = ws
    \<and> cn_service (lk_conn l') = cn_service (lk_conn l) \<and> cn_sock (lk_conn l') = sock
    \<and> n_sent (cn_wire (lk_conn l')) = [] \<and> lk_accepts l' = rest"
proof -
  obtain c' closed where "SockClient_reconnect (lk_client l) (lk_net l)
      = (Returns (), c', (lk_net l)\<lparr>n_tries := later, n_closed := closed\<rparr>)" "cl_sock c' \<noteq> UNINIT_SOCKET"
    using reconnect_ok [OF assms(1,2)] by blast
  then show ?thesis
    using assms(3) by (simp add: link_rc_def Let_def ready_def waiting_def deliver_def Connection_def)
qed

text \<open>The first attempt finds the frame that announced the eviction.\<close>

lemma link_sr_evicted:
  assumes "json_laws J" "cuts chop" "ready l" "msg \<noteq> []" "length msg < 2 ^ 31"
    "n_writes (lk_net l) = all_writes msg @ ws" "legible junk err" "err \<noteq> []" "NUL \<notin> set err"
    "cn_pc w = AtEnd" "n_sent (cn_wire w) = n_sent (cn_wire (lk_conn l)) @ frame err"
  shows "\<exists>l'. link_sr J serve junk chop msg (l\<lparr>lk_conn := w\<rparr>) = (Returns err, l')
    \<and> n_writes (lk_net l') = ws \<and> n_sent (lk_net l') = n_sent (lk_net l) @ frame msg
    \<and> cn_service (lk_conn l') = cn_service w \<and> n_tries (lk_net l') = n_tries (lk_net l)
    \<and> lk_accepts l' = lk_accepts l"
proof -
  let ?n = "(lk_net l)\<lparr>n_sent := n_sent (lk_net l) @ frame msg, n_writes := ws\<rparr>"
  let ?w = "deliver (segments chop (frame msg)) [] w"
  have send: "on_link (\<lambda>n. SockClient_send junk n msg) (l\<lparr>lk_conn := w\<rparr>) = (Returns (), l\<lparr>lk_conn := w, lk_net := ?n\<rparr>)"
    using SockClient_send_all [OF assms(4,5), of "lk_net l" ws junk] assms(6)
    by (simp add: on_link_def all_writes_def)
  have "settle J serve junk TURN ?w = ?w"
    using assms(10) by (intro settle_waits_id) (simp add: worker_step.simps deliver_def)
  then have turn: "server_turn J serve junk chop (l\<lparr>lk_conn := w, lk_net := ?n\<rparr>) =
      l\<lparr>lk_conn := ?w, lk_up := length (n_sent ?n), lk_down := length (n_sent (cn_wire w)),
        lk_net := ?n\<lparr>n_reads := request_reads err (chop err)\<rparr>\<rparr>"
    using assms(3,8,11) by (simp add: server_turn_def Let_def ready_def segments_frame)
       (simp add: deliver_def segments_frame)
  have "SockClient_recv junk (?n\<lparr>n_reads := request_reads err (chop err)\<rparr>) = (Returns err, ?n\<lparr>n_reads := []\<rparr>)"
    using SockClient_recv_small [of err "chop err" "?n\<lparr>n_reads := request_reads err (chop err)\<rparr>" "[]" junk]
      assms(2,7-9) by (simp add: cuts_def legible_def request_reads_def)
  then have "link_sr J serve junk chop msg (l\<lparr>lk_conn := w\<rparr>) =
      (Returns err, l\<lparr>lk_conn := ?w, lk_up := length (n_sent ?n), lk_down := length (n_sent (cn_wire w)),
        lk_net := ?n\<lparr>n_reads := []\<rparr>\<rparr>)"
    using assms(3) by (simp add: link_sr_def ready_def send turn) (simp add: on_link_def)
  then show ?thesis
    by (simp add: deliver_def)
qed

lemma link_call_evicted:
  assumes "json_laws J" "cuts chop" "ready l"
    "msg = build_client_request J cno 0 mid now h content" "length msg < 2 ^ 31"
    "n_writes (lk_net l) = all_writes msg @ all_writes msg @ ws"
    "n_tries (lk_net l) = tries # later" "\<not> list_all refuses tries"
    "lk_accepts l = (sock, all_writes (build_response J p) @ ws') # rest"
    "legible junk (build_error J SOCKET_CLOSED)" "cn_pc w = AtEnd"
    "n_sent (cn_wire w) = n_sent (cn_wire (lk_conn l)) @ frame (build_error J SOCKET_CLOSED)"
    "serve_message J serve (cn_service w) msg = (Returns p, sv)"
    "legible junk (build_response J p)" "decode (sout p) = Returns v"
  shows "\<exists>l'. call_result J (link_sr J serve junk chop) link_rc decode now h content
        \<lparr>ac_client = l\<lparr>lk_conn := w\<rparr>, ac_msg_id = mid, ac_clientno = cno\<rparr>
      = Some (Returns v, \<lparr>ac_client = l', ac_msg_id = mid + 1, ac_clientno = cno\<rparr>)
    \<and> ready l' \<and> n_sent (lk_net l') = n_sent (lk_net l) @ frame msg @ frame msg
    \<and> cn_sock (lk_conn l') = sock \<and> cn_service (lk_conn l') = sv
    \<and> n_sent (cn_wire (lk_conn l')) = frame (build_response J p)"
proof -
  have msg: "msg \<noteq> []"
    using dumps_text(1) [OF assms(1)] by (simp add: assms(4) build_client_request_dumps)
  have err: "build_error J SOCKET_CLOSED \<noteq> []" "NUL \<notin> set (build_error J SOCKET_CLOSED)"
    using dumps_text [OF assms(1)] by (simp_all add: build_error_def)
  obtain l1 where l1: "link_sr J serve junk chop msg (l\<lparr>lk_conn := w\<rparr>) = (Returns (build_error J SOCKET_CLOSED), l1)"
    "n_writes (lk_net l1) = all_writes msg @ ws" "n_sent (lk_net l1) = n_sent (lk_net l) @ frame msg"
    "cn_service (lk_conn l1) = cn_service w" "n_tries (lk_net l1) = n_tries (lk_net l)" "lk_accepts l1 = lk_accepts l"
    using link_sr_evicted [OF assms(1-3) msg assms(5,6,10) err assms(11,12), of serve] by blast
  obtain l2 where l2: "link_rc l1 = (Returns (), l2)" "ready l2" "n_writes (lk_net l2) = all_writes msg @ ws"
    "n_sent (lk_net l2) = n_sent (lk_net l) @ frame msg" "n_writes (cn_wire (lk_conn l2)) = all_writes (build_response J p) @ ws'"
    "cn_service (lk_conn l2) = cn_service w" "cn_sock (lk_conn l2) = sock" "n_sent (cn_wire (lk_conn l2)) = []"
    using link_rc_ok [of l1 tries later sock "all_writes (build_response J p) @ ws'" rest] l1 assms(7-9) by auto
  obtain l3 where l3: "link_sr J serve junk chop msg l2 = (Returns (build_response J p), l3)" "ready l3"
    "n_sent (lk_net l3) = n_sent (lk_net l) @ frame msg @ frame msg" "cn_service (lk_conn l3) = sv"
    "n_sent (cn_wire (lk_conn l3)) = frame (build_response J p)" "cn_sock (lk_conn l3) = sock"
    using link_sr_answers [OF assms(1,2) l2(2) msg assms(5) l2(3) _ assms(14) l2(5), of serve sv] l2 assms(13) by auto
  have "parse_result J decode (build_error J SOCKET_CLOSED) = Throws (Server ServerCloseSocketException)"
    using parse_result_error(1) [OF assms(1), of decode ServerCloseSocketException] by simp
  moreover have "parse_result J decode (build_response J p) = Returns v"
    using assms(15) by (simp add: parse_result_response(1) [OF assms(1)])
  ultimately show ?thesis
    using l1(1) l2(1) l3 assms(4)
    by (simp add: call_result_def call_with_def call_loop_def Let_def attempt_def check_tried_def MAX_TRY_def
        forever.simps)
qed


section \<open>Properties\<close>

text \<open>
  (C2) Remote is local: a client program's calls over the socket return, in order, what the
  service gives for the same requests handled one after the other in its own process, and
  leave the service in the same state; each request goes out once and each response comes
  back once, with nothing between them. The pieces in which the bytes arrive do not matter. Each
  response has at most 1024 bytes, and a NUL follows them in the client's memory (\<open>legible\<close>).
\<close>
theorem remote_calls_are_local:
  assumes "json_laws J" "cuts chop" "ready (ac_client a)"
    "serve_all J serve (cn_service (lk_conn (ac_client a))) (requests J (ac_clientno a) (ac_msg_id a) calls) = Some (ps, sv)"
    "map (\<lambda>p. decode (sout p)) ps = map Returns vs"
    "list_all (\<lambda>m. length m < 2 ^ 31) (requests J (ac_clientno a) (ac_msg_id a) calls)"
    "list_all (\<lambda>p. legible junk (build_response J p)) ps"
    "link_carries (ac_client a) (zip (requests J (ac_clientno a) (ac_msg_id a) calls) (map (build_response J) ps))"
  shows "\<exists>a'. remote_calls J (link_sr J serve junk chop) link_rc decode calls a = Some (vs, a')
      \<and> ready (ac_client a') \<and> cn_service (lk_conn (ac_client a')) = sv
      \<and> ac_msg_id a' = ac_msg_id a + word_of_nat (length calls)
      \<and> n_sent (lk_net (ac_client a')) = n_sent (lk_net (ac_client a))
          @ concat (map frame (requests J (ac_clientno a) (ac_msg_id a) calls))
      \<and> n_sent (cn_wire (lk_conn (ac_client a'))) = n_sent (cn_wire (lk_conn (ac_client a)))
          @ concat (map (\<lambda>p. frame (build_response J p)) ps)"
  using lk.session [OF assms(1) _ assms(4-8), of chop] assms(2,3) by blast

text \<open>A client of the sample service on descriptor 3, whose bytes come one by one.\<close>

definition bytewise :: "bytes \<Rightarrow> bytes list" where
  "bytewise m = map (\<lambda>c. [c]) m"

definition sample_link :: "int list \<Rightarrow> int list \<Rightarrow> ((nat, json) service, json) link" where
  "sample_link ws ws' =
     \<lparr>lk_client = \<lparr>cl_sock = 3, cl_host = ''h'', cl_port = ''1''\<rparr>, lk_net = idle_net\<lparr>n_writes := ws\<rparr>,
      lk_conn = deliver [] ws' (Connection 5 sample_service 2), lk_up = 0, lk_down = 0, lk_accepts = []\<rparr>"

lemma cuts_bytewise: "cuts bytewise"
  by (simp add: cuts_def bytewise_def pieces_def list_all_iff)

lemma sample_ready: "ready (sample_link ws ws')"
  by (simp add: ready_def waiting_def sample_link_def deliver_def Connection_def idle_net_def UNINIT_SOCKET_def)

lemma legible_zero: "length msg < CHUNK \<Longrightarrow> legible (\<lambda>_. NUL) msg"
  unfolding legible_def by (intro conjI cstring_zero) simp_all

lemma sample_legible:
  "legible (\<lambda>_. NUL) (build_response json_api \<lparr>sout = JInt 7\<rparr>)"
  "legible (\<lambda>_. NUL) (build_error json_api SOCKET_CLOSED)"
  by (rule legible_zero, code_simp)+

lemma sample_short: "length sample_request < 2 ^ 31"
  using sample_length(2) by (rule le_less_trans) simp

theorem remote_calls_are_local_witness:
  "\<exists>a'. remote_calls json_api (link_sr json_api on_request (\<lambda>_. NUL) bytewise) link_rc Returns [(99, 42, ANil)]
      \<lparr>ac_client = sample_link (all_writes sample_request) (all_writes (build_response json_api \<lparr>sout = JInt 7\<rparr>)),
       ac_msg_id = 3, ac_clientno = 1\<rparr> = Some ([JInt 7], a')
    \<and> sv_object (cn_service (lk_conn (ac_client a'))) = 1"
proof -
  let ?ws = "all_writes sample_request" and ?ws' = "all_writes (build_response json_api \<lparr>sout = JInt 7\<rparr>)"
  let ?a = "\<lparr>ac_client = sample_link ?ws ?ws', ac_msg_id = 3, ac_clientno = 1\<rparr>"
  have req: "requests json_api (ac_clientno ?a) (ac_msg_id ?a) [(99, 42, ANil)] = [sample_request]"
    by (simp add: sample_request_def)
  have served: "serve_all json_api on_request (cn_service (lk_conn (ac_client ?a)))
      (requests json_api (ac_clientno ?a) (ac_msg_id ?a) [(99, 42, ANil)])
      = Some ([\<lparr>sout = JInt 7\<rparr>], sample_service\<lparr>sv_object := 1\<rparr>)"
    unfolding req by (simp add: sample_link_def deliver_def Connection_def sample_served)
  have "link_carries (sample_link ?ws ?ws') [(sample_request, build_response json_api \<lparr>sout = JInt 7\<rparr>)]"
    by (simp add: link_carries_def sample_link_def deliver_def Connection_def)
  then obtain a' where "remote_calls json_api (link_sr json_api on_request (\<lambda>_. NUL) bytewise) link_rc Returns
      [(99, 42, ANil)] ?a = Some ([JInt 7], a')"
    "cn_service (lk_conn (ac_client a')) = sample_service\<lparr>sv_object := 1\<rparr>"
    using remote_calls_are_local [where a = ?a and vs = "[JInt 7]" and decode = Returns and junk = "\<lambda>_. NUL",
        OF json_api_laws cuts_bytewise _ served] sample_ready sample_legible(1) sample_short
    unfolding req by (auto simp del: remote_calls.simps)
  then show ?thesis
    by auto
qed

lemma idle_evicted:
  assumes "json_laws J" "waiting c" "cn_pc c = AtRecv" "cn_mutex c = None" "cn_ev c = ECall (Suc n)"
    "n_writes (cn_wire c) = []" "length (build_error J SOCKET_CLOSED) < 2 ^ 31"
  shows "\<exists>c1 c2 c3. evictor_run 4 c = Some c1
    \<and> worker_run J serve junk 4 (deliver [] (all_writes (build_error J SOCKET_CLOSED)) c1) = Some c2
    \<and> evictor_run 2 c2 = Some c3 \<and> n_closed (cn_wire c3) = n_closed (cn_wire c) @ [cn_sock c]
    \<and> cn_pc c3 = AtEnd \<and> cn_service c3 = cn_service c
    \<and> n_sent (cn_wire c3) = n_sent (cn_wire c) @ frame (build_error J SOCKET_CLOSED)"
proof -
  let ?err = "build_error J SOCKET_CLOSED"
  let ?c1 = "c\<lparr>cn_ev := EUnlocked n, cn_connected := False, cn_wire := shut_rd (cn_wire c)\<rparr>"
  let ?d = "deliver [] (all_writes ?err) ?c1"
  let ?c2 = "?d\<lparr>cn_pc := AtEnd, cn_wire := (cn_wire ?d)
     \<lparr>n_reads := [], n_sent := n_sent (cn_wire ?d) @ frame ?err, n_writes := []\<rparr>\<rparr>"
  let ?c3 = "?c2\<lparr>cn_ev := ECall n, cn_wire := (cn_wire ?c2)\<lparr>n_closed := n_closed (cn_wire ?c2) @ [cn_sock ?c2]\<rparr>\<rparr>"
  have "worker_run J serve junk 4 ?d = Some ?c2"
    by (rule worker_announces [OF assms(1), where ws = "[]"])
       (use assms in \<open>simp_all add: deliver_def waiting_def\<close>)
  moreover have "evictor_run 4 c = Some ?c1"
    using assms(3-5) by (intro evictor_marks) (simp_all add: is_dead_def)
  moreover have "evictor_run 2 ?c2 = Some ?c3"
    by (rule evictor_closes) (simp_all add: deliver_def)
  ultimately show ?thesis
    by (intro exI [of _ ?c1] exI [of _ ?c2] exI [of _ ?c3]) (simp add: deliver_def)
qed

text \<open>
  (C12) An eviction between two calls is not seen by the caller: the server shuts an idle
  connection down, which ends the read its worker waits in, and the worker tells the client
  SOCKET_CLOSED; the next call finds that frame in place of a response, connects again, at the
  first address that accepts, and sends the request a second time, on the new connection. The
  method is run once, and its result returned.
\<close>
theorem eviction_is_transparent:
  assumes "json_laws J" "cuts chop" "ready l"
    "lk_conn l = c" "cn_pc c = AtRecv" "cn_mutex c = None" "cn_ev c = ECall (Suc n)" "n_writes (cn_wire c) = []"
    "legible junk (build_error J SOCKET_CLOSED)"
    "msg = build_client_request J cno 0 mid now h content" "length msg < 2 ^ 31"
    "n_writes (lk_net l) = all_writes msg @ all_writes msg @ ws"
    "n_tries (lk_net l) = tries # later" "\<not> list_all refuses tries"
    "lk_accepts l = (sock, all_writes (build_response J p) @ ws') # rest"
    "serve_message J serve (cn_service c) msg = (Returns p, sv)"
    "legible junk (build_response J p)" "decode (sout p) = Returns v"
  shows "\<exists>c1 c2 c3 l'. evictor_run 4 c = Some c1
    \<and> worker_run J serve junk 4 (deliver [] (all_writes (build_error J SOCKET_CLOSED)) c1) = Some c2
    \<and> evictor_run 2 c2 = Some c3 \<and> n_closed (cn_wire c3) = n_closed (cn_wire c) @ [cn_sock c]
    \<and> call_result J (link_sr J serve junk chop) link_rc decode now h content
        \<lparr>ac_client = l\<lparr>lk_conn := c3\<rparr>, ac_msg_id = mid, ac_clientno = cno\<rparr>
      = Some (Returns v, \<lparr>ac_client = l', ac_msg_id = mid + 1, ac_clientno = cno\<rparr>)
    \<and> ready l' \<and> n_sent (lk_net l') = n_sent (lk_net l) @ frame msg @ frame msg
    \<and> cn_sock (lk_conn l') = sock \<and> cn_service (lk_conn l') = sv
    \<and> n_sent (cn_wire (lk_conn l')) = frame (build_response J p)"
proof -
  have "waiting c" "length (build_error J SOCKET_CLOSED) < 2 ^ 31"
    using assms(3,4,9) by (auto simp: ready_def legible_def)
  from idle_evicted [OF assms(1) this(1) assms(5-8) this(2)]
  obtain c1 c2 c3 where evicted: "evictor_run 4 c = Some c1"
      "worker_run J serve junk 4 (deliver [] (all_writes (build_error J SOCKET_CLOSED)) c1) = Some c2"
      "evictor_run 2 c2 = Some c3" "n_closed (cn_wire c3) = n_closed (cn_wire c) @ [cn_sock c]"
    and c3: "cn_pc c3 = AtEnd" "cn_service c3 = cn_service c"
      "n_sent (cn_wire c3) = n_sent (cn_wire (lk_conn l)) @ frame (build_error J SOCKET_CLOSED)"
    using assms(4) by metis
  have "serve_message J serve (cn_service c3) msg = (Returns p, sv)"
    using assms(16) c3(2) by simp
  from link_call_evicted [where decode = decode and v = v, OF assms(1-3,10-15,9) c3(1,3) this assms(17,18)]
  obtain l' where "call_result J (link_sr J serve junk chop) link_rc decode now h content
        \<lparr>ac_client = l\<lparr>lk_conn := c3\<rparr>, ac_msg_id = mid, ac_clientno = cno\<rparr>
      = Some (Returns v, \<lparr>ac_client = l', ac_msg_id = mid + 1, ac_clientno = cno\<rparr>)"
    "ready l' \<and> n_sent (lk_net l') = n_sent (lk_net l) @ frame msg @ frame msg
    \<and> cn_sock (lk_conn l') = sock \<and> cn_service (lk_conn l') = sv
    \<and> n_sent (cn_wire (lk_conn l')) = frame (build_response J p)"
    by (elim exE conjE) simp
  then show ?thesis
    using evicted by (intro exI [of _ c1] exI [of _ c2] exI [of _ c3] exI [of _ l']) simp
qed

theorem eviction_is_transparent_witness:
  "\<exists>c3 l'. n_closed (cn_wire c3) = [5]
    \<and> call_result json_api (link_sr json_api on_request (\<lambda>_. NUL) bytewise) link_rc Returns 99 42 ANil
        \<lparr>ac_client = (sample_link (all_writes sample_request @ all_writes sample_request) [])
           \<lparr>lk_net := idle_net\<lparr>n_writes := all_writes sample_request @ all_writes sample_request,
              n_tries := [[(4, -1), (6, 0)]]\<rparr>,
            lk_accepts := [(7, all_writes (build_response json_api \<lparr>sout = JInt 7\<rparr>))], lk_conn := c3\<rparr>,
         ac_msg_id = 3, ac_clientno = 1\<rparr>
      = Some (Returns (JInt 7), \<lparr>ac_client = l', ac_msg_id = 4, ac_clientno = 1\<rparr>)
    \<and> cn_sock (lk_conn l') = 7 \<and> sv_object (cn_service (lk_conn l')) = 1"
proof -
  let ?ws = "all_writes sample_request @ all_writes sample_request"
  let ?c = "(Connection 5 sample_service 2)\<lparr>cn_pc := AtRecv\<rparr> :: ((nat, json) service, json) conn"
  let ?l = "(sample_link ?ws [])\<lparr>lk_conn := ?c, lk_net := idle_net\<lparr>n_writes := ?ws, n_tries := [[(4, -1), (6, 0)]]\<rparr>,
      lk_accepts := [(7, all_writes (build_response json_api \<lparr>sout = JInt 7\<rparr>))]\<rparr>"
  have l: "ready ?l" "lk_conn ?l = ?c" "cn_pc ?c = AtRecv" "cn_mutex ?c = None" "cn_ev ?c = ECall (Suc 1)"
      "n_writes (cn_wire ?c) = []" "n_writes (lk_net ?l) = all_writes sample_request @ all_writes sample_request @ []"
      "n_tries (lk_net ?l) = [(4, -1), (6, 0)] # []" "\<not> list_all refuses [(4, -1), (6, 0)]"
      "lk_accepts ?l = (7, all_writes (build_response json_api \<lparr>sout = JInt 7\<rparr>) @ []) # []"
    by (simp_all add: ready_def waiting_def sample_link_def Connection_def idle_net_def UNINIT_SOCKET_def refuses_def)
  have s: "serve_message json_api on_request (cn_service ?c) sample_request
      = (Returns \<lparr>sout = JInt 7\<rparr>, sample_service\<lparr>sv_object := 1\<rparr>)"
    by (simp add: Connection_def sample_served)
  have "Returns (sout \<lparr>sout = JInt 7\<rparr>) = (Returns (JInt 7) :: (exn, json) outcome)"
    by simp
  note call = eviction_is_transparent [where decode = Returns and v = "JInt 7" and mid = 3, OF json_api_laws
      cuts_bytewise l(1-6) sample_legible(2) sample_request_def sample_short l(7-10) s sample_legible(1) this]
  then obtain c3 l' where "n_closed (cn_wire c3) = n_closed (cn_wire ?c) @ [cn_sock ?c]"
    "call_result json_api (link_sr json_api on_request (\<lambda>_. NUL) bytewise) link_rc Returns 99 42 ANil
        \<lparr>ac_client = ?l\<lparr>lk_conn := c3\<rparr>, ac_msg_id = 3, ac_clientno = 1\<rparr>
      = Some (Returns (JInt 7), \<lparr>ac_client = l', ac_msg_id = 3 + 1, ac_clientno = 1\<rparr>)"
    "cn_sock (lk_conn l') = 7" "cn_service (lk_conn l') = sample_service\<lparr>sv_object := 1\<rparr>"
    by (elim exE conjE) (rule that; assumption)
  then show ?thesis
    by (intro exI [of _ c3] exI [of _ l']) (simp add: Connection_def)
qed

text \<open>
  (C28) A reply and the announcement that follows it: a worker that is evicted while it serves a
  request sends the response and, after it, SOCKET_CLOSED. The client asks each \<open>read\<close> for 1024
  bytes, not for what is missing of the message; when a piece reaches over the end of the
  response, the count of bytes passes the size without meeting it, and the call waits for ever, end
  of file or not, although its result has arrived.
\<close>
theorem merged_frames_hang:
  assumes "json_laws J" "cn_pc s = AtReply p" "\<not> cn_connected s" "cn_mutex s = None"
    "reply = build_response J p" "err = build_error J SOCKET_CLOSED"
    "length (reply @ frame err) < 2 ^ 31"
    "n_writes (cn_wire s) = all_writes reply @ all_writes err @ ws"
    "list_all (\<lambda>c. length c \<le> CHUNK) cs" "concat cs = reply @ frame err"
    "\<forall>k. length (concat (take k cs)) \<noteq> length reply"
    "n_reads n = RData (int_bytes (size_as_int reply)) # map RData cs @ replicate k (RData [])"
  shows "\<exists>t. worker_run J serve junk 5 s = Some t \<and> cn_pc t = AtEnd
    \<and> n_sent (cn_wire t) = n_sent (cn_wire s) @ int_bytes (size_as_int reply) @ concat cs
    \<and> fst (SockClient_recv junk n) = Waits"
proof -
  have r: "reply \<noteq> []"
    using dumps_text(1) [OF assms(1)] assms(5) by (simp add: build_response_def)
  have lens: "length reply < 2 ^ 31" "length err < 2 ^ 31"
    using assms(7) by (simp_all add: frame_def)
  let ?t = "s\<lparr>cn_pc := AtEnd, cn_wire := (cn_wire s)\<lparr>n_sent := n_sent (cn_wire s) @ frame reply @ frame err,
      n_writes := ws\<rparr>\<rparr>"
  let ?s1 = "s\<lparr>cn_pc := AtCatch ServerCloseSocketException, cn_wire := (cn_wire s)\<lparr>
      n_sent := n_sent (cn_wire s) @ frame reply, n_writes := all_writes err @ ws\<rparr>\<rparr>"
  have "Connection_send_response J junk (cn_wire s) p =
      (Returns (), (cn_wire s)\<lparr>n_sent := n_sent (cn_wire s) @ frame reply, n_writes := all_writes err @ ws\<rparr>)"
    unfolding Connection_send_response_def assms(5) [symmetric]
    by (rule Connection_send_all [OF r lens(1)]) (use assms(8) in \<open>simp add: all_writes_def\<close>)
  then have "worker_run J serve junk 2 s = Some ?s1"
    using assms(2,3) by (simp add: numeral_2_eq_2 worker_step.simps)
  moreover have "worker_run J serve junk 3 ?s1 = Some ?t"
    by (subst worker_reports [OF assms(1), where e = ServerCloseSocketException and ws = ws]) (use assms lens in simp_all)
  ultimately have run: "worker_run J serve junk 5 s = Some ?t"
    using worker_run_add [of J serve junk 2 3 s] by simp
  have "recv_loop (WRONBuffer_write junk) client_read_chk (size_as_int reply)
      (map RData (cs @ replicate k [])) (WRONBuffer junk) (fresh junk CHUNK) 0 = (Waits, [])"
  proof (rule wr.recv_misses [OF wron_inv_new length_fresh])
    fix j assume "0 < j" "j \<le> length (cs @ replicate k [])"
    have "concat (take j (cs @ replicate k [])) = concat (take j cs)"
      by (simp add: take_replicate)
    then show "length (contents (WRONBuffer junk) @ concat (take j (cs @ replicate k []))) \<noteq> length reply"
      using assms(11) by simp
  qed (use assms lens in \<open>auto simp: client_read_chk_def size_as_int_def list_all_iff frame_def\<close>)
  moreover have "\<not> sint (size_as_int reply) \<le> 0"
    using size_as_int_pos r lens(1) by (simp add: not_le)
  ultimately have "fst (SockClient_recv junk n) = Waits"
    using assms(12) by (simp add: SockClient_recv_def sys_read_header Let_def)
  then show ?thesis
    using run assms(10) by (intro exI [of _ ?t]) (simp add: frame_def)
qed

theorem merged_frames_hang_witness:
  "\<exists>t. worker_run json_api on_request (\<lambda>_. NUL) 5
      (deliver [] (all_writes (build_response json_api \<lparr>sout = JInt 7\<rparr>) @ all_writes (build_error json_api SOCKET_CLOSED))
        ((Connection 5 sample_service 1)\<lparr>cn_pc := AtReply \<lparr>sout = JInt 7\<rparr>, cn_connected := False\<rparr>)) = Some t
    \<and> fst (SockClient_recv (\<lambda>_. NUL) (idle_net\<lparr>n_reads :=
        RData (int_bytes (size_as_int (build_response json_api \<lparr>sout = JInt 7\<rparr>)))
        # map RData [build_response json_api \<lparr>sout = JInt 7\<rparr> @ frame (build_error json_api SOCKET_CLOSED)]
        @ replicate 9 (RData [])\<rparr>)) = Waits"
proof -
  let ?reply = "build_response json_api \<lparr>sout = JInt 7\<rparr>" and ?err = "build_error json_api SOCKET_CLOSED"
  let ?s = "deliver [] (all_writes ?reply @ all_writes ?err)
        ((Connection 5 sample_service 1)\<lparr>cn_pc := AtReply \<lparr>sout = JInt 7\<rparr>, cn_connected := False\<rparr>)
        :: ((nat, json) service, json) conn"
  have "length ?reply + length ?err \<le> 1020" and ne: "?reply \<noteq> []"
    by code_simp+
  then have len: "length (?reply @ frame ?err) \<le> 1024"
    by (simp add: frame_def)
  from len have short: "length (?reply @ frame ?err) < 2 ^ 31"
    by (rule le_less_trans) simp
  have s: "cn_pc ?s = AtReply \<lparr>sout = JInt 7\<rparr>" "\<not> cn_connected ?s" "cn_mutex ?s = None"
      "n_writes (cn_wire ?s) = all_writes ?reply @ all_writes ?err @ []"
    by (simp_all add: deliver_def Connection_def)
  have cs: "list_all (\<lambda>c. length c \<le> CHUNK) [?reply @ frame ?err]"
    using len by (simp only: list.pred_inject simp_thms)
  have "length (concat (take k [?reply @ frame ?err])) \<noteq> length ?reply" for k
    using ne by (cases k) (simp_all add: frame_def)
  then have "\<forall>k. length (concat (take k [?reply @ frame ?err])) \<noteq> length ?reply"
    by (rule allI)
  note hang = merged_frames_hang [OF json_api_laws s(1-3) refl refl short s(4) cs _ this, where k = 9 and serve = on_request
        and junk = "\<lambda>_. NUL" and n = "idle_net\<lparr>n_reads := RData (int_bytes (size_as_int ?reply))
          # map RData [?reply @ frame ?err] @ replicate 9 (RData [])\<rparr>"]
  have "concat [?reply @ frame ?err] = ?reply @ frame ?err"
    by (simp only: concat.simps append_Nil2)
  from hang [OF this] show ?thesis
    by (simp del: replicate.simps) blast
qed

end
