(* ===== verification/PollManager.thy ===== *)
theory PollManager
  imports Util Errors
begin

text \<open>
  pollserver.hpp and pollserver.cpp, \<open>PollManager\<close>: the descriptors that \<open>select\<close> watches.
  An \<open>fd_set\<close> has room for FD_SETSIZE descriptors; setting another bit is an access
  outside it. An \<open>unordered_set\<close> is a list without duplicates, in some order of iteration.
  The only instance has static storage, so its two \<open>fd_set\<close>s start empty although the
  constructor does not clear them.
\<close>

datatype fd_mode = READ | WRITE

definition FD_SETSIZE :: int where "FD_SETSIZE = 1024"

record pollman =
  pm_highest :: int
  pm_read_set :: "int set"
  pm_write_set :: "int set"
  pm_watched_read :: "int list"
  pm_watched_write :: "int list"
  pm_flags :: "int \<rightharpoonup> i32"           \<comment> \<open>the descriptors of the process, for \<open>nonblock\_fd\<close>\<close>

definition PollManager :: "(int \<rightharpoonup> i32) \<Rightarrow> pollman" where
  "PollManager fds =
     \<lparr>pm_highest = 0, pm_read_set = {}, pm_write_set = {}, pm_watched_read = [],
      pm_watched_write = [], pm_flags = fds\<rparr>"

text \<open>\<open>FD_SET\<close> and \<open>FD_CLR\<close> of the C library.\<close>

definition fd_ok :: "int \<Rightarrow> bool" where "fd_ok fd \<longleftrightarrow> 0 \<le> fd \<and> fd < FD_SETSIZE"

definition FD_SET :: "int \<Rightarrow> int set \<Rightarrow> fault + int set" where
  "FD_SET fd s = (if fd_ok fd then Inr (insert fd s) else Inl OutOfBounds)"

definition FD_CLR :: "int \<Rightarrow> int set \<Rightarrow> fault + int set" where
  "FD_CLR fd s = (if fd_ok fd then Inr (s - {fd}) else Inl OutOfBounds)"

definition PollManager_watch :: "i32 \<Rightarrow> pollman \<Rightarrow> int \<Rightarrow> fd_mode \<Rightarrow> fault + pollman" where
  "PollManager_watch O_NONBLOCK p fd md =
     (let p = p\<lparr>pm_flags := nonblock_fd O_NONBLOCK (pm_flags p) fd\<rparr> in
      case (if md = READ
            then (case FD_SET fd (pm_read_set p) of
                    Inl f \<Rightarrow> Inl f
                  | Inr s \<Rightarrow> Inr (p\<lparr>pm_read_set := s, pm_watched_read := List.insert fd (pm_watched_read p)\<rparr>))
            else (case FD_SET fd (pm_write_set p) of
                    Inl f \<Rightarrow> Inl f
                  | Inr s \<Rightarrow> Inr (p\<lparr>pm_write_set := s, pm_watched_write := List.insert fd (pm_watched_write p)\<rparr>))) of
        Inl f \<Rightarrow> Inl f
      | Inr p' \<Rightarrow> Inr (if fd > pm_highest p' then p'\<lparr>pm_highest := fd\<rparr> else p'))"

text \<open>The two loops that look for the new highest descriptor.\<close>

fun highest_from :: "int \<Rightarrow> int list \<Rightarrow> int" where
  "highest_from h [] = h"
| "highest_from h (x # xs) = highest_from (if h < x then x else h) xs"

definition PollManager_unwatch :: "pollman \<Rightarrow> int \<Rightarrow> fd_mode \<Rightarrow> fault + pollman" where
  "PollManager_unwatch p fd md =
     (case (if md = READ
            then (case FD_CLR fd (pm_read_set p) of
                    Inl f \<Rightarrow> Inl f
                  | Inr s \<Rightarrow> Inr (p\<lparr>pm_read_set := s, pm_watched_read := removeAll fd (pm_watched_read p)\<rparr>))
            else (case FD_CLR fd (pm_write_set p) of
                    Inl f \<Rightarrow> Inl f
                  | Inr s \<Rightarrow> Inr (p\<lparr>pm_write_set := s, pm_watched_write := removeAll fd (pm_watched_write p)\<rparr>))) of
        Inl f \<Rightarrow> Inl f
      | Inr p' \<Rightarrow>
          (let new_highest = highest_from 0 (pm_watched_read p');
               new_highest = highest_from new_highest (pm_watched_write p')
           in Inr (p'\<lparr>pm_highest := new_highest\<rparr>)))"

section \<open>poll\<close>

text \<open>
  What a \<open>select\<close> gives: -1, or the descriptors of its sets that are ready. \<open>select\<close> looks
  only below its first argument. The vectors passed in are appended to.
\<close>

datatype selected = SelectFails | Selected "int set" "int set"

fun collect :: "int list \<Rightarrow> int set \<Rightarrow> int list \<Rightarrow> int list" where
  "collect [] s acc = acc"
| "collect (i # is) s acc = collect is s (if i \<in> s then acc @ [i] else acc)"

definition fds_upto :: "int \<Rightarrow> int list" where
  "fds_upto highest = map int [0..<nat (highest + 1)]"

text \<open>One turn of the loop: the result of \<open>poll\<close>, or \<open>None\<close> to go round again.\<close>

definition poll_turn :: "pollman \<Rightarrow> selected \<Rightarrow> int list \<times> int list \<Rightarrow> bool option \<times> int list \<times> int list" where
  "poll_turn p k v =
     (case k of
        SelectFails \<Rightarrow> (Some False, v)
      | Selected rs ws \<Rightarrow>
          (let n = pm_highest p + 1;
               read_set = {i \<in> pm_read_set p. i < n \<and> i \<in> rs};
               write_set = {i \<in> pm_write_set p. i < n \<and> i \<in> ws};
               reads = collect (fds_upto (pm_highest p)) read_set (fst v);
               writes = collect (fds_upto (pm_highest p)) write_set (snd v)
           in (if reads \<noteq> [] \<or> writes \<noteq> [] then Some True else None, reads, writes)))"

text \<open>
  The whole of \<open>poll\<close>: each turn takes the sets as they are then (other threads change them
  between two turns) and one result of \<open>select\<close>.
\<close>

fun PollManager_poll ::
  "(pollman \<times> selected) list \<Rightarrow> int list \<times> int list \<Rightarrow> (exn, bool) outcome \<times> int list \<times> int list" where
  "PollManager_poll [] v = (Waits, v)"
| "PollManager_poll ((p, k) # ks) v =
     (case poll_turn p k v of
        (Some b, v') \<Rightarrow> (Returns b, v')
      | (None, v') \<Rightarrow> PollManager_poll ks v')"

section \<open>The invariant\<close>

definition pm_watched :: "pollman \<Rightarrow> fd_mode \<Rightarrow> int set" where
  "pm_watched p md = (case md of READ \<Rightarrow> pm_read_set p | WRITE \<Rightarrow> pm_write_set p)"

definition pm_inv :: "pollman \<Rightarrow> bool" where
  "pm_inv p \<longleftrightarrow> set (pm_watched_read p) = pm_read_set p \<and> set (pm_watched_write p) = pm_write_set p
     \<and> distinct (pm_watched_read p) \<and> distinct (pm_watched_write p)
     \<and> pm_read_set p \<union> pm_write_set p \<subseteq> {fd. fd_ok fd}
     \<and> pm_highest p = Max (insert 0 (pm_read_set p \<union> pm_write_set p))"

lemma highest_from_Max: "highest_from h xs = Max (insert h (set xs))"
proof (induction xs arbitrary: h)
  case (Cons x xs)
  have "insert h (set (x # xs)) = insert h (insert x (set xs))" by simp
  moreover have "Max (insert h (insert x (set xs))) = Max (insert (max h x) (set xs))"
    by (cases "xs = []") (auto simp: max.assoc)
  moreover have "(if h < x then x else h) = max h x" by auto
  ultimately show ?case using Cons.IH [of "max h x"] by simp
qed simp

lemma new_highest: "highest_from (highest_from 0 xs) ys = Max (insert 0 (set xs \<union> set ys))"
proof -
  have "highest_from (highest_from h xs) ys = highest_from h (xs @ ys)" for h
    by (induction xs arbitrary: h) simp_all
  then show ?thesis by (simp add: highest_from_Max)
qed

lemma pm_finite: "pm_inv p \<Longrightarrow> finite (pm_read_set p \<union> pm_write_set p)"
  by (metis pm_inv_def finite_set finite_Un)

lemma watch_eq:
  assumes "fd_ok fd"
  shows "PollManager_watch nb p fd READ = Inr (p\<lparr>pm_flags := nonblock_fd nb (pm_flags p) fd,
      pm_read_set := insert fd (pm_read_set p), pm_watched_read := List.insert fd (pm_watched_read p),
      pm_highest := max (pm_highest p) fd\<rparr>)"
    and "PollManager_watch nb p fd WRITE = Inr (p\<lparr>pm_flags := nonblock_fd nb (pm_flags p) fd,
      pm_write_set := insert fd (pm_write_set p), pm_watched_write := List.insert fd (pm_watched_write p),
      pm_highest := max (pm_highest p) fd\<rparr>)"
  using assms by (simp_all add: PollManager_watch_def FD_SET_def Let_def max_def)

lemma unwatch_eq:
  assumes "fd_ok fd"
  shows "PollManager_unwatch p fd READ = Inr (p\<lparr>pm_read_set := pm_read_set p - {fd},
      pm_watched_read := removeAll fd (pm_watched_read p),
      pm_highest := Max (insert 0 ((set (pm_watched_read p) - {fd}) \<union> set (pm_watched_write p)))\<rparr>)"
    and "PollManager_unwatch p fd WRITE = Inr (p\<lparr>pm_write_set := pm_write_set p - {fd},
      pm_watched_write := removeAll fd (pm_watched_write p),
      pm_highest := Max (insert 0 (set (pm_watched_read p) \<union> (set (pm_watched_write p) - {fd})))\<rparr>)"
  using assms by (simp_all add: PollManager_unwatch_def FD_CLR_def Let_def new_highest)

lemma watch_step:
  assumes "pm_inv p" "fd_ok fd"
  shows "\<exists>p'. PollManager_watch nb p fd md = Inr p' \<and> pm_inv p'
    \<and> pm_watched p' md = insert fd (pm_watched p md)
    \<and> (\<forall>m. m \<noteq> md \<longrightarrow> pm_watched p' m = pm_watched p m)"
proof -
  let ?A = "pm_read_set p \<union> pm_write_set p"
  have "Max (insert fd (insert 0 ?A)) = max fd (Max (insert 0 ?A))"
    using pm_finite [OF assms(1)] by (intro Max_insert) simp_all
  then have "Max (insert 0 (insert fd ?A)) = max (Max (insert 0 ?A)) fd"
    by (simp add: insert_commute max.commute)
  then show ?thesis
    using assms by (cases md) (simp_all add: watch_eq pm_inv_def pm_watched_def split: fd_mode.split)
qed

lemma unwatch_step:
  assumes "pm_inv p" "fd_ok fd"
  shows "\<exists>p'. PollManager_unwatch p fd md = Inr p' \<and> pm_inv p'
    \<and> pm_watched p' md = pm_watched p md - {fd}
    \<and> (\<forall>m. m \<noteq> md \<longrightarrow> pm_watched p' m = pm_watched p m)"
  using assms
  by (cases md) (auto simp: unwatch_eq pm_inv_def pm_watched_def distinct_removeAll split: fd_mode.split)

section \<open>The interface\<close>

text \<open>
  What the server relies on: the set of the watched descriptors grows and shrinks by the one
  named, for the mode named.
\<close>

locale poll_set =
  fixes watch :: "'p \<Rightarrow> int \<Rightarrow> fd_mode \<Rightarrow> fault + 'p"
    and unwatch :: "'p \<Rightarrow> int \<Rightarrow> fd_mode \<Rightarrow> fault + 'p"
    and watched :: "'p \<Rightarrow> fd_mode \<Rightarrow> int set"
    and inv :: "'p \<Rightarrow> bool"
    and ok :: "int \<Rightarrow> bool"
  assumes watch_law: "inv p \<Longrightarrow> ok fd \<Longrightarrow> \<exists>p'. watch p fd md = Inr p' \<and> inv p'
      \<and> watched p' md = insert fd (watched p md) \<and> (\<forall>m. m \<noteq> md \<longrightarrow> watched p' m = watched p m)"
    and unwatch_law: "inv p \<Longrightarrow> ok fd \<Longrightarrow> \<exists>p'. unwatch p fd md = Inr p' \<and> inv p'
      \<and> watched p' md = watched p md - {fd} \<and> (\<forall>m. m \<noteq> md \<longrightarrow> watched p' m = watched p m)"
begin

text \<open>What the server does when it drops a connection.\<close>

lemma drop_both:
  assumes "inv p" "ok fd"
  shows "\<exists>p' p''. unwatch p fd READ = Inr p' \<and> unwatch p' fd WRITE = Inr p'' \<and> inv p''
    \<and> (\<forall>m. watched p'' m = watched p m - {fd})"
proof -
  obtain p' where p': "unwatch p fd READ = Inr p'" "inv p'" "watched p' READ = watched p READ - {fd}"
      "watched p' WRITE = watched p WRITE"
    using unwatch_law [OF assms, of READ] by auto
  obtain p'' where p'': "unwatch p' fd WRITE = Inr p''" "inv p''" "watched p'' WRITE = watched p' WRITE - {fd}"
      "watched p'' READ = watched p' READ"
    using unwatch_law [OF p'(2) assms(2), of WRITE] by auto
  have "watched p'' m = watched p m - {fd}" for m
    using p' p'' by (cases m) auto
  then show ?thesis using p' p'' by blast
qed

end

interpretation pm: poll_set "PollManager_watch nb" PollManager_unwatch pm_watched pm_inv fd_ok for nb
  by unfold_locales (rule watch_step, assumption+, rule unwatch_step, assumption+)

section \<open>Properties\<close>

text \<open>A history of calls, each with its descriptor and mode, up to the first fault.\<close>

datatype pm_call = Watch int fd_mode | Unwatch int fd_mode

fun pm_run :: "i32 \<Rightarrow> pollman \<Rightarrow> pm_call list \<Rightarrow> fault + pollman" where
  "pm_run nb p [] = Inr p"
| "pm_run nb p (Watch fd m # cs) =
     (case PollManager_watch nb p fd m of Inl f \<Rightarrow> Inl f | Inr p' \<Rightarrow> pm_run nb p' cs)"
| "pm_run nb p (Unwatch fd m # cs) =
     (case PollManager_unwatch p fd m of Inl f \<Rightarrow> Inl f | Inr p' \<Rightarrow> pm_run nb p' cs)"

fun call_fd :: "pm_call \<Rightarrow> int" where
  "call_fd (Watch fd m) = fd" | "call_fd (Unwatch fd m) = fd"

text \<open>The abstract history: a set of descriptors per mode.\<close>

fun history :: "pm_call list \<Rightarrow> fd_mode \<Rightarrow> int set \<Rightarrow> int set" where
  "history [] md A = A"
| "history (Watch fd m # cs) md A = history cs md (if m = md then insert fd A else A)"
| "history (Unwatch fd m # cs) md A = history cs md (if m = md then A - {fd} else A)"

lemma pm_run_history:
  assumes "pm_inv p" "list_all (\<lambda>c. fd_ok (call_fd c)) cs"
  shows "\<exists>p'. pm_run nb p cs = Inr p' \<and> pm_inv p' \<and> (\<forall>md. pm_watched p' md = history cs md (pm_watched p md))"
  using assms
proof (induction cs arbitrary: p)
  case (Cons c cs)
  show ?case
  proof (cases c)
    case (Watch fd m)
    then obtain p' where p': "PollManager_watch nb p fd m = Inr p'" "pm_inv p'"
        "pm_watched p' m = insert fd (pm_watched p m)" "\<forall>k. k \<noteq> m \<longrightarrow> pm_watched p' k = pm_watched p k"
      using pm.watch_law [of p fd nb m] Cons.prems by auto
    then show ?thesis
      using Cons.IH [OF p'(2)] Cons.prems(2) Watch by (auto split: if_splits)
  next
    case (Unwatch fd m)
    then obtain p' where p': "PollManager_unwatch p fd m = Inr p'" "pm_inv p'"
        "pm_watched p' m = pm_watched p m - {fd}" "\<forall>k. k \<noteq> m \<longrightarrow> pm_watched p' k = pm_watched p k"
      using pm.unwatch_law [of p fd m] Cons.prems by auto
    then show ?thesis
      using Cons.IH [OF p'(2)] Cons.prems(2) Unwatch by (auto split: if_splits)
  qed
qed simp

lemma PollManager_inv: "pm_inv (PollManager fds)" "pm_watched (PollManager fds) md = {}"
  by (simp_all add: PollManager_def pm_inv_def pm_watched_def split: fd_mode.split)

lemma collect_filter: "collect is s acc = acc @ filter (\<lambda>i. i \<in> s) is"
  by (induction "is" arbitrary: acc) auto

lemma sorted_fds_upto: "sorted (fds_upto h)" "set (fds_upto h) = {i. 0 \<le> i \<and> i \<le> h}" "distinct (fds_upto h)"
proof -
  show "set (fds_upto h) = {i. 0 \<le> i \<and> i \<le> h}"
  proof (intro set_eqI iffI)
    fix i assume "i \<in> {i. 0 \<le> i \<and> i \<le> h}"
    then have "i = int (nat i)" "nat i < nat (h + 1)" by auto
    then show "i \<in> set (fds_upto h)"
      unfolding fds_upto_def by (metis atLeastLessThan_iff image_eqI le0 list.set_map set_upt)
  qed (auto simp: fds_upto_def)
qed (simp_all add: fds_upto_def sorted_map distinct_map inj_on_def)

lemma below_highest: "pm_inv p \<Longrightarrow> fd \<in> pm_watched p m \<Longrightarrow> 0 \<le> fd \<and> fd \<le> pm_highest p"
proof -
  assume inv: "pm_inv p" and fd: "fd \<in> pm_watched p m"
  then have "fd \<in> pm_read_set p \<union> pm_write_set p"
    by (auto simp: pm_watched_def split: fd_mode.splits)
  then show ?thesis
    using inv pm_finite [OF inv] by (auto simp: pm_inv_def fd_ok_def)
qed

lemma poll_turn_reads:
  assumes "pm_inv p"
  shows "poll_turn p (Selected rs ws) ([], []) =
     (let reads = filter (\<lambda>i. i \<in> pm_watched p READ \<inter> rs) (fds_upto (pm_highest p));
          writes = filter (\<lambda>i. i \<in> pm_watched p WRITE \<inter> ws) (fds_upto (pm_highest p))
      in (if reads \<noteq> [] \<or> writes \<noteq> [] then Some True else None, reads, writes))"
proof -
  have "filter (\<lambda>i. i \<in> {i \<in> A. i < pm_highest p + 1 \<and> i \<in> B}) (fds_upto (pm_highest p))
      = filter (\<lambda>i. i \<in> A \<inter> B) (fds_upto (pm_highest p))" for A B
    by (rule filter_cong) (auto simp: sorted_fds_upto)
  then show ?thesis
    by (simp add: poll_turn_def Let_def collect_filter pm_watched_def)
qed

text \<open>
  (C32) After any history of \<open>watch\<close> and \<open>unwatch\<close> on descriptors that fit an \<open>fd_set\<close>, what is
  watched is what the history says, \<open>_highest\<close> is the greatest of it, and a turn of
  \<open>poll\<close> reports, in ascending order and once each, exactly the watched descriptors that
  \<open>select\<close> found ready: none is lost above \<open>_highest\<close>.
\<close>
theorem poll_reports_ready:
  assumes "list_all (\<lambda>c. fd_ok (call_fd c)) cs"
  shows "\<exists>p. pm_run nb (PollManager fds) cs = Inr p
    \<and> pm_highest p = Max (insert 0 (history cs READ {} \<union> history cs WRITE {}))
    \<and> (case poll_turn p (Selected rs ws) ([], []) of (res, reads, writes) \<Rightarrow>
         set reads = history cs READ {} \<inter> rs \<and> set writes = history cs WRITE {} \<inter> ws
         \<and> sorted reads \<and> distinct reads \<and> sorted writes \<and> distinct writes
         \<and> res = (if reads = [] \<and> writes = [] then None else Some True))"
proof -
  obtain p where p: "pm_run nb (PollManager fds) cs = Inr p" "pm_inv p"
      "\<And>md. pm_watched p md = history cs md {}"
    using pm_run_history [OF PollManager_inv(1) assms, of nb fds] PollManager_inv(2) by auto
  have "pm_highest p = Max (insert 0 (pm_watched p READ \<union> pm_watched p WRITE))"
    using p(2) by (simp add: pm_inv_def pm_watched_def)
  moreover have "set (filter (\<lambda>i. i \<in> pm_watched p m \<inter> A) (fds_upto (pm_highest p))) = pm_watched p m \<inter> A" for m A
    using below_highest [OF p(2), of _ m] by (auto simp: sorted_fds_upto)
  moreover have "sorted (filter P (fds_upto h)) \<and> distinct (filter P (fds_upto h))" for P h
    using sorted_fds_upto [of h] sorted_filter [of "\<lambda>x. x" "fds_upto h" P] by simp
  ultimately show ?thesis
    using p(1,3) by (simp add: poll_turn_reads [OF p(2)] Let_def)
qed

theorem poll_reports_ready_witness:
  "\<exists>p. pm_run 2048 (PollManager (\<lambda>_. None)) [Watch 9 READ, Watch 4 READ, Watch 7 WRITE, Unwatch 9 READ] = Inr p
    \<and> pm_highest p = 7"
proof -
  let ?cs = "[Watch 9 READ, Watch 4 READ, Watch 7 WRITE, Unwatch 9 READ]"
  have "list_all (\<lambda>c. fd_ok (call_fd c)) ?cs"
    by (simp add: fd_ok_def FD_SETSIZE_def)
  from poll_reports_ready [OF this, of 2048 "\<lambda>_. None" "{4}" "{}"] show ?thesis
    by (elim exE conjE) (rule exI, simp add: insert_Diff_if)
qed

text \<open>
  Nothing keeps the descriptors below FD_SETSIZE: watching the 1025th descriptor of the
  process sets a bit outside the \<open>fd_set\<close>, in either mode and in any state.
\<close>
theorem watch_beyond_fd_setsize:
  assumes "1024 \<le> fd"
  shows "PollManager_watch nb p fd md = Inl OutOfBounds \<and> PollManager_unwatch p fd md = Inl OutOfBounds"
  using assms
  by (simp add: PollManager_watch_def PollManager_unwatch_def FD_SET_def FD_CLR_def fd_ok_def
      FD_SETSIZE_def Let_def)

theorem watch_beyond_fd_setsize_witness:
  "PollManager_watch 2048 (PollManager (\<lambda>_. None)) 1024 READ = Inl OutOfBounds"
  using watch_beyond_fd_setsize [of 1024 2048 "PollManager (\<lambda>_. None)" READ] by simp

end
