(* ===== verification/Channel.thy ===== *)
theory Channel
  imports Buffer PollManager
begin

text \<open>
  pollserver.hpp and pollserver.cpp, \<open>Channel\<close>: one connection of the poll server, with its
  two callbacks, the sending of a reply and the message it has received. The sockets are
  non-blocking: a \<open>read\<close> with nothing there gives -1. \<open>Mutex\<close> belongs to another library:
  unlocking one that is not locked leaves it unlocked here and is counted.
\<close>

section \<open>States\<close>

datatype chan_state = BROKEN | CLOSED | READ_PENDING | READ_READY | WRITE_PENDING | WRITE_READY

fun state_value :: "chan_state \<Rightarrow> int" where
  "state_value BROKEN = -2"
| "state_value CLOSED = -1"
| "state_value READ_PENDING = 0"
| "state_value READ_READY = 1"
| "state_value WRITE_PENDING = 3"
| "state_value WRITE_READY = 4"

lemma state_value_inject [simp]: "state_value s = state_value t \<longleftrightarrow> s = t"
  by (cases s; cases t) simp_all

text \<open>The enumeration is unscoped: its values compare as ints.\<close>

instantiation chan_state :: linorder
begin

definition less_eq_chan_state :: "chan_state \<Rightarrow> chan_state \<Rightarrow> bool" where
  "less_eq_chan_state s t \<longleftrightarrow> state_value s \<le> state_value t"

definition less_chan_state :: "chan_state \<Rightarrow> chan_state \<Rightarrow> bool" where
  "less_chan_state s t \<longleftrightarrow> state_value s < state_value t"

instance
  by standard (auto simp: less_eq_chan_state_def less_chan_state_def)

end

text \<open>The states after which the server drops the channel.\<close>

lemma dropped_states: "s < READ_PENDING \<longleftrightarrow> s = CLOSED \<or> s = BROKEN"
  by (cases s) (simp_all add: less_chan_state_def)

section \<open>Channel\<close>

record channel =
  ch_sock :: int
  ch_read_buffer :: "rdon option"      \<comment> \<open>the reply that is being written\<close>
  ch_write_buffer :: "wron option"     \<comment> \<open>the message that is being read\<close>
  ch_send_mutex :: bool
  ch_bad_unlocks :: nat
  ch_alive :: bool
  ch_busy :: bool
  ch_wire :: wire

text \<open>The constructor, with the table of descriptors it makes non-blocking.\<close>

definition Channel :: "i32 \<Rightarrow> (int \<rightharpoonup> i32) \<Rightarrow> int \<Rightarrow> wire \<Rightarrow> channel \<times> (int \<rightharpoonup> i32)" where
  "Channel O_NONBLOCK fds sock w =
     (\<lparr>ch_sock = sock, ch_read_buffer = None, ch_write_buffer = None, ch_send_mutex = False,
       ch_bad_unlocks = 0, ch_alive = True, ch_busy = False, ch_wire = w\<rparr>,
      nonblock_fd O_NONBLOCK fds sock)"

definition send_unlock :: "channel \<Rightarrow> channel" where
  "send_unlock ch =
     (if ch_send_mutex ch then ch\<lparr>ch_send_mutex := False\<rparr>
      else ch\<lparr>ch_bad_unlocks := ch_bad_unlocks ch + 1\<rparr>)"

text \<open>The second half of \<open>read\<close>: a chunk into the buffer of the message.\<close>

definition Channel_read_chunk :: "(nat \<Rightarrow> char) \<Rightarrow> channel \<Rightarrow> wron \<Rightarrow> (exn, chan_state) outcome \<times> channel"
where
  "Channel_read_chunk junk ch b =
     (case n_reads (ch_wire ch) of
        [] \<Rightarrow> (Waits, ch)
      | r # rs \<Rightarrow>
          (case sys_read r CHUNK (fresh junk CHUNK) of (len, chunk) \<Rightarrow>
            (let ch = ch\<lparr>ch_wire := (ch_wire ch)\<lparr>n_reads := rs\<rparr>\<rparr> in
             case SizedWRONBuffer_write b chunk (to_size len) of
               Inl f \<Rightarrow> (Faults f, ch)
             | Inr (_, b') \<Rightarrow>
                 (let ch = ch\<lparr>ch_write_buffer := Some b'\<rparr> in
                  if \<not> wron_ready b' then (Returns READ_PENDING, ch)
                  else (Returns READ_READY, ch\<lparr>ch_busy := True\<rparr>)))))"

definition Channel_read :: "(nat \<Rightarrow> char) \<Rightarrow> channel \<Rightarrow> (exn, chan_state) outcome \<times> channel" where
  "Channel_read junk ch =
     (if ch_busy ch then (Waits, ch)
      else
        (case ch_write_buffer ch of
           Some b \<Rightarrow> Channel_read_chunk junk ch b
         | None \<Rightarrow>
             (case n_reads (ch_wire ch) of
                [] \<Rightarrow> (Waits, ch)
              | r # rs \<Rightarrow>
                  (case sys_read r 4 (int_bytes 0) of (len, size_bytes) \<Rightarrow>
                    (let msize = bytes_int size_bytes;
                         ch = ch\<lparr>ch_wire := (ch_wire ch)\<lparr>n_reads := rs\<rparr>\<rparr> in
                     if len = 0 then (Returns CLOSED, ch)
                     else if len \<noteq> 4 \<or> sint msize \<le> 0 then (Returns BROKEN, ch\<lparr>ch_busy := True\<rparr>)
                     else
                       (case WRONBuffer_sized junk (to_size msize) of
                          Inl f \<Rightarrow> (Faults f, ch)
                        | Inr b \<Rightarrow> Channel_read_chunk junk (ch\<lparr>ch_write_buffer := Some b\<rparr>) b))))))"

text \<open>
  \<open>write\<close>: the byte after the chunk is set to NUL, which is outside the array when the chunk
  is full; the result of the system call is not looked at.
\<close>

definition Channel_write :: "(nat \<Rightarrow> char) \<Rightarrow> channel \<Rightarrow> (exn, chan_state) outcome \<times> channel" where
  "Channel_write junk ch =
     (case ch_read_buffer ch of
        None \<Rightarrow> (Returns WRITE_PENDING, ch)
      | Some b \<Rightarrow>
          (case RDONBuffer_read b (fresh junk CHUNK) (word_of_nat CHUNK) of
             Inl f \<Rightarrow> (Faults f, ch)
           | Inr (n, chunk, b') \<Rightarrow>
               (let len = sint (ucast n :: i32); ch = ch\<lparr>ch_read_buffer := Some b'\<rparr> in
                if \<not> len < int CHUNK then (Faults OutOfBounds, ch)
                else
                  (case n_writes (ch_wire ch) of
                     [] \<Rightarrow> (Waits, ch)
                   | w # ws \<Rightarrow>
                       (let ch = ch\<lparr>ch_wire := (ch_wire ch)\<lparr>n_writes := ws,
                              n_sent := n_sent (ch_wire ch) @ take (nat w) (take (nat len) chunk)\<rparr>\<rparr> in
                        if rdon_ready b' then (Returns WRITE_READY, send_unlock ch)
                        else (Returns WRITE_PENDING, ch))))))"

text \<open>\<open>send\<close>, with the poll manager it asks to watch the socket.\<close>

definition Channel_send ::
  "i32 \<Rightarrow> (nat \<Rightarrow> char) \<Rightarrow> bytes \<Rightarrow> size_t \<Rightarrow> channel \<times> pollman \<Rightarrow> (exn, unit) outcome \<times> channel \<times> pollman"
where
  "Channel_send O_NONBLOCK junk msg len s =
     (case s of (ch, p) \<Rightarrow>
       if ch_send_mutex ch then (Waits, ch, p)
       else
         (let ch = ch\<lparr>ch_send_mutex := True\<rparr> in
          if \<not> ch_alive ch then (Returns (), send_unlock ch, p)
          else
            (case SizedRDONBuffer junk msg (ucast len) of
               Inl f \<Rightarrow> (Faults f, ch, p)
             | Inr b \<Rightarrow>
                 (case Channel_write junk (ch\<lparr>ch_read_buffer := Some b\<rparr>) of (r, ch') \<Rightarrow>
                   (case r of
                      Returns st \<Rightarrow>
                        if st \<noteq> WRITE_READY
                        then (case PollManager_watch O_NONBLOCK p (ch_sock ch') WRITE of
                                Inl f \<Rightarrow> (Faults f, ch', p)
                              | Inr p' \<Rightarrow> (Returns (), ch', p'))
                        else (Returns (), send_unlock ch', p)
                    | Throws e \<Rightarrow> (Throws e, ch', p)
                    | Faults f \<Rightarrow> (Faults f, ch', p)
                    | Waits \<Rightarrow> (Waits, ch', p))))))"

definition Channel_send_string ::
  "i32 \<Rightarrow> (nat \<Rightarrow> char) \<Rightarrow> bytes \<Rightarrow> channel \<times> pollman \<Rightarrow> (exn, unit) outcome \<times> channel \<times> pollman" where
  "Channel_send_string O_NONBLOCK junk msg s =
     Channel_send O_NONBLOCK junk (c_str msg) (word_of_nat (length msg)) s"

definition Channel_close :: "channel \<Rightarrow> (exn, unit) outcome \<times> channel" where
  "Channel_close ch =
     (if ch_send_mutex ch then (Waits, ch)
      else (Returns (), ch\<lparr>ch_alive := False,
              ch_wire := (ch_wire ch)\<lparr>n_closed := n_closed (ch_wire ch) @ [ch_sock ch]\<rparr>\<rparr>))"

definition Channel_is_alive :: "channel \<Rightarrow> bool" where
  "Channel_is_alive ch = ch_alive ch"

definition Channel_destroy :: "channel \<Rightarrow> (exn, unit) outcome \<times> channel" where
  "Channel_destroy ch = (if Channel_is_alive ch then Channel_close ch else (Returns (), ch))"

text \<open>
  \<open>get_msg\<close> reads a C string out of an array that ends with the message. \<open>beyond\<close> is what
  lies behind the array: nothing the program may read, by the rules of C++ (the empty list).
\<close>

definition Channel_get_msg :: "bytes \<Rightarrow> channel \<Rightarrow> (exn, bytes) outcome" where
  "Channel_get_msg beyond ch =
     (case ch_write_buffer ch of
        None \<Rightarrow> Returns []
      | Some b \<Rightarrow>
          (case cstring (write_only_str b @ beyond) of
             None \<Rightarrow> Faults OutOfBounds
           | Some msg \<Rightarrow> Returns msg))"

definition Channel_clear_msg :: "channel \<Rightarrow> channel" where
  "Channel_clear_msg ch = ch\<lparr>ch_write_buffer := None, ch_busy := False\<rparr>"

section \<open>Reading a message by callbacks\<close>

text \<open>\<open>k\<close> successive read callbacks and the states they return.\<close>

fun reads_run :: "(nat \<Rightarrow> char) \<Rightarrow> nat \<Rightarrow> channel \<Rightarrow> (exn, chan_state list) outcome \<times> channel" where
  "reads_run junk 0 ch = (Returns [], ch)"
| "reads_run junk (Suc k) ch =
     pbind (Channel_read junk ch) (\<lambda>st ch'.
     pbind (reads_run junk k ch') (\<lambda>sts ch''. (Returns (st # sts), ch'')))"

text \<open>The channel after some callbacks: the buffer, the flag and the reads still to come.\<close>

definition reading :: "channel \<Rightarrow> wron \<Rightarrow> bool \<Rightarrow> rres list \<Rightarrow> channel" where
  "reading ch b busy rs =
     ch\<lparr>ch_write_buffer := Some b, ch_busy := busy, ch_wire := (ch_wire ch)\<lparr>n_reads := rs\<rparr>\<rparr>"

lemma reading_reading [simp]: "reading (reading ch b busy rs) b' busy' rs' = reading ch b' busy' rs'"
  by (simp add: reading_def)

lemma read_reading: "Channel_read junk (reading ch b False rs) = Channel_read_chunk junk (reading ch b False rs) b"
  by (simp add: Channel_read_def reading_def)

lemma read_chunk_data:
  assumes "swron_inv b" "length c \<le> CHUNK"
  shows "\<exists>b'. Channel_read_chunk junk (reading ch b False (RData c # rs)) b =
      (Returns (if unat (wr_size b) \<le> length (contents b @ c) then READ_READY else READ_PENDING),
       reading ch b' (unat (wr_size b) \<le> length (contents b @ c)) rs)
    \<and> swron_inv b' \<and> wr_size b' = wr_size b \<and> contents b' = take (unat (wr_size b)) (contents b @ c)"
proof -
  let ?w = "word_of_nat (length c) :: i32"
  have w: "unat (to_size ?w) = length c"
    using assms(2) by (simp add: unat_to_size sint_word_of_nat32)
  have len: "length (contents b) = unat (wr_pos b)" "unat (wr_pos b) \<le> unat (wr_size b)"
    using length_scontents [OF assms(1)] assms(1) by (auto simp: swron_inv_def word_le_nat_alt)
  obtain n b' where b': "SizedWRONBuffer_write b (overlay c (fresh junk CHUNK)) (to_size ?w) = Inr (n, b')"
      "swron_inv b'" "contents b' = contents b @ take (room b (length c)) (overlay c (fresh junk CHUNK))"
      "wr_size b' = wr_size b"
    using SizedWRONBuffer_write_step [OF assms(1), of "to_size ?w" "overlay c (fresh junk CHUNK)"] w assms(2)
    by auto
  have "take (room b (length c)) (overlay c (fresh junk CHUNK)) = take (unat (wr_size b) - unat (wr_pos b)) c"
    by (simp add: overlay_def room_def min_def)
  then have c: "contents b' = take (unat (wr_size b)) (contents b @ c)"
    using b'(3) len by simp
  have "wron_ready b' \<longleftrightarrow> unat (wr_size b) \<le> length (contents b @ c)"
    using swron_ready_iff [OF b'(2)] b'(4) c by (auto simp: min_def)
  then have "Channel_read_chunk junk (reading ch b False (RData c # rs)) b =
      (Returns (if unat (wr_size b) \<le> length (contents b @ c) then READ_READY else READ_PENDING),
       reading ch b' (unat (wr_size b) \<le> length (contents b @ c)) rs)"
    using b'(1) assms(2) by (simp add: Channel_read_chunk_def reading_def Let_def)
  then show ?thesis
    using b'(2,4) c by blast
qed

lemma reads_pieces:
  assumes "swron_inv b" "list_all (\<lambda>c. length c \<le> CHUNK) cs" "cs \<noteq> []"
    "length (contents b @ concat (butlast cs)) < unat (wr_size b)"
    "unat (wr_size b) \<le> length (contents b @ concat cs)"
  shows "\<exists>b'. reads_run junk (length cs) (reading ch b False (map RData cs @ rs)) =
      (Returns (replicate (length cs - 1) READ_PENDING @ [READ_READY]), reading ch b' True rs)
    \<and> contents b' = take (unat (wr_size b)) (contents b @ concat cs)
    \<and> swron_inv b' \<and> wr_size b' = wr_size b"
  using assms
proof (induction cs arbitrary: b)
  case (Cons c cs)
  obtain b' where b': "Channel_read_chunk junk (reading ch b False (RData c # map RData cs @ rs)) b =
      (Returns (if unat (wr_size b) \<le> length (contents b @ c) then READ_READY else READ_PENDING),
       reading ch b' (unat (wr_size b) \<le> length (contents b @ c)) (map RData cs @ rs))"
      "swron_inv b'" "wr_size b' = wr_size b" "contents b' = take (unat (wr_size b)) (contents b @ c)"
    using read_chunk_data [of b c junk ch "map RData cs @ rs"] Cons.prems by auto
  show ?case
  proof (cases "cs = []")
    case True
    then show ?thesis
      using b' Cons.prems(5) by (intro exI [of _ b']) (simp add: read_reading)
  next
    case False
    then have short: "length (contents b @ c) < unat (wr_size b)"
      using Cons.prems(4) by simp
    then have "contents b' = contents b @ c"
      using b'(4) by simp
    then obtain b'' where "reads_run junk (length cs) (reading ch b' False (map RData cs @ rs)) =
        (Returns (replicate (length cs - 1) READ_PENDING @ [READ_READY]), reading ch b'' True rs)"
        "contents b'' = take (unat (wr_size b)) (contents b @ c @ concat cs)"
        "swron_inv b''" "wr_size b'' = wr_size b"
      using Cons.IH [OF b'(2)] Cons.prems False b'(3) by auto
    moreover have "replicate (length cs) READ_PENDING = READ_PENDING # replicate (length cs - 1) READ_PENDING"
      using False by (cases cs) simp_all
    ultimately show ?thesis
      using b' short by (intro exI [of _ b'']) (simp add: read_reading)
  qed
qed simp

lemma reading_idle:
  "\<not> ch_busy ch \<Longrightarrow>
     ch\<lparr>ch_wire := (ch_wire ch)\<lparr>n_reads := rs\<rparr>, ch_write_buffer := Some b\<rparr> = reading ch b False rs"
  by (cases ch) (simp add: reading_def)

text \<open>The first callback of a message allocates its buffer, then reads on.\<close>

lemma read_header:
  assumes "\<not> ch_busy ch" "ch_write_buffer ch = None" "0 < n" "n < 2 ^ 31"
    "n_reads (ch_wire ch) = RData (int_bytes (word_of_nat n)) # rs"
  shows "\<exists>b. swron_inv b \<and> unat (wr_size b) = n \<and> wr_pos b = 0
    \<and> Channel_read junk ch = Channel_read_chunk junk (reading ch b False rs) b"
proof -
  have "\<not> sint (word_of_nat n :: i32) \<le> 0" "(to_size (word_of_nat n :: i32) :: size_t) = word_of_nat n"
  proof -
    have s: "sint (word_of_nat n :: i32) = int n"
      using assms(4) by (simp add: sint_word_of_nat32)
    then show "\<not> sint (word_of_nat n :: i32) \<le> 0"
      using assms(3) by simp
    have u: "unat (to_size (word_of_nat n :: i32) :: size_t) = n"
      using s by (simp add: unat_to_size)
    show "(to_size (word_of_nat n :: i32) :: size_t) = word_of_nat n"
      by (subst u [symmetric]) simp
  qed
  moreover have "unat (word_of_nat n :: size_t) = n"
    using assms(4) by (intro unat_word_of_nat64) simp
  ultimately show ?thesis
    using assms SizedWRON_new [OF assms(3,4), of junk]
    by (intro exI [of _ "\<lparr>write_only_str = fresh junk n, wr_size = word_of_nat n, wr_pos = 0\<rparr>"])
       (simp add: Channel_read_def sys_read_header Let_def reading_idle)
qed

lemma contents_new_sized: "wr_pos b = 0 \<Longrightarrow> contents b = []"
  by (simp add: contents_def)

lemma reads_message:
  assumes "\<not> ch_busy ch" "ch_write_buffer ch = None" "0 < n" "n < 2 ^ 31"
    "list_all (\<lambda>c. length c \<le> CHUNK) cs" "cs \<noteq> []"
    "length (concat (butlast cs)) < n" "n \<le> length (concat cs)"
    "n_reads (ch_wire ch) = RData (int_bytes (word_of_nat n)) # map RData cs @ rs"
  shows "\<exists>b. reads_run junk (length cs) ch =
      (Returns (replicate (length cs - 1) READ_PENDING @ [READ_READY]), reading ch b True rs)
    \<and> write_only_str b = take n (concat cs)"
proof -
  obtain b where b: "swron_inv b" "unat (wr_size b) = n" "wr_pos b = 0"
      "Channel_read junk ch = Channel_read_chunk junk (reading ch b False (map RData cs @ rs)) b"
    using read_header [OF assms(1-4,9)] by auto
  have "reads_run junk (length cs) ch = reads_run junk (length cs) (reading ch b False (map RData cs @ rs))"
    using assms(6) b(4) by (cases cs) (simp_all add: read_reading)
  then obtain b' where b': "reads_run junk (length cs) ch =
        (Returns (replicate (length cs - 1) READ_PENDING @ [READ_READY]), reading ch b' True rs)"
      "contents b' = take n (concat cs)" "swron_inv b'" "wr_size b' = wr_size b"
    using reads_pieces [OF b(1) assms(5,6), of junk ch rs] contents_new_sized [OF b(3)] b(2) assms(7,8)
    by auto
  have "length (contents b') = n"
    using b'(2) assms(8) by simp
  then have "write_only_str b' = take n (concat cs)"
    using b'(2-4) b(2) by (simp add: contents_def swron_inv_def)
  then show ?thesis
    using b'(1) by blast
qed

section \<open>Properties\<close>

text \<open>
  (C25) A message is put together over any number of read callbacks: every callback but the last
  returns READ_PENDING, the last READ_READY with the channel busy, and the buffer holds
  the first \<open>n\<close> bytes that came. Bytes of the next message that came with the last piece
  have been taken off the socket and are lost.
\<close>
theorem channel_reads_message:
  assumes "\<not> ch_busy ch" "ch_write_buffer ch = None" "0 < n" "n < 2 ^ 31"
    "list_all (\<lambda>c. length c \<le> CHUNK) cs" "cs \<noteq> []"
    "length (concat (butlast cs)) < n" "n \<le> length (concat cs)"
    "n_reads (ch_wire ch) = RData (int_bytes (word_of_nat n)) # map RData cs @ rs"
  shows "\<exists>b ch'. reads_run junk (length cs) ch =
      (Returns (replicate (length cs - 1) READ_PENDING @ [READ_READY]), ch')
    \<and> ch_busy ch' \<and> ch_write_buffer ch' = Some b \<and> write_only_str b = take n (concat cs)
    \<and> n_reads (ch_wire ch') = rs \<and> n_sent (ch_wire ch') = n_sent (ch_wire ch)"
  using reads_message [OF assms] by (fastforce simp: reading_def)

definition sample_channel :: "rres list \<Rightarrow> int list \<Rightarrow> channel" where
  "sample_channel rs ws =
     fst (Channel 2048 (\<lambda>_. None) 5 \<lparr>n_writes = ws, n_reads = rs, n_sent = [], n_closed = []\<rparr>)"

lemma sample_channel_simps [simp]:
  "\<not> ch_busy (sample_channel rs ws)" "ch_write_buffer (sample_channel rs ws) = None"
  "ch_read_buffer (sample_channel rs ws) = None" "ch_alive (sample_channel rs ws)"
  "\<not> ch_send_mutex (sample_channel rs ws)" "ch_bad_unlocks (sample_channel rs ws) = 0"
  "ch_sock (sample_channel rs ws) = 5"
  "ch_wire (sample_channel rs ws) = \<lparr>n_writes = ws, n_reads = rs, n_sent = [], n_closed = []\<rparr>"
  by (simp_all add: sample_channel_def Channel_def)

theorem channel_reads_message_witness:
  "\<exists>b ch'. reads_run (\<lambda>_. NUL) (length [''ab'', ''cdef''])
      (sample_channel (RData (int_bytes (word_of_nat 3)) # map RData [''ab'', ''cdef''] @ []) []) =
      (Returns [READ_PENDING, READ_READY], ch')
    \<and> ch_write_buffer ch' = Some b \<and> write_only_str b = ''abc'' \<and> n_reads (ch_wire ch') = []"
  using channel_reads_message [of "sample_channel (RData (int_bytes (word_of_nat 3)) # map RData [''ab'', ''cdef''] @ []) []"
      3 "[''ab'', ''cdef'']" "[]" "\<lambda>_. NUL"]
  by (simp del: reads_run.simps) blast

text \<open>
  A read with nothing there yet (-1, the socket is non-blocking) is taken for data: right
  after the length of a message of up to 1024 bytes the message is declared complete, and it
  consists of whatever the uninitialised chunk held; for a longer one, or in the middle of
  a message, the copy leaves the chunk.
\<close>
theorem eagain_is_taken_for_data:
  assumes "\<not> ch_busy ch" "ch_write_buffer ch = None" "0 < n" "n < 2 ^ 31"
    "n_reads (ch_wire ch) = RData (int_bytes (word_of_nat n)) # RErr # rs"
  shows "if n \<le> CHUNK
    then \<exists>b ch'. Channel_read junk ch = (Returns READ_READY, ch') \<and> ch_write_buffer ch' = Some b
       \<and> write_only_str b = fresh junk n \<and> n_reads (ch_wire ch') = rs
    else \<exists>ch'. Channel_read junk ch = (Faults OutOfBounds, ch')"
proof -
  have len: "unat (to_size (-1 :: i32) :: size_t) = 2 ^ 64 - 1"
  proof -
    have "(to_size (-1 :: i32) :: size_t) = -1"
      by (rule bit_word_eqI) (simp add: bit_simps)
    then show ?thesis
      by (simp add: unsigned_minus_1_eq_mask mask_eq_exp_minus_1)
  qed
  obtain b where b: "swron_inv b" "unat (wr_size b) = n" "wr_pos b = 0"
      "Channel_read junk ch = Channel_read_chunk junk (reading ch b False (RErr # rs)) b"
    using read_header [OF assms] by auto
  have pos: "wr_pos b \<noteq> wr_size b" "wr_size b < 0 + to_size (-1 :: i32)"
    using b(2,3) assms(3,4) len by (auto simp: word_less_nat_alt)
  have arr: "length (write_only_str b) = n"
    using b(1,2) by (simp add: swron_inv_def)
  show ?thesis
  proof (cases "n \<le> CHUNK")
    case True
    let ?b = "b\<lparr>write_only_str := fresh junk n, wr_pos := wr_size b\<rparr>"
    have "take n (fresh junk CHUNK) = fresh junk n"
      using True by (simp add: fresh_def take_map)
    then have "SizedWRONBuffer_write b (fresh junk CHUNK) (to_size (-1 :: i32)) = Inr (wr_size b, ?b)"
      using pos b(2,3) arr True by (simp add: SizedWRONBuffer_write_def Let_def memcpy_Inr)
    then have "Channel_read junk ch = (Returns READ_READY, reading ch ?b True rs)"
      using b(4) by (simp add: Channel_read_chunk_def reading_def Let_def wron_ready_def)
    then show ?thesis
      using True by (auto simp: reading_def)
  next
    case False
    then have "SizedWRONBuffer_write b (fresh junk CHUNK) (to_size (-1 :: i32)) = Inl OutOfBounds"
      using pos b(2,3) by (simp add: SizedWRONBuffer_write_def Let_def memcpy_Inl)
    then show ?thesis
      using b(4) False by (simp add: Channel_read_chunk_def reading_def Let_def)
  qed
qed

theorem eagain_is_taken_for_data_witness:
  "\<exists>b ch'. Channel_read (\<lambda>_. CHR ''?'')
      (sample_channel (RData (int_bytes (word_of_nat 3)) # RErr # []) []) = (Returns READ_READY, ch')
    \<and> ch_write_buffer ch' = Some b \<and> write_only_str b = fresh (\<lambda>_. CHR ''?'') 3"
  using eagain_is_taken_for_data [of "sample_channel (RData (int_bytes (word_of_nat 3)) # RErr # []) []"
      3 "[]" "\<lambda>_. CHR ''?''"]
  by auto

text \<open>
  A client that closes its connection inside a message is never dropped: every read
  callback that finds end of file returns READ_PENDING, never CLOSED, and changes nothing
  but the socket, so that \<open>select\<close> reports the descriptor again and again.
\<close>
theorem channel_misses_eof:
  assumes "swron_inv b" "length (contents b) < unat (wr_size b)" "ch_write_buffer ch = Some b"
    "\<not> ch_busy ch" "n_reads (ch_wire ch) = replicate k (RData []) @ rs"
  shows "\<exists>b'. reads_run junk k ch = (Returns (replicate k READ_PENDING), reading ch b' False rs)
    \<and> contents b' = contents b \<and> wr_size b' = wr_size b"
proof -
  have "\<exists>b'. reads_run junk k (reading ch b False (replicate k (RData []) @ rs))
      = (Returns (replicate k READ_PENDING), reading ch b' False rs)
      \<and> contents b' = contents b \<and> wr_size b' = wr_size b"
    using assms(1,2)
  proof (induction k arbitrary: b)
    case (Suc k)
    obtain b' where b': "Channel_read_chunk junk (reading ch b False (RData [] # replicate k (RData []) @ rs)) b =
        (Returns READ_PENDING, reading ch b' False (replicate k (RData []) @ rs))"
        "swron_inv b'" "wr_size b' = wr_size b" "contents b' = contents b"
      using read_chunk_data [OF Suc.prems(1), of "[]" junk ch "replicate k (RData []) @ rs"] Suc.prems(2)
      by auto
    then show ?case
      using Suc.IH [OF b'(2)] Suc.prems(2) by (auto simp: read_reading)
  qed auto
  moreover have "reading ch b False (replicate k (RData []) @ rs) = ch"
    using assms(3-5) by (cases ch) (simp add: reading_def)
  ultimately show ?thesis
    by simp
qed

definition half_message :: wron where
  "half_message = \<lparr>write_only_str = ''abcd'', wr_size = 4, wr_pos = 2\<rparr>"

definition sample_eof :: "nat \<Rightarrow> channel" where
  "sample_eof k = reading (sample_channel [] []) half_message False (replicate k (RData []))"

theorem channel_misses_eof_witness:
  "\<forall>k. \<exists>b'. reads_run (\<lambda>_. NUL) k (sample_eof k) = (Returns (replicate k READ_PENDING), reading (sample_eof k) b' False [])"
proof
  fix k
  show "\<exists>b'. reads_run (\<lambda>_. NUL) k (sample_eof k) = (Returns (replicate k READ_PENDING), reading (sample_eof k) b' False [])"
    using channel_misses_eof [where b = half_message and ch = "sample_eof k" and k = k and rs = "[]" and junk = "\<lambda>_. NUL"]
    by (auto simp: sample_eof_def half_message_def swron_inv_def contents_def reading_def)
qed

lemma send_string:
  assumes "ch_alive ch" "\<not> ch_send_mutex ch" "msg \<noteq> []" "length msg < 2 ^ 31"
    "n_writes (ch_wire ch) = w # ws"
  shows "if length (frame msg) < 1024
    then \<exists>b. Channel_send_string nb junk msg (ch, p) =
      (Returns (), ch\<lparr>ch_read_buffer := Some b,
         ch_wire := (ch_wire ch)\<lparr>n_writes := ws, n_sent := n_sent (ch_wire ch) @ take (nat w) (frame msg)\<rparr>,
         ch_send_mutex := False, ch_bad_unlocks := ch_bad_unlocks ch + 1\<rparr>, p)
    else \<exists>ch'. Channel_send_string nb junk msg (ch, p) = (Faults OutOfBounds, ch', p)
      \<and> n_sent (ch_wire ch') = n_sent (ch_wire ch)"
proof -
  obtain b where b: "SizedRDONBuffer junk (c_str msg) (size_as_int msg) = Inr b" "rdon_inv b"
      "unread b = frame msg"
    by (rule SizedRDONBuffer_frame [OF assms(3,4)])
  have narrow: "(ucast (word_of_nat (length msg) :: size_t) :: i32) = size_as_int msg"
    using assms(4) by (simp add: size_as_int_def unsigned_of_nat take_bit_nat_eq_self)
  obtain b' where b': "RDONBuffer_read b (fresh junk CHUNK) 1024 =
      Inr (word_of_nat (length (take CHUNK (frame msg))), overlay (take CHUNK (frame msg)) (fresh junk CHUNK), b')"
      "rdon_inv b'" "unread b' = drop CHUNK (frame msg)"
    using rd.read_chunk [OF b(2), of "fresh junk CHUNK"] b(3) by auto
  have len: "sint (ucast (word_of_nat (length (take CHUNK (frame msg))) :: size_t) :: i32)
      = int (length (take CHUNK (frame msg)))"
    by (rule int_len) simp
  have ready: "rdon_ready b' \<longleftrightarrow> length (frame msg) \<le> CHUNK"
    using length_unread [OF b'(2)] b'(2,3)
    by (auto simp: rdon_ready_def rdon_inv_def word_le_nat_alt word_unat_eq_iff)
  show ?thesis
  proof (cases "length (frame msg) < 1024")
    case True
    then have whole: "take CHUNK (frame msg) = frame msg"
      by simp
    have cut: "take (min k (length (frame msg))) (overlay (frame msg) (fresh junk CHUNK)) = take k (frame msg)" for k
      by (simp add: overlay_def min_def)
    show ?thesis
      using True assms(1,2,5) b(1) b'(1) ready len [unfolded whole]
      by (auto simp add: Channel_send_string_def Channel_send_def Channel_write_def Let_def narrow whole
          send_unlock_def cut)
  next
    case False
    then have "length (take CHUNK (frame msg)) = CHUNK"
      by simp
    then show ?thesis
      using False assms(1,2) b(1) b'(1) len
      by (simp add: Channel_send_string_def Channel_send_def Channel_write_def Let_def narrow)
  qed
qed

text \<open>
  What \<open>send\<close> does with a message, on a live channel that is not sending: it gives
  the kernel the whole frame in one \<open>write\<close>, takes any result of it for success (a short
  write cuts the reply off, an error drops it), and unlocks its mutex twice; a frame of 1024
  bytes or more makes it write outside the chunk before anything is sent. So the state in which the
  manager has to watch for writing is never reached.
\<close>
theorem channel_send_outcome:
  assumes "ch_alive ch" "\<not> ch_send_mutex ch" "msg \<noteq> []" "length msg < 2 ^ 31"
    "n_writes (ch_wire ch) = w # ws"
  shows "case Channel_send_string nb junk msg (ch, p) of (r, ch', p') \<Rightarrow>
    p' = p \<and>
    (if length (frame msg) < 1024
     then r = Returns () \<and> n_sent (ch_wire ch') = n_sent (ch_wire ch) @ take (nat w) (frame msg)
       \<and> \<not> ch_send_mutex ch' \<and> ch_bad_unlocks ch' = ch_bad_unlocks ch + 1
     else r = Faults OutOfBounds \<and> n_sent (ch_wire ch') = n_sent (ch_wire ch))"
  using send_string [OF assms, of nb junk p] by (auto split: prod.split)

theorem channel_send_outcome_witness:
  "case Channel_send_string 2048 (\<lambda>_. NUL) ''{}'' (sample_channel [] [6], PollManager (\<lambda>_. None)) of
     (r, ch', p') \<Rightarrow> r = Returns () \<and> n_sent (ch_wire ch') = take 6 (frame ''{}'') \<and> ch_bad_unlocks ch' = 1"
  using channel_send_outcome [where ch = "sample_channel [] [6]" and msg = "''{}''" and w = 6 and ws = "[]"
      and nb = 2048 and junk = "\<lambda>_. NUL" and p = "PollManager (\<lambda>_. None)"]
  by (auto simp: frame_def)

text \<open>
  \<open>get_msg\<close> reads outside the message: the buffer ends with its last byte, so that a message
  without NUL is followed by whatever lies behind the array, up to the first NUL there;
  by the rules of C++ that is a fault, and only a NUL right behind the array gives the message.
\<close>
theorem get_msg_reads_beyond:
  assumes "ch_write_buffer ch = Some b" "write_only_str b = msg" "NUL \<notin> set msg"
  shows "Channel_get_msg [] ch = Faults OutOfBounds
    \<and> Channel_get_msg beyond ch =
        (case cstring beyond of None \<Rightarrow> Faults OutOfBounds | Some tail \<Rightarrow> Returns (msg @ tail))
    \<and> (Channel_get_msg beyond ch = Returns msg \<longleftrightarrow> (\<exists>cs. beyond = NUL # cs))"
proof -
  have "cstring beyond = Some [] \<longleftrightarrow> (\<exists>cs. beyond = NUL # cs)"
    by (cases beyond) auto
  moreover have "cstring (write_only_str b) = None"
    using assms(2,3) by (simp add: cstring_None_iff)
  ultimately show ?thesis
    using assms by (auto simp: Channel_get_msg_def cstring_append split: option.split)
qed

theorem get_msg_reads_beyond_witness:
  "Channel_get_msg [] (reading (sample_channel [] [])
      \<lparr>write_only_str = ''{}'', wr_size = 2, wr_pos = 2\<rparr> True []) = Faults OutOfBounds"
  using get_msg_reads_beyond [of "reading (sample_channel [] []) \<lparr>write_only_str = ''{}'', wr_size = 2, wr_pos = 2\<rparr> True []"
      "\<lparr>write_only_str = ''{}'', wr_size = 2, wr_pos = 2\<rparr>" "''{}''" "[]"]
  by (simp add: reading_def NUL_def)

end
