(* ===== verification/PollServer.thy ===== *)
theory PollServer
  imports Sconn Channel "HOL-Library.AList"
begin

text \<open>
  pollserver.hpp and pollserver.cpp, \<open>PollServer\<close>: one thread polls all the descriptors and
  runs the callbacks of the channels; a pool of threads runs the requests, each job holding
  a \<open>Channel*\<close>. Channels live in a heap, so that a deleted one is noticed when it is used.
  \<open>ThreadPool\<close> belongs to another library: here every job that was added may take a step.
\<close>

section \<open>State\<close>

datatype poll_pc =
    PollIdle                           \<comment> \<open>the thread is not started\<close>
  | PollHead                           \<comment> \<open>before the test of \<open>while\<close>\<close>
  | PollReads "int list" "int list"
  | PollWrites "int list"
  | PollEnd
  | PollDead fault

text \<open>A job of \<open>\_handle\_request\<close>: where it is, with its channel.\<close>

datatype job =
    JQueued nat
  | JMessage nat bytes                 \<comment> \<open>after \<open>clear\_msg\<close>\<close>
  | JReply nat bytes                   \<comment> \<open>before \<open>chan->send\<close>\<close>
  | JDone
  | JEscaped exn                       \<comment> \<open>no ServerException: handed to the pool\<close>

record ('h, 'v) pollserver = "'h sconn" +
  ps_stop :: bool
  ps_channels :: "(int \<times> nat) list"
  ps_heap :: "nat \<rightharpoonup> channel"
  ps_next :: nat                       \<comment> \<open>the next address \<open>new\<close> gives\<close>
  ps_pm :: pollman
  ps_pc :: poll_pc
  ps_jobs :: "job list"
  ps_service :: 'v

definition PollServer :: "string \<Rightarrow> int \<Rightarrow> (int \<rightharpoonup> i32) \<Rightarrow> 'v \<Rightarrow> (exn, ('h, 'v) pollserver) outcome" where
  "PollServer port r fds sv =
     obind (ServerConnector port r) (\<lambda>c. Returns (sconn.extend c
       \<lparr>ps_stop = False, ps_channels = [], ps_heap = Map.empty, ps_next = 0,
        ps_pm = PollManager fds, ps_pc = PollIdle, ps_jobs = [], ps_service = sv\<rparr>))"

definition PollServer_start ::
  "i32 \<Rightarrow> int \<times> int \<times> int \<Rightarrow> ('h, 'v) pollserver \<Rightarrow> (exn, int) outcome \<times> ('h, 'v) pollserver \<times> lcall list"
where
  "PollServer_start O_NONBLOCK k s =
     (case ServerConnector_listen k s of (r, s', log) \<Rightarrow>
       (case r of
          Returns _ \<Rightarrow>
            (case PollManager_watch O_NONBLOCK (ps_pm s') (sc_sock s') READ of
               Inl f \<Rightarrow> (Faults f, s', log)
             | Inr p \<Rightarrow> (Returns 0, s'\<lparr>ps_pm := p, ps_pc := PollHead\<rparr>, log))
        | Throws e \<Rightarrow> (Throws e, s', log)
        | Faults f \<Rightarrow> (Faults f, s', log)
        | Waits \<Rightarrow> (Waits, s', log)))"

section \<open>The polling thread\<close>

text \<open>The next descriptor of a list, or what follows the list.\<close>

definition put_channel :: "nat \<Rightarrow> channel \<Rightarrow> ('h, 'v) pollserver \<Rightarrow> ('h, 'v) pollserver" where
  "put_channel a ch s = s\<lparr>ps_heap := (ps_heap s)(a \<mapsto> ch)\<rparr>"

definition dies :: "fault \<Rightarrow> ('h, 'v) pollserver \<Rightarrow> ('h, 'v) pollserver" where
  "dies f s = s\<lparr>ps_pc := PollDead f\<rparr>"

text \<open>
  The remote client is gone: close the channel, stop watching its descriptor, delete it. The
  destructor finds the channel not alive.
\<close>

definition drop_channel :: "int \<Rightarrow> nat \<Rightarrow> channel \<Rightarrow> ('h, 'v) pollserver \<Rightarrow> ('h, 'v) pollserver option" where
  "drop_channel fd a ch s =
     (case Channel_close ch of
        (Returns _, ch') \<Rightarrow>
          (case PollManager_unwatch (ps_pm s) fd READ of
             Inl f \<Rightarrow> Some (dies f (put_channel a ch' s))
           | Inr p \<Rightarrow>
               (case PollManager_unwatch p fd WRITE of
                  Inl f \<Rightarrow> Some (dies f (put_channel a ch' s))
                | Inr p' \<Rightarrow>
                    (case Channel_destroy ch' of
                       (Returns _, ch'') \<Rightarrow>
                         Some (s\<lparr>ps_pm := p', ps_heap := (ps_heap s)(a := None),
                                 ps_channels := AList.delete fd (ps_channels s)\<rparr>)
                     | _ \<Rightarrow> None)))
      | _ \<Rightarrow> None)"

definition add_job :: "nat \<Rightarrow> ('h, 'v) pollserver \<Rightarrow> ('h, 'v) pollserver" where
  "add_job a s = s\<lparr>ps_jobs := ps_jobs s @ [JQueued a]\<rparr>"

text \<open>What the loop does for one readable descriptor of a channel.\<close>

definition read_callback :: "(nat \<Rightarrow> char) \<Rightarrow> int \<Rightarrow> ('h, 'v) pollserver \<Rightarrow> ('h, 'v) pollserver option" where
  "read_callback junk fd s =
     (case map_of (ps_channels s) fd of
        None \<Rightarrow> Some s
      | Some a \<Rightarrow>
          (case ps_heap s a of
             None \<Rightarrow> Some (dies UseAfterFree s)
           | Some ch \<Rightarrow>
               (case Channel_read junk ch of (r, ch') \<Rightarrow>
                 (case r of
                    Returns state \<Rightarrow>
                      (if state = READ_READY then Some (add_job a (put_channel a ch' s))
                       else if state = CLOSED \<or> state = BROKEN
                       then drop_channel fd a ch' (put_channel a ch' s)
                       else Some (put_channel a ch' s))
                  | Throws e \<Rightarrow> Some (dies Terminate s)
                  | Faults f \<Rightarrow> Some (dies f s)
                  | Waits \<Rightarrow> None))))"

text \<open>A new connection; \<open>-1\<close> from \<open>accept\<close> is fatal.\<close>

definition accept_channel :: "i32 \<Rightarrow> int \<Rightarrow> ('h, 'v) pollserver \<Rightarrow> ('h, 'v) pollserver" where
  "accept_channel O_NONBLOCK new_sock s =
     (if new_sock = -1 then dies FatalLog s
      else
        (case PollManager_watch O_NONBLOCK (ps_pm s) new_sock READ of
           Inl f \<Rightarrow> dies f s
         | Inr p \<Rightarrow>
             (case Channel O_NONBLOCK (pm_flags p) new_sock
                     \<lparr>n_writes = [], n_reads = [], n_sent = [], n_closed = []\<rparr> of (ch, fds) \<Rightarrow>
               s\<lparr>ps_pm := p\<lparr>pm_flags := fds\<rparr>, ps_heap := (ps_heap s)(ps_next s \<mapsto> ch),
                 ps_channels := AList.update new_sock (ps_next s) (ps_channels s),
                 ps_next := ps_next s + 1\<rparr>)))"

definition write_callback :: "(nat \<Rightarrow> char) \<Rightarrow> int \<Rightarrow> ('h, 'v) pollserver \<Rightarrow> ('h, 'v) pollserver option" where
  "write_callback junk fd s =
     (case map_of (ps_channels s) fd of
        None \<Rightarrow> Some s
      | Some a \<Rightarrow>
          (case ps_heap s a of
             None \<Rightarrow> Some (dies UseAfterFree s)
           | Some ch \<Rightarrow>
               (case Channel_write junk ch of (r, ch') \<Rightarrow>
                 (case r of
                    Returns state \<Rightarrow>
                      (if state = WRITE_READY
                       then (case PollManager_unwatch (ps_pm s) fd WRITE of
                               Inl f \<Rightarrow> Some (dies f (put_channel a ch' s))
                             | Inr p \<Rightarrow> Some ((put_channel a ch' s)\<lparr>ps_pm := p\<rparr>))
                       else Some (put_channel a ch' s))
                  | Throws e \<Rightarrow> Some (dies Terminate s)
                  | Faults f \<Rightarrow> Some (dies f s)
                  | Waits \<Rightarrow> None))))"

text \<open>The program counter goes on, unless the step has ended the process.\<close>

definition go_on :: "poll_pc \<Rightarrow> ('h, 'v) pollserver \<Rightarrow> ('h, 'v) pollserver" where
  "go_on pc s = (case ps_pc s of PollDead f \<Rightarrow> s | _ \<Rightarrow> s\<lparr>ps_pc := pc\<rparr>)"

text \<open>
  One step of \<open>loop\<close>; \<open>polled\<close> is what \<open>poll\<close> puts in the two vectors (its result is
  dropped) and \<open>new_sock\<close> what \<open>accept\<close> returns, if they are called.
\<close>

definition poll_step ::
  "i32 \<Rightarrow> (nat \<Rightarrow> char) \<Rightarrow> int list \<times> int list \<Rightarrow> int \<Rightarrow> ('h, 'v) pollserver \<Rightarrow> ('h, 'v) pollserver option"
where
  "poll_step O_NONBLOCK junk polled new_sock s =
     (case ps_pc s of
        PollHead \<Rightarrow>
          Some (s\<lparr>ps_pc := if ps_stop s then PollEnd else PollReads (fst polled) (snd polled)\<rparr>)
      | PollReads [] ws \<Rightarrow> Some (s\<lparr>ps_pc := PollWrites ws\<rparr>)
      | PollReads (fd # fds) ws \<Rightarrow>
          (if fd \<noteq> sc_sock s then map_option (go_on (PollReads fds ws)) (read_callback junk fd s)
           else Some (go_on (PollReads fds ws) (accept_channel O_NONBLOCK new_sock s)))
      | PollWrites [] \<Rightarrow> Some (s\<lparr>ps_pc := PollHead\<rparr>)
      | PollWrites (fd # fds) \<Rightarrow> map_option (go_on (PollWrites fds)) (write_callback junk fd s)
      | _ \<Rightarrow> None)"

section \<open>The jobs\<close>

text \<open>One step of \<open>_handle_request\<close>: the job it becomes, and the server.\<close>

definition job_step ::
  "'j jconer \<Rightarrow> ('v \<times> 'j request \<Rightarrow> (exn, int) outcome \<times> 'v \<times> 'j request) \<Rightarrow> i32 \<Rightarrow> (nat \<Rightarrow> char) \<Rightarrow>
   bytes \<Rightarrow> job \<Rightarrow> ('h, 'v) pollserver \<Rightarrow> (job \<times> ('h, 'v) pollserver) option" where
  "job_step J serve O_NONBLOCK junk beyond j s =
     (case j of
        JQueued a \<Rightarrow>
          (case ps_heap s a of
             None \<Rightarrow> Some (j, dies UseAfterFree s)
           | Some ch \<Rightarrow>
               (case Channel_get_msg beyond ch of
                  Returns msg \<Rightarrow> Some (JMessage a msg, put_channel a (Channel_clear_msg ch) s)
                | Throws e \<Rightarrow> Some (JEscaped e, s)
                | Faults f \<Rightarrow> Some (j, dies f s)
                | Waits \<Rightarrow> None))
      | JMessage a msg \<Rightarrow>
          (case serve_message J serve (ps_service s) msg of (r, sv) \<Rightarrow>
            (case r of
               Returns p \<Rightarrow> Some (JReply a (build_response J p), s\<lparr>ps_service := sv\<rparr>)
             | Throws (Server e) \<Rightarrow> Some (JReply a (build_error J (get_code e)), s\<lparr>ps_service := sv\<rparr>)
             | Throws e \<Rightarrow> Some (JEscaped e, s\<lparr>ps_service := sv\<rparr>)
             | Faults f \<Rightarrow> Some (j, dies f s)
             | Waits \<Rightarrow> None))
      | JReply a reply \<Rightarrow>
          (case ps_heap s a of
             None \<Rightarrow> Some (j, dies UseAfterFree s)
           | Some ch \<Rightarrow>
               (case Channel_send_string O_NONBLOCK junk reply (ch, ps_pm s) of (r, ch', p) \<Rightarrow>
                 (case r of
                    Returns _ \<Rightarrow> Some (JDone, (put_channel a ch' s)\<lparr>ps_pm := p\<rparr>)
                  | Throws e \<Rightarrow> Some (JEscaped e, put_channel a ch' s)
                  | Faults f \<Rightarrow> Some (j, dies f (put_channel a ch' s))
                  | Waits \<Rightarrow> None)))
      | _ \<Rightarrow> None)"

text \<open>The \<open>i\<close>-th job takes a step.\<close>

definition pool_step ::
  "'j jconer \<Rightarrow> ('v \<times> 'j request \<Rightarrow> (exn, int) outcome \<times> 'v \<times> 'j request) \<Rightarrow> i32 \<Rightarrow> (nat \<Rightarrow> char) \<Rightarrow>
   bytes \<Rightarrow> nat \<Rightarrow> ('h, 'v) pollserver \<Rightarrow> ('h, 'v) pollserver option" where
  "pool_step J serve O_NONBLOCK junk beyond i s =
     (if i < length (ps_jobs s)
      then map_option (\<lambda>(j, s'). s'\<lparr>ps_jobs := (ps_jobs s')[i := j]\<rparr>)
             (job_step J serve O_NONBLOCK junk beyond (ps_jobs s ! i) s)
      else None)"

section \<open>Stopping\<close>

text \<open>
  \<open>_close_channels\<close> closes the channels that are alive and forgets them all: it neither
  deletes them nor stops watching them. \<open>stop\<close> does not wait for the thread.
\<close>

fun close_all :: "nat list \<Rightarrow> (nat \<rightharpoonup> channel) \<Rightarrow> (exn, unit) outcome \<times> (nat \<rightharpoonup> channel)" where
  "close_all [] heap = (Returns (), heap)"
| "close_all (a # as) heap =
     (case heap a of
        None \<Rightarrow> (Faults UseAfterFree, heap)
      | Some ch \<Rightarrow>
          (if Channel_is_alive ch
           then pbind (case Channel_close ch of (r, ch') \<Rightarrow> (r, heap(a \<mapsto> ch')))
                  (\<lambda>_ heap'. close_all as heap')
           else close_all as heap))"

definition PollServer_stop :: "('h, 'v) pollserver \<Rightarrow> (exn, int) outcome \<times> ('h, 'v) pollserver" where
  "PollServer_stop s =
     pbind (case close_all (map snd (ps_channels s)) (ps_heap s) of (r, heap) \<Rightarrow> (r, s\<lparr>ps_heap := heap\<rparr>))
       (\<lambda>_ s. (Returns 0, s\<lparr>ps_channels := [], ps_stop := True\<rparr>))"

definition PollServer_destroy :: "('h, 'v) pollserver \<Rightarrow> (exn, int) outcome \<times> ('h, 'v) pollserver" where
  "PollServer_destroy s = (if ps_stop s = False then PollServer_stop s else (Returns 0, s))"

section \<open>Steps\<close>

definition is_poll_dead :: "poll_pc \<Rightarrow> bool" where
  "is_poll_dead pc = (case pc of PollDead f \<Rightarrow> True | _ \<Rightarrow> False)"

text \<open>More data for a channel, and results for its writes.\<close>

definition poll_deliver :: "nat \<Rightarrow> rres list \<Rightarrow> int list \<Rightarrow> ('h, 'v) pollserver \<Rightarrow> ('h, 'v) pollserver" where
  "poll_deliver a rs ws s =
     (case ps_heap s a of
        None \<Rightarrow> s
      | Some ch \<Rightarrow> put_channel a (ch\<lparr>ch_wire := (ch_wire ch)\<lparr>n_reads := n_reads (ch_wire ch) @ rs,
                    n_writes := n_writes (ch_wire ch) @ ws\<rparr>\<rparr>) s)"

text \<open>
  The kernel gives \<open>accept\<close> a descriptor that is not in use. The polled descriptors are
  arbitrary: nothing below relies on what \<open>select\<close> reports.
\<close>

inductive srv_moves ::
  "'j jconer \<Rightarrow> ('v \<times> 'j request \<Rightarrow> (exn, int) outcome \<times> 'v \<times> 'j request) \<Rightarrow> i32 \<Rightarrow> (nat \<Rightarrow> char) \<Rightarrow>
   ('h, 'v) pollserver \<Rightarrow> ('h, 'v) pollserver \<Rightarrow> bool"
  for J serve nb junk where
  poll: "poll_step nb junk polled new_sock s = Some t \<Longrightarrow>
    new_sock \<notin> insert (sc_sock s) (fst ` set (ps_channels s)) \<Longrightarrow> srv_moves J serve nb junk s t"
| pool: "\<not> is_poll_dead (ps_pc s) \<Longrightarrow> pool_step J serve nb junk beyond i s = Some t \<Longrightarrow>
    srv_moves J serve nb junk s t"
| kernel: "srv_moves J serve nb junk s (poll_deliver a rs ws s)"

inductive_cases srv_movesE: "srv_moves J serve nb junk s t"

abbreviation srv_runs where "srv_runs J serve nb junk \<equiv> (srv_moves J serve nb junk)\<^sup>*\<^sup>*"

text \<open>A server whose \<open>start\<close> has succeeded.\<close>

definition polling :: "i32 \<Rightarrow> ('h, 'v) pollserver \<Rightarrow> bool" where
  "polling nb s \<longleftrightarrow> ps_pc s = PollHead \<and> \<not> ps_stop s \<and> ps_channels s = [] \<and> ps_heap s = Map.empty
     \<and> ps_jobs s = [] \<and> pm_inv (ps_pm s) \<and> pm_watched (ps_pm s) READ = {sc_sock s}
     \<and> pm_watched (ps_pm s) WRITE = {} \<and> fd_ok (sc_sock s)"

section \<open>The invariant\<close>

text \<open>
  Every channel of the table is in the heap, at an address of its own, alive, not in the
  middle of a \<open>send\<close> and for its descriptor; just these descriptors and the listening one are watched.
\<close>

definition chan_ok :: "int \<Rightarrow> channel \<Rightarrow> bool" where
  "chan_ok fd ch \<longleftrightarrow> ch_sock ch = fd \<and> ch_alive ch \<and> \<not> ch_send_mutex ch \<and> n_closed (ch_wire ch) = []"

definition table_inv :: "('h, 'v) pollserver \<Rightarrow> bool" where
  "table_inv s \<longleftrightarrow> distinct (map fst (ps_channels s)) \<and> distinct (map snd (ps_channels s))
     \<and> (\<forall>(fd, a) \<in> set (ps_channels s). fd_ok fd \<and> a < ps_next s \<and> (\<exists>ch. ps_heap s a = Some ch \<and> chan_ok fd ch))
     \<and> dom (ps_heap s) = snd ` set (ps_channels s)
     \<and> sc_sock s \<notin> fst ` set (ps_channels s)"

definition watch_inv :: "('h, 'v) pollserver \<Rightarrow> bool" where
  "watch_inv s \<longleftrightarrow> pm_inv (ps_pm s) \<and> pm_watched (ps_pm s) WRITE = {}
     \<and> pm_watched (ps_pm s) READ = insert (sc_sock s) (fst ` set (ps_channels s))"

definition poll_inv :: "('h, 'v) pollserver \<Rightarrow> bool" where
  "poll_inv s \<longleftrightarrow> is_poll_dead (ps_pc s) \<or> table_inv s \<and> watch_inv s"

section \<open>Channels under the operations\<close>

lemma read_chunk_ok: "Channel_read_chunk junk ch b = (r, ch') \<Longrightarrow> chan_ok fd ch \<Longrightarrow> chan_ok fd ch'"
  by (auto simp: Channel_read_chunk_def chan_ok_def Let_def split: list.splits prod.splits sum.splits if_splits)

lemma read_ok: "Channel_read junk ch = (r, ch') \<Longrightarrow> chan_ok fd ch \<Longrightarrow> chan_ok fd ch'"
  by (auto simp: Channel_read_def Let_def chan_ok_def
      dest!: read_chunk_ok [where fd = fd] split: if_splits option.splits list.splits prod.splits sum.splits)

lemma write_ok: "Channel_write junk ch = (r, ch') \<Longrightarrow> chan_ok fd ch \<Longrightarrow> chan_ok fd ch'"
  by (auto simp: Channel_write_def chan_ok_def send_unlock_def Let_def
      split: list.splits prod.splits sum.splits if_splits option.splits)

lemma sized_pos: "SizedRDONBuffer junk str n = Inr b \<Longrightarrow> rd_pos b = 0"
  by (auto simp: SizedRDONBuffer_def RDONBuffer_def Let_def split: sum.splits if_splits)

text \<open>A write that starts at the beginning of its buffer ends it, or faults.\<close>

lemma write_first:
  assumes "ch_read_buffer ch = Some b" "rd_pos b = 0" "Channel_write junk ch = (Returns st, ch')"
  shows "st = WRITE_READY \<and> ch_sock ch' = ch_sock ch \<and> ch_alive ch' = ch_alive ch
    \<and> \<not> ch_send_mutex ch' \<and> n_closed (ch_wire ch') = n_closed (ch_wire ch)"
proof -
  let ?n = "if rd_size b < 1024 then rd_size b else 1024"
  have thousand: "sint (ucast (1024 :: size_t) :: i32) = 1024"
    using int_len [of CHUNK] by simp
  obtain n chunk b' where rd: "RDONBuffer_read b (fresh junk CHUNK) 1024 = Inr (n, chunk, b')"
    using assms(1,3) by (auto simp: Channel_write_def split: sum.splits)
  then have "n = ?n" "rd_pos b' = ?n" "rd_size b' = rd_size b"
    using assms(2) by (auto simp: RDONBuffer_read_def Let_def split: if_splits sum.splits)
  then show ?thesis
    using assms(1,3) rd thousand
    by (auto simp: Channel_write_def Let_def rdon_ready_def send_unlock_def split: if_splits list.splits)
qed

lemma send_ok:
  assumes "Channel_send_string nb junk msg (ch, p) = (Returns u, ch', p')" "chan_ok fd ch"
  shows "chan_ok fd ch' \<and> p' = p"
proof -
  let ?ch = "ch\<lparr>ch_send_mutex := True\<rparr>"
  obtain b where b: "SizedRDONBuffer junk (c_str msg) (ucast (word_of_nat (length msg) :: size_t)) = Inr b"
    using assms by (auto simp: Channel_send_string_def Channel_send_def Let_def chan_ok_def split: sum.splits)
  obtain r ch1 where w: "Channel_write junk (?ch\<lparr>ch_read_buffer := Some b\<rparr>) = (r, ch1)"
    by (cases "Channel_write junk (?ch\<lparr>ch_read_buffer := Some b\<rparr>)")
  then obtain st where st: "r = Returns st"
    using assms b
    by (cases r) (auto simp: Channel_send_string_def Channel_send_def Let_def chan_ok_def)
  have "st = WRITE_READY \<and> ch_sock ch1 = ch_sock ch \<and> ch_alive ch1 = ch_alive ch
      \<and> \<not> ch_send_mutex ch1 \<and> n_closed (ch_wire ch1) = n_closed (ch_wire ch)"
    using write_first [OF _ sized_pos [OF b] w [unfolded st]] by simp
  then show ?thesis
    using assms b w st
    by (auto simp: Channel_send_string_def Channel_send_def Let_def chan_ok_def send_unlock_def)
qed

lemma clear_ok: "chan_ok fd ch \<Longrightarrow> chan_ok fd (Channel_clear_msg ch)"
  by (simp add: chan_ok_def Channel_clear_msg_def)

section \<open>Each step keeps the invariant\<close>

lemma dead_inv [simp]: "poll_inv (dies f s)"
  by (simp add: poll_inv_def dies_def is_poll_dead_def)

lemma dies_dead [simp]: "is_poll_dead (ps_pc (dies f s))"
  by (simp add: dies_def is_poll_dead_def)

lemma go_on_inv: "poll_inv s \<Longrightarrow> poll_inv (go_on pc s)"
  by (auto simp: poll_inv_def go_on_def is_poll_dead_def table_inv_def watch_inv_def split: poll_pc.splits)

lemma same_address: "distinct (map snd xs) \<Longrightarrow> (x, a) \<in> set xs \<Longrightarrow> (y, a) \<in> set xs \<Longrightarrow> x = y"
  by (induction xs) force+

lemma same_key: "distinct (map fst xs) \<Longrightarrow> (k, a) \<in> set xs \<Longrightarrow> (k, b) \<in> set xs \<Longrightarrow> a = b"
  by (metis eq_key_imp_eq_value)

lemma table_entry:
  assumes "table_inv s" "(fd, a) \<in> set (ps_channels s)"
  shows "fd_ok fd" "a < ps_next s" "fd \<noteq> sc_sock s" "\<exists>ch. ps_heap s a = Some ch \<and> chan_ok fd ch"
proof -
  have "fd \<in> fst ` set (ps_channels s)"
    using assms(2) by force
  moreover have "sc_sock s \<notin> fst ` set (ps_channels s)"
    using assms(1) unfolding table_inv_def by blast
  ultimately show "fd \<noteq> sc_sock s"
    by metis
  have "\<forall>x \<in> set (ps_channels s). case x of (fd, a) \<Rightarrow>
      fd_ok fd \<and> a < ps_next s \<and> (\<exists>ch. ps_heap s a = Some ch \<and> chan_ok fd ch)"
    using assms(1) by (simp add: table_inv_def)
  from bspec [OF this assms(2)]
  show "fd_ok fd" "a < ps_next s" "\<exists>ch. ps_heap s a = Some ch \<and> chan_ok fd ch"
    by auto
qed

lemma lookup_channel:
  assumes "table_inv s" "map_of (ps_channels s) fd = Some a"
  obtains ch where "ps_heap s a = Some ch" "chan_ok fd ch" "fd_ok fd" "fd \<noteq> sc_sock s"
    "(fd, a) \<in> set (ps_channels s)"
proof -
  have "(fd, a) \<in> set (ps_channels s)"
    using assms(2) by (rule map_of_SomeD)
  then show ?thesis
    using table_entry [OF assms(1)] that by blast
qed

lemma put_channel_inv:
  assumes "table_inv s" "watch_inv s" "(fd, a) \<in> set (ps_channels s)" "chan_ok fd ch"
  shows "table_inv (put_channel a ch s) \<and> watch_inv (put_channel a ch s)"
proof -
  let ?t = "put_channel a ch s"
  have fields: "ps_channels ?t = ps_channels s" "ps_heap ?t = (ps_heap s)(a \<mapsto> ch)" "ps_next ?t = ps_next s"
      "sc_sock ?t = sc_sock s" "ps_pm ?t = ps_pm s"
    by (simp_all add: put_channel_def)
  have dist: "distinct (map fst (ps_channels s))" "distinct (map snd (ps_channels s))"
      "dom (ps_heap s) = snd ` set (ps_channels s)" "sc_sock s \<notin> fst ` set (ps_channels s)"
    using assms(1) unfolding table_inv_def by blast+
  have "a \<in> snd ` set (ps_channels s)"
    using assms(3) by force
  then have "dom ((ps_heap s)(a \<mapsto> ch)) = snd ` set (ps_channels s)"
    using dist(3) by auto
  moreover have "fd_ok fd' \<and> a' < ps_next s \<and> (\<exists>c. ((ps_heap s)(a \<mapsto> ch)) a' = Some c \<and> chan_ok fd' c)"
    if "(fd', a') \<in> set (ps_channels s)" for fd' a'
    using table_entry [OF assms(1) that] same_address [OF dist(2) assms(3), of fd'] that assms(4)
    by (cases "a' = a") auto
  ultimately show ?thesis
    using assms(2) dist unfolding table_inv_def watch_inv_def fields by blast
qed

lemma add_job_inv: "table_inv (add_job a s) = table_inv s" "watch_inv (add_job a s) = watch_inv s"
  by (simp_all add: add_job_def table_inv_def watch_inv_def)

lemma drop_inv:
  assumes "table_inv s" "watch_inv s" "(fd, a) \<in> set (ps_channels s)" "chan_ok fd ch"
    "drop_channel fd a ch s = Some t"
  shows "poll_inv t"
proof -
  have fd: "fd_ok fd" "fd \<noteq> sc_sock s"
    using table_entry [OF assms(1,3)] by blast+
  obtain p' p'' where p: "PollManager_unwatch (ps_pm s) fd READ = Inr p'"
      "PollManager_unwatch p' fd WRITE = Inr p''" "pm_inv p''"
      "\<And>m. pm_watched p'' m = pm_watched (ps_pm s) m - {fd}"
    using pm.drop_both [OF _ fd(1), of "ps_pm s"] assms(2) by (auto simp: watch_inv_def)
  have t: "t = s\<lparr>ps_pm := p'', ps_heap := (ps_heap s)(a := None),
      ps_channels := AList.delete fd (ps_channels s)\<rparr>"
    using assms(4,5) p(1,2)
    by (simp add: drop_channel_def Channel_close_def Channel_destroy_def Channel_is_alive_def chan_ok_def)
  let ?rest = "filter (\<lambda>(k, _). fd \<noteq> k) (ps_channels s)"
  have dist: "distinct (map fst (ps_channels s))" "distinct (map snd (ps_channels s))"
    using assms(1) by (simp_all add: table_inv_def)
  have rest: "set ?rest = set (ps_channels s) - {(fd, a)}" "a \<notin> snd ` set ?rest"
    by (auto dest: same_key [OF dist(1) assms(3)] same_address [OF dist(2) assms(3)])
  then have "fst ` set ?rest = fst ` set (ps_channels s) - {fd}"
      "snd ` set ?rest = snd ` set (ps_channels s) - {a}"
    using assms(3) by force+
  moreover have "distinct (map fst ?rest)" "distinct (map snd ?rest)"
    using dist by (simp_all add: distinct_map_filter)
  moreover have "fd_ok fd' \<and> a' < ps_next s \<and> (\<exists>c. ((ps_heap s)(a := None)) a' = Some c \<and> chan_ok fd' c)"
    if "(fd', a') \<in> set ?rest" for fd' a'
  proof -
    have "(fd', a') \<in> set (ps_channels s)" "a' \<noteq> a"
      using that rest by force+
    then show ?thesis
      using table_entry [OF assms(1)] by simp
  qed
  moreover have "dom (ps_heap s) = snd ` set (ps_channels s)" "sc_sock s \<notin> fst ` set (ps_channels s)"
    using assms(1) unfolding table_inv_def by blast+
  ultimately have "table_inv t"
    unfolding t table_inv_def AList.delete_eq by simp blast
  moreover have "watch_inv t"
    using assms(2) p(3,4) fd(2) \<open>fst ` set ?rest = fst ` set (ps_channels s) - {fd}\<close>
    unfolding t watch_inv_def by (simp add: AList.delete_eq insert_Diff_if)
  ultimately show ?thesis
    by (simp add: poll_inv_def)
qed

lemma read_callback_inv:
  assumes "table_inv s" "watch_inv s" "read_callback junk fd s = Some t"
  shows "poll_inv t"
proof (cases "map_of (ps_channels s) fd")
  case None
  then show ?thesis
    using assms by (simp add: read_callback_def poll_inv_def)
next
  case (Some a)
  then obtain ch where ch: "ps_heap s a = Some ch" "chan_ok fd ch" "(fd, a) \<in> set (ps_channels s)"
    using lookup_channel [OF assms(1)] by metis
  obtain r ch' where r: "Channel_read junk ch = (r, ch')"
    by (cases "Channel_read junk ch")
  then have ok: "chan_ok fd ch'"
    using read_ok ch(2) by blast
  note put = put_channel_inv [OF assms(1,2) ch(3) ok]
  have "poll_inv t" if "drop_channel fd a ch' (put_channel a ch' s) = Some t"
    by (rule drop_inv [OF _ _ _ ok that]) (use put ch(3) in \<open>auto simp: put_channel_def\<close>)
  then show ?thesis
    using assms(3) Some ch(1) r put
    by (auto simp: read_callback_def poll_inv_def add_job_inv split: outcome.splits if_splits)
qed

lemma write_callback_inv:
  assumes "table_inv s" "watch_inv s" "write_callback junk fd s = Some t"
  shows "poll_inv t"
proof (cases "map_of (ps_channels s) fd")
  case None
  then show ?thesis
    using assms by (simp add: write_callback_def poll_inv_def)
next
  case (Some a)
  then obtain ch where ch: "ps_heap s a = Some ch" "chan_ok fd ch" "(fd, a) \<in> set (ps_channels s)" "fd_ok fd"
    using lookup_channel [OF assms(1)] by metis
  obtain r ch' where r: "Channel_write junk ch = (r, ch')"
    by (cases "Channel_write junk ch")
  then have ok: "chan_ok fd ch'"
    using write_ok ch(2) by blast
  note put = put_channel_inv [OF assms(1,2) ch(3) ok]
  obtain p where p: "PollManager_unwatch (ps_pm s) fd WRITE = Inr p" "pm_inv p"
      "pm_watched p WRITE = {}" "pm_watched p READ = pm_watched (ps_pm s) READ"
    using pm.unwatch_law [OF _ ch(4), of "ps_pm s" WRITE] assms(2) by (auto simp: watch_inv_def)
  have "table_inv ((put_channel a ch' s)\<lparr>ps_pm := p\<rparr>) \<and> watch_inv ((put_channel a ch' s)\<lparr>ps_pm := p\<rparr>)"
    using put p by (simp add: table_inv_def watch_inv_def put_channel_def)
  then show ?thesis
    using assms(3) Some ch(1) r put p(1)
    by (auto simp: write_callback_def poll_inv_def split: outcome.splits if_splits)
qed

lemma AList_update_fresh: "k \<notin> fst ` set xs \<Longrightarrow> AList.update k v xs = xs @ [(k, v)]"
  by (induction xs) auto

lemma accept_inv:
  assumes "table_inv s" "watch_inv s" "c \<notin> insert (sc_sock s) (fst ` set (ps_channels s))"
  shows "poll_inv (accept_channel nb c s)"
proof (cases "c = -1 \<or> \<not> fd_ok c")
  case True
  then show ?thesis
    by (auto simp: accept_channel_def PollManager_watch_def FD_SET_def Let_def)
next
  case False
  then obtain p where p: "PollManager_watch nb (ps_pm s) c READ = Inr p" "pm_inv p"
      "pm_watched p READ = insert c (pm_watched (ps_pm s) READ)" "pm_watched p WRITE = {}"
    using pm.watch_law [of "ps_pm s" c nb READ] assms(2) by (auto simp: watch_inv_def)
  obtain ch fds where ch: "Channel nb (pm_flags p) c
      \<lparr>n_writes = [], n_reads = [], n_sent = [], n_closed = []\<rparr> = (ch, fds)" "chan_ok c ch"
    by (simp add: Channel_def chan_ok_def)
  let ?t = "accept_channel nb c s"
  have t: "?t = s\<lparr>ps_pm := p\<lparr>pm_flags := fds\<rparr>, ps_heap := (ps_heap s)(ps_next s \<mapsto> ch),
      ps_channels := ps_channels s @ [(c, ps_next s)], ps_next := ps_next s + 1\<rparr>"
    using False p(1) ch(1) assms(3) by (simp add: accept_channel_def AList_update_fresh)
  have fresh: "ps_next s \<notin> snd ` set (ps_channels s)"
    using assms(1) by (auto simp: table_inv_def)
  have "table_inv ?t"
    using assms(1,3) fresh False ch(2) unfolding t table_inv_def by auto
  moreover have "watch_inv ?t"
    using assms(2) p(2-4) unfolding t watch_inv_def
    by (auto simp: pm_inv_def pm_watched_def)
  ultimately show ?thesis
    by (simp add: poll_inv_def)
qed

lemma poll_step_inv:
  assumes "poll_inv s" "\<not> is_poll_dead (ps_pc s)" "poll_step nb junk polled c s = Some t"
    "c \<notin> insert (sc_sock s) (fst ` set (ps_channels s))"
  shows "poll_inv t"
proof -
  have inv: "table_inv s" "watch_inv s"
    using assms(1,2) by (auto simp: poll_inv_def)
  have moved: "poll_inv (s\<lparr>ps_pc := pc\<rparr>)" for pc
    using inv by (simp add: poll_inv_def table_inv_def watch_inv_def)
  show ?thesis
  proof (cases "ps_pc s")
    case (PollReads fds ws)
    then show ?thesis
      using assms(3,4) moved read_callback_inv [OF inv] accept_inv [OF inv]
      by (cases fds) (auto simp: poll_step_def intro: go_on_inv split: if_splits)
  next
    case (PollWrites fds)
    then show ?thesis
      using assms(3) moved write_callback_inv [OF inv]
      by (cases fds) (auto simp: poll_step_def intro: go_on_inv)
  qed (use assms(3) moved in \<open>auto simp: poll_step_def\<close>)
qed

lemma heap_entry:
  assumes "table_inv s" "ps_heap s a = Some ch"
  obtains fd where "(fd, a) \<in> set (ps_channels s)" "chan_ok fd ch"
proof -
  have "dom (ps_heap s) = snd ` set (ps_channels s)"
    using assms(1) unfolding table_inv_def by blast
  then have "a \<in> snd ` set (ps_channels s)"
    using assms(2) by auto
  then obtain fd where "(fd, a) \<in> set (ps_channels s)"
    by auto
  then show ?thesis
    using table_entry(4) [OF assms(1), of fd a] assms(2) that by auto
qed

lemma job_step_inv:
  assumes "table_inv s" "watch_inv s" "job_step J serve nb junk beyond j s = Some (j', t)"
  shows "poll_inv t"
proof (cases j)
  case (JQueued a)
  show ?thesis
  proof (cases "ps_heap s a")
    case (Some ch)
    then obtain fd where fd: "(fd, a) \<in> set (ps_channels s)" "chan_ok fd ch"
      using heap_entry [OF assms(1)] by blast
    then show ?thesis
      using assms JQueued Some put_channel_inv [OF assms(1,2) fd(1) clear_ok [OF fd(2)]]
      by (auto simp: job_step_def poll_inv_def split: outcome.splits)
  qed (use assms(3) JQueued in \<open>auto simp: job_step_def\<close>)
next
  case (JMessage a msg)
  have "poll_inv (s\<lparr>ps_service := sv\<rparr>)" "poll_inv s" for sv
    using assms(1,2) by (simp_all add: poll_inv_def table_inv_def watch_inv_def)
  then show ?thesis
    using assms(3) JMessage
    by (auto simp: job_step_def split: prod.splits outcome.splits exn.splits)
next
  case (JReply a reply)
  show ?thesis
  proof (cases "ps_heap s a")
    case (Some ch)
    then obtain fd where fd: "(fd, a) \<in> set (ps_channels s)" "chan_ok fd ch"
      using heap_entry [OF assms(1)] by blast
    obtain r ch' p where r: "Channel_send_string nb junk reply (ch, ps_pm s) = (r, ch', p)"
      by (cases "Channel_send_string nb junk reply (ch, ps_pm s)")
    have "r \<noteq> Throws e" for e
      using r by (auto simp: Channel_send_string_def Channel_send_def Channel_write_def Let_def
          split: if_splits sum.splits option.splits prod.splits list.splits)
    moreover have "poll_inv t" if "r = Returns u" for u
    proof -
      have ok: "chan_ok fd ch'" "p = ps_pm s"
        using send_ok [OF _ fd(2)] r that by auto
      have "t = put_channel a ch' s"
        using assms(3) JReply Some r that ok(2) by (auto simp: job_step_def put_channel_def)
      then show ?thesis
        using put_channel_inv [OF assms(1,2) fd(1) ok(1)] by (simp add: poll_inv_def)
    qed
    ultimately show ?thesis
      using assms(3) JReply Some r by (cases r) (auto simp: job_step_def)
  qed (use assms(3) JReply in \<open>auto simp: job_step_def\<close>)
qed (use assms in \<open>auto simp: job_step_def\<close>)

lemma pool_step_inv:
  assumes "poll_inv s" "\<not> is_poll_dead (ps_pc s)" "pool_step J serve nb junk beyond i s = Some t"
  shows "poll_inv t"
proof -
  obtain j u where job: "job_step J serve nb junk beyond (ps_jobs s ! i) s = Some (j, u)"
      and t: "t = u\<lparr>ps_jobs := (ps_jobs u)[i := j]\<rparr>"
    using assms(3) by (auto simp: pool_step_def split: if_splits)
  have "table_inv s" "watch_inv s"
    using assms(1,2) by (auto simp: poll_inv_def)
  then have "poll_inv u"
    by (rule job_step_inv [OF _ _ job])
  then show ?thesis
    unfolding t by (simp add: poll_inv_def table_inv_def watch_inv_def)
qed

lemma poll_deliver_inv: "poll_inv s \<Longrightarrow> poll_inv (poll_deliver a rs ws s)"
proof (cases "is_poll_dead (ps_pc s)")
  case True
  then show ?thesis
    by (simp add: poll_inv_def poll_deliver_def put_channel_def split: option.split)
next
  case False
  assume "poll_inv s"
  then have inv: "table_inv s" "watch_inv s"
    using False by (auto simp: poll_inv_def)
  show ?thesis
  proof (cases "ps_heap s a")
    case None
    then show ?thesis using \<open>poll_inv s\<close> by (simp add: poll_deliver_def)
  next
    case (Some ch)
    then obtain fd where fd: "(fd, a) \<in> set (ps_channels s)" "chan_ok fd ch"
      using heap_entry [OF inv(1)] by blast
    have "chan_ok fd (ch\<lparr>ch_wire := (ch_wire ch)\<lparr>n_reads := n_reads (ch_wire ch) @ rs,
        n_writes := n_writes (ch_wire ch) @ ws\<rparr>\<rparr>)"
      using fd(2) by (simp add: chan_ok_def)
    then show ?thesis
      using put_channel_inv [OF inv fd(1)] Some by (simp add: poll_deliver_def poll_inv_def)
  qed
qed

lemma dead_no_poll: "is_poll_dead (ps_pc s) \<Longrightarrow> poll_step nb junk polled c s = None"
  by (auto simp: is_poll_dead_def poll_step_def split: poll_pc.splits)

lemma poll_invariant:
  assumes "polling nb s0" "srv_runs J serve nb junk s0 s"
  shows "poll_inv s"
  using assms(2)
proof (induction rule: rtranclp_induct)
  case base
  show ?case
    using assms(1) by (simp add: polling_def poll_inv_def table_inv_def watch_inv_def)
next
  case (step s t)
  from step.hyps(2) show ?case
  proof (cases rule: srv_moves.cases)
    case (poll polled c)
    then show ?thesis
      using poll_step_inv [OF step.IH] dead_no_poll by (metis option.distinct(1))
  next
    case (pool beyond i)
    then show ?thesis using pool_step_inv [OF step.IH] by blast
  next
    case kernel
    then show ?thesis using poll_deliver_inv [OF step.IH] by blast
  qed
qed

section \<open>Scripted runs\<close>

datatype srv_event =
    Polled "int list" "int list" int   \<comment> \<open>a step of the thread, with what \<open>poll\<close> and \<open>accept\<close> give\<close>
  | Pooled nat bytes
  | Arrives nat "rres list" "int list"

fun srv_exec ::
  "'j jconer \<Rightarrow> ('v \<times> 'j request \<Rightarrow> (exn, int) outcome \<times> 'v \<times> 'j request) \<Rightarrow> i32 \<Rightarrow> (nat \<Rightarrow> char) \<Rightarrow>
   srv_event list \<Rightarrow> ('h, 'v) pollserver \<Rightarrow> ('h, 'v) pollserver option" where
  "srv_exec J serve nb junk [] s = Some s"
| "srv_exec J serve nb junk (Polled rs ws c # es) s =
     (if c \<in> insert (sc_sock s) (fst ` set (ps_channels s)) then None
      else Option.bind (poll_step nb junk (rs, ws) c s) (srv_exec J serve nb junk es))"
| "srv_exec J serve nb junk (Pooled i beyond # es) s =
     (if is_poll_dead (ps_pc s) then None
      else Option.bind (pool_step J serve nb junk beyond i s) (srv_exec J serve nb junk es))"
| "srv_exec J serve nb junk (Arrives a rs ws # es) s = srv_exec J serve nb junk es (poll_deliver a rs ws s)"

lemma srv_exec_runs: "srv_exec J serve nb junk es s = Some t \<Longrightarrow> srv_runs J serve nb junk s t"
proof (induction es arbitrary: s)
  case (Cons e es)
  then obtain u where "srv_moves J serve nb junk s u" "srv_exec J serve nb junk es u = Some t"
    by (cases e) (auto simp: Option.bind_eq_Some_conv split: if_splits
        intro: srv_moves.poll srv_moves.pool srv_moves.kernel)
  then show ?case
    using Cons.IH by (meson converse_rtranclp_into_rtranclp)
qed simp

text \<open>A server that polls, and the first steps of its first connection: a message of one byte.\<close>

definition sample_server :: "(unit, (nat, json) service) pollserver" where
  "sample_server = \<lparr>sc_handler = Some (), sc_sock = 3, ps_stop = False, ps_channels = [],
     ps_heap = Map.empty, ps_next = 0,
     ps_pm = \<lparr>pm_highest = 3, pm_read_set = {3}, pm_write_set = {}, pm_watched_read = [3],
              pm_watched_write = [], pm_flags = (\<lambda>_. None)\<rparr>,
     ps_pc = PollHead, ps_jobs = [], ps_service = sample_service\<rparr>"

lemma sample_server_polling: "polling nb sample_server"
  by (simp add: polling_def sample_server_def pm_inv_def pm_watched_def fd_ok_def FD_SETSIZE_def)

definition sample_channels :: "channel \<Rightarrow> job list \<Rightarrow> poll_pc \<Rightarrow> (unit, (nat, json) service) pollserver" where
  "sample_channels ch jobs pc = sample_server\<lparr>ps_channels := [(7, 0)], ps_heap := [0 \<mapsto> ch], ps_next := 1,
     ps_pm := \<lparr>pm_highest = 7, pm_read_set = {7, 3}, pm_write_set = {}, pm_watched_read = [7, 3],
              pm_watched_write = [], pm_flags = nonblock_fd 2048 (nonblock_fd 2048 (\<lambda>_. None) 7) 7\<rparr>,
     ps_pc := pc, ps_jobs := jobs\<rparr>"

definition sample_chan :: "wron option \<Rightarrow> rres list \<Rightarrow> int list \<Rightarrow> channel" where
  "sample_chan b rs ws = \<lparr>ch_sock = 7, ch_read_buffer = None, ch_write_buffer = b, ch_send_mutex = False,
     ch_bad_unlocks = 0, ch_alive = True, ch_busy = (b \<noteq> None),
     ch_wire = \<lparr>n_writes = ws, n_reads = rs, n_sent = [], n_closed = []\<rparr>\<rparr>"

definition one_byte :: wron where
  "one_byte = \<lparr>write_only_str = ''x'', wr_size = 1, wr_pos = 1\<rparr>"

lemma write_one_byte:
  "SizedWRONBuffer_write \<lparr>write_only_str = fresh junk (Suc 0), wr_size = 1, wr_pos = 0\<rparr> (overlay ''x'' arr) 1
     = Inr (1, one_byte)"
  by (simp add: SizedWRONBuffer_write_def Let_def memcpy_def overlay_def one_byte_def)

lemmas poll_exec = poll_step_def go_on_def accept_channel_def PollManager_watch_def FD_SET_def fd_ok_def
  FD_SETSIZE_def Let_def Channel_def poll_deliver_def put_channel_def read_callback_def add_job_def
  Channel_read_def Channel_read_chunk_def sys_read_header WRONBuffer_sized_def write_one_byte

lemma sample_accepts:
  "srv_exec json_api on_request 2048 junk [Polled [3] [] 9, Polled [] [] 7] sample_server
     = Some (sample_channels (sample_chan None [] []) [] (PollReads [] []))"
  by (simp add: poll_exec sample_channels_def sample_chan_def sample_server_def)

lemma sample_queues:
  "srv_exec json_api on_request 2048 junk [Polled [] [] 9, Polled [] [] 9,
      Arrives 0 [RData (int_bytes 1), RData ''x''] [], Polled [7] [] 9, Polled [] [] 9]
     (sample_channels (sample_chan None [] []) [] (PollReads [] []))
   = Some (sample_channels (sample_chan (Some one_byte) [] []) [JQueued 0] (PollReads [] []))"
  by (simp add: poll_exec sample_channels_def sample_chan_def sample_server_def)
     (simp add: one_byte_def wron_ready_def)

lemma sample_replies:
  "srv_exec json_api on_request 2048 junk [Pooled 0 [NUL], Pooled 0 [], Polled [] [] 9, Polled [] [] 9,
      Arrives 0 [RData []] [], Polled [7] [] 9]
     (sample_channels (sample_chan (Some one_byte) [] []) [JQueued 0] (PollReads [] []))
   = Some (sample_channels (sample_chan None [RData []] [])
            [JReply 0 (build_error json_api JSON_NOT_PARSED)] (PollReads [7] []))"
proof -
  have "build_request json_api ''x'' = not_parsed"
    by (simp add: build_request_def json_api_def json_loads_def)
  then have "serve_message json_api on_request sv ''x'' = (Throws (Server ServerJsonNotParsedException), sv)"
    for sv :: "(nat, json) service"
    by (simp add: serve_message_def)
  then show ?thesis
    by (simp add: poll_exec sample_channels_def sample_chan_def sample_server_def pool_step_def job_step_def
        is_poll_dead_def Channel_get_msg_def one_byte_def Channel_clear_msg_def NUL_def)
qed

lemma sample_reached:
  "srv_runs json_api on_request 2048 junk sample_server (sample_channels (sample_chan None [RData []] [])
     [JReply 0 (build_error json_api JSON_NOT_PARSED)] (PollReads [7] []))"
  using srv_exec_runs [OF sample_accepts] srv_exec_runs [OF sample_queues] srv_exec_runs [OF sample_replies]
  by (meson rtranclp_trans)

section \<open>A job and a stop, whole\<close>

text \<open>The job of a message, from the queue to its reply, when nothing comes between.\<close>

lemma job_to_reply:
  assumes "\<not> is_poll_dead (ps_pc s)" "i < length (ps_jobs s)" "ps_jobs s ! i = JQueued a" "ps_heap s a = Some ch"
    "Channel_get_msg beyond ch = Returns msg" "serve_message J serve (ps_service s) msg = (r, sv)"
    "poll_replies J r = [reply]"
  shows "Option.bind (pool_step J serve nb junk beyond i s) (pool_step J serve nb junk beyond i) =
    Some ((put_channel a (Channel_clear_msg ch) s)\<lparr>ps_service := sv, ps_jobs := (ps_jobs s)[i := JReply a reply]\<rparr>)"
proof -
  have "(\<exists>p. r = Returns p \<and> reply = build_response J p) \<or> (\<exists>e. r = Throws (Server e) \<and> reply = build_error J (get_code e))"
    using assms(7) by (auto simp: poll_replies_def split: outcome.splits exn.splits)
  then show ?thesis
    using assms(1-6) by (auto simp: pool_step_def job_step_def put_channel_def)
qed

text \<open>And to its end.\<close>

lemma job_serves:
  assumes "\<not> is_poll_dead (ps_pc s)" "i < length (ps_jobs s)" "ps_jobs s ! i = JQueued a" "ps_heap s a = Some ch"
    "ch_alive ch" "\<not> ch_send_mutex ch" "Channel_get_msg beyond ch = Returns msg"
    "serve_message J serve (ps_service s) msg = (r, sv)" "poll_replies J r = [reply]"
    "reply \<noteq> []" "length (frame reply) < 1024" "n_writes (ch_wire ch) = int (length (frame reply)) # ws"
  shows "\<exists>b. Option.bind (Option.bind (pool_step J serve nb junk beyond i s) (pool_step J serve nb junk beyond i))
        (pool_step J serve nb junk beyond i) = Some (s\<lparr>ps_service := sv, ps_jobs := (ps_jobs s)[i := JDone],
          ps_heap := (ps_heap s)(a \<mapsto> (Channel_clear_msg ch)\<lparr>ch_read_buffer := Some b,
            ch_wire := (ch_wire ch)\<lparr>n_writes := ws, n_sent := n_sent (ch_wire ch) @ frame reply\<rparr>,
            ch_send_mutex := False, ch_bad_unlocks := ch_bad_unlocks ch + 1\<rparr>)\<rparr>)"
proof -
  let ?ch = "Channel_clear_msg ch"
  have ch: "ch_alive ?ch" "\<not> ch_send_mutex ?ch" "ch_wire ?ch = ch_wire ch" "\<not> ch_busy ?ch" "ch_write_buffer ?ch = None"
    using assms(5,6) by (simp_all add: Channel_clear_msg_def)
  have "length reply < 2 ^ 31"
    using assms(11) by (simp add: frame_def)
  then obtain b where send: "Channel_send_string nb junk reply (?ch, ps_pm s) =
      (Returns (), ?ch\<lparr>ch_read_buffer := Some b,
         ch_wire := (ch_wire ?ch)\<lparr>n_writes := ws, n_sent := n_sent (ch_wire ?ch) @ frame reply\<rparr>,
         ch_send_mutex := False, ch_bad_unlocks := ch_bad_unlocks ?ch + 1\<rparr>, ps_pm s)"
    using send_string [OF ch(1,2) assms(10), of "int (length (frame reply))" ws nb junk "ps_pm s"] assms(11,12) ch(3)
    by auto
  show ?thesis
    unfolding job_to_reply [OF assms(1-4,7-9)]
    using assms(1,2) send ch(3)
    by (intro exI [of _ b]) (simp add: pool_step_def job_step_def put_channel_def Channel_clear_msg_def)
qed

definition closed_heap :: "nat set \<Rightarrow> (nat \<rightharpoonup> channel) \<Rightarrow> (nat \<rightharpoonup> channel)" where
  "closed_heap A heap = (\<lambda>a. if a \<in> A then map_option (\<lambda>ch. snd (Channel_close ch)) (heap a) else heap a)"

lemma close_all_alive:
  assumes "distinct as" "\<forall>a\<in>set as. \<exists>ch. heap a = Some ch \<and> ch_alive ch \<and> \<not> ch_send_mutex ch"
  shows "close_all as heap = (Returns (), closed_heap (set as) heap)"
  using assms
proof (induction "as" arbitrary: heap)
  case (Cons a "as")
  obtain ch where ch: "heap a = Some ch" "ch_alive ch" "\<not> ch_send_mutex ch"
    using Cons.prems(2) by auto
  let ?heap = "heap(a \<mapsto> snd (Channel_close ch))"
  have "close_all (a # as) heap = close_all as ?heap"
    using ch by (simp add: Channel_is_alive_def Channel_close_def)
  also have "\<dots> = (Returns (), closed_heap (set as) ?heap)"
    using Cons.prems by (intro Cons.IH) auto
  also have "closed_heap (set as) ?heap = closed_heap (set (a # as)) heap"
    using ch(1) Cons.prems(1) by (auto simp: closed_heap_def fun_eq_iff)
  finally show ?case .
qed (simp add: closed_heap_def)

section \<open>Properties\<close>



text \<open>
  (C38) A client that closes its connection while its request is being handled makes the
  server use a deleted channel: the thread finds the end of file, closes and deletes the
  channel, and the job that still holds its address sends the reply to it.
\<close>
theorem reply_after_close_uses_freed_channel:
  assumes "polling nb s0" "srv_runs J serve nb junk s0 s" "ps_pc s = PollReads (fd # fds) ws"
    "map_of (ps_channels s) fd = Some a" "ps_heap s a = Some ch" "\<not> ch_busy ch"
    "ch_write_buffer ch = None" "n_reads (ch_wire ch) = RData [] # rs"
    "i < length (ps_jobs s)" "ps_jobs s ! i = JReply a reply"
  shows "\<exists>t u. poll_step nb junk polled c s = Some t \<and> map_of (ps_channels t) fd = None \<and> ps_heap t a = None
    \<and> pool_step J serve nb junk beyond i t = Some u \<and> ps_pc u = PollDead UseAfterFree"
proof -
  have inv: "table_inv s" "watch_inv s"
    using poll_invariant [OF assms(1,2)] assms(3) by (auto simp: poll_inv_def is_poll_dead_def)
  have fd: "fd_ok fd" "fd \<noteq> sc_sock s" "chan_ok fd ch"
    using lookup_channel [OF inv(1) assms(4)] assms(5) by (metis option.inject)+
  obtain p' p'' where p: "PollManager_unwatch (ps_pm s) fd READ = Inr p'"
      "PollManager_unwatch p' fd WRITE = Inr p''"
    using pm.drop_both [OF _ fd(1), of "ps_pm s"] inv(2) by (auto simp: watch_inv_def)
  let ?ch = "ch\<lparr>ch_wire := (ch_wire ch)\<lparr>n_reads := rs\<rparr>\<rparr>"
  have "Channel_read junk ch = (Returns CLOSED, ?ch)"
    using assms(6-8) by (simp add: Channel_read_def Let_def)
  then have "\<exists>t. poll_step nb junk polled c s = Some t \<and> map_of (ps_channels t) fd = None \<and> ps_heap t a = None
      \<and> ps_jobs t = ps_jobs s"
    using assms(3-5) fd p
    by (simp add: poll_step_def read_callback_def drop_channel_def put_channel_def Channel_close_def
        Channel_destroy_def Channel_is_alive_def chan_ok_def go_on_def AList.delete_conv')
  then show ?thesis
    using assms(9,10) by (auto simp: pool_step_def job_step_def dies_def)
qed

theorem reply_after_close_uses_freed_channel_witness:
  "\<exists>t u. poll_step 2048 (\<lambda>_. NUL) ([], []) 9 (sample_channels (sample_chan None [RData []] [])
      [JReply 0 (build_error json_api JSON_NOT_PARSED)] (PollReads [7] [])) = Some t
    \<and> pool_step json_api on_request 2048 (\<lambda>_. NUL) [] 0 t = Some u \<and> ps_pc u = PollDead UseAfterFree"
proof -
  let ?s = "sample_channels (sample_chan None [RData []] [])
      [JReply 0 (build_error json_api JSON_NOT_PARSED)] (PollReads [7] [])"
  have "ps_pc ?s = PollReads (7 # []) []" "map_of (ps_channels ?s) 7 = Some 0"
      "ps_heap ?s 0 = Some (sample_chan None [RData []] [])" "0 < length (ps_jobs ?s)"
      "ps_jobs ?s ! 0 = JReply 0 (build_error json_api JSON_NOT_PARSED)"
    by (simp_all add: sample_channels_def)
  from reply_after_close_uses_freed_channel [where junk = "\<lambda>_. NUL" and rs = "[]" and polled = "([], [])" and c = 9
      and beyond = "[]", OF sample_server_polling sample_reached this(1-3) _ _ _ this(4,5)]
  show ?thesis
    by (auto simp: sample_chan_def)
qed

text \<open>
  One busy channel holds up every client: when the thread comes to a channel whose message
  no job has taken yet, its callback waits, no other descriptor is served and nothing is
  accepted, and no step of any other job changes that.
\<close>
theorem busy_channel_blocks_server:
  assumes "ps_pc s = PollReads (fd # fds) ws" "fd \<noteq> sc_sock s" "map_of (ps_channels s) fd = Some a"
    "ps_heap s a = Some ch" "ch_busy ch"
  shows "poll_step nb junk polled c s = None
    \<and> (pool_step J serve nb junk beyond i s = Some t \<and> ps_jobs s ! i \<noteq> JQueued a \<and> \<not> is_poll_dead (ps_pc t)
        \<longrightarrow> poll_step nb junk polled' c' t = None)"
proof -
  have stuck: "poll_step nb junk polled c u = None"
    if "ps_pc u = ps_pc s" "sc_sock u = sc_sock s" "ps_channels u = ps_channels s"
      "\<exists>ch'. ps_heap u a = Some ch' \<and> ch_busy ch'" for u polled c
    using that assms(1-3) by (auto simp: poll_step_def read_callback_def Channel_read_def)
  have wr: "ch_busy ch'' = ch_busy ch'" if "Channel_write junk ch' = (r, ch'')" for ch' ch'' r
    using that by (auto simp: Channel_write_def send_unlock_def Let_def
        split: list.splits prod.splits sum.splits if_splits option.splits)
  have send: "ch_busy ch''" if "Channel_send_string nb junk m (ch', p) = (r, ch'', p')" "ch_busy ch'" for m ch' p r ch'' p'
    using that wr
    by (auto simp: Channel_send_string_def Channel_send_def send_unlock_def Let_def
        split: prod.splits sum.splits if_splits outcome.splits)
  have "ps_pc t = ps_pc s \<and> sc_sock t = sc_sock s \<and> ps_channels t = ps_channels s
      \<and> (\<exists>ch'. ps_heap t a = Some ch' \<and> ch_busy ch')"
    if step: "pool_step J serve nb junk beyond i s = Some t" and other: "ps_jobs s ! i \<noteq> JQueued a"
      and live: "\<not> is_poll_dead (ps_pc t)"
  proof (cases "ps_jobs s ! i")
    case (JQueued a')
    then show ?thesis
      using step other live assms(4,5)
      by (auto simp: pool_step_def job_step_def put_channel_def dies_def is_poll_dead_def
          split: if_splits option.splits outcome.splits)
  next
    case (JMessage a' m)
    then show ?thesis
      using step live assms(4,5)
      by (auto simp: pool_step_def job_step_def dies_def is_poll_dead_def
          split: if_splits prod.splits outcome.splits exn.splits)
  next
    case (JReply a' m)
    then show ?thesis
      using step live assms(4,5) send
      by (auto simp: pool_step_def job_step_def put_channel_def dies_def is_poll_dead_def
          split: if_splits option.splits prod.splits outcome.splits)
  qed (use step in \<open>auto simp: pool_step_def job_step_def split: if_splits\<close>)
  then show ?thesis
    using stuck [of s] assms(4,5) stuck [of t] by blast
qed

theorem busy_channel_blocks_server_witness:
  "poll_step 2048 (\<lambda>_. NUL) ([], []) 9 (sample_channels (sample_chan (Some one_byte) [] [])
     [JQueued 0] (PollReads [7, 3] [])) = None"
  using busy_channel_blocks_server [where s = "sample_channels (sample_chan (Some one_byte) [] [])
     [JQueued 0] (PollReads [7, 3] [])" and fd = 7 and fds = "[3]" and ws = "[]" and a = 0
     and ch = "sample_chan (Some one_byte) [] []", THEN conjunct1]
  by (simp add: sample_channels_def sample_server_def sample_chan_def)

text \<open>
  (C14) A request is served: the job of a complete message, whose bytes end where the C string
  does, takes three steps; then the client has been sent exactly the frame of the reply (the
  response, or the error of a server exception), the service has gone through its
  handler once, the channel is free for the next message, and no other channel was touched. The
  frame of the reply is shorter than 1024 bytes, and one \<open>write\<close> takes it whole.
\<close>
theorem job_serves_request:
  assumes "\<not> is_poll_dead (ps_pc s)" "i < length (ps_jobs s)" "ps_jobs s ! i = JQueued a" "ps_heap s a = Some ch"
    "ch_alive ch" "\<not> ch_send_mutex ch" "Channel_get_msg beyond ch = Returns msg"
    "serve_message J serve (ps_service s) msg = (r, sv)" "poll_replies J r = [reply]"
    "reply \<noteq> []" "length (frame reply) < 1024" "n_writes (ch_wire ch) = int (length (frame reply)) # ws"
  shows "\<exists>t ch'. Option.bind (Option.bind (pool_step J serve nb junk beyond i s) (pool_step J serve nb junk beyond i))
        (pool_step J serve nb junk beyond i) = Some t
    \<and> ps_jobs t = (ps_jobs s)[i := JDone] \<and> ps_service t = sv \<and> ps_heap t = (ps_heap s)(a \<mapsto> ch')
    \<and> n_sent (ch_wire ch') = n_sent (ch_wire ch) @ frame reply \<and> \<not> ch_busy ch' \<and> ch_write_buffer ch' = None"
proof -
  obtain b where b: "Option.bind (Option.bind (pool_step J serve nb junk beyond i s) (pool_step J serve nb junk beyond i))
        (pool_step J serve nb junk beyond i) = Some (s\<lparr>ps_service := sv, ps_jobs := (ps_jobs s)[i := JDone],
          ps_heap := (ps_heap s)(a \<mapsto> (Channel_clear_msg ch)\<lparr>ch_read_buffer := Some b,
            ch_wire := (ch_wire ch)\<lparr>n_writes := ws, n_sent := n_sent (ch_wire ch) @ frame reply\<rparr>,
            ch_send_mutex := False, ch_bad_unlocks := ch_bad_unlocks ch + 1\<rparr>)\<rparr>)"
    using job_serves [OF assms, of nb junk] by blast
  show ?thesis
    unfolding b by (intro exI conjI, rule refl) (simp_all add: Channel_clear_msg_def, (rule refl | simp)+)
qed

theorem job_serves_request_witness:
  "\<exists>t ch'. Option.bind (Option.bind
        (pool_step json_api on_request 2048 (\<lambda>_. NUL) [NUL] 0
          (sample_channels (sample_chan (Some one_byte) [] [int (length (frame (build_error json_api JSON_NOT_PARSED)))]) [JQueued 0] (PollReads [] [])))
        (pool_step json_api on_request 2048 (\<lambda>_. NUL) [NUL] 0)) (pool_step json_api on_request 2048 (\<lambda>_. NUL) [NUL] 0) = Some t
    \<and> ps_heap t 0 = Some ch' \<and> n_sent (ch_wire ch') = frame (build_error json_api JSON_NOT_PARSED)"
proof -
  let ?e = "build_error json_api JSON_NOT_PARSED"
  let ?ch = "sample_chan (Some one_byte) [] [int (length (frame ?e))]"
  let ?s = "sample_channels ?ch [JQueued 0] (PollReads [] [])"
  have "build_request json_api ''x'' = not_parsed"
    by (simp add: build_request_def json_api_def json_loads_def)
  then have served: "serve_message json_api on_request (ps_service ?s) ''x'' =
      (Throws (Server ServerJsonNotParsedException), ps_service ?s)"
    by (simp add: serve_message_def)
  have "?e \<noteq> []" "length ?e \<le> 1000"
    using dumps_text(1) [OF json_api_laws] by (simp add: build_error_def) code_simp
  then have short: "?e \<noteq> []" "length (frame ?e) < 1024"
    by (simp_all add: frame_def)
  show ?thesis
    using job_serves_request [where s = ?s and i = 0 and a = 0 and ch = ?ch and msg = "''x''" and beyond = "[NUL]"
        and J = json_api and serve = on_request and reply = ?e and nb = 2048 and junk = "\<lambda>_. NUL" and ws = "[]",
        OF _ _ _ _ _ _ _ served _ short]
    by (auto simp: sample_channels_def sample_server_def sample_chan_def is_poll_dead_def Channel_get_msg_def
        one_byte_def poll_replies_def NUL_def)
qed

text \<open>
  \<open>stop\<close>, in any state the server can reach: every channel of the table is closed, each
  exactly once, the table is empty and the flag is set; but nothing is deleted, and \<open>select\<close> goes on
  watching the closed descriptors.
\<close>
theorem stop_closes_each_once:
  assumes "polling nb s0" "srv_runs J serve nb junk s0 s" "\<not> is_poll_dead (ps_pc s)"
  shows "\<exists>heap. PollServer_stop s = (Returns 0, s\<lparr>ps_heap := heap, ps_channels := [], ps_stop := True\<rparr>)
    \<and> dom heap = dom (ps_heap s)
    \<and> (\<forall>fd a. map_of (ps_channels s) fd = Some a \<longrightarrow>
         (\<exists>ch. heap a = Some ch \<and> \<not> ch_alive ch \<and> n_closed (ch_wire ch) = [fd]))
    \<and> pm_watched (ps_pm (snd (PollServer_stop s))) READ = insert (sc_sock s) (fst ` set (ps_channels s))"
proof -
  have inv: "table_inv s" "watch_inv s"
    using poll_invariant [OF assms(1,2)] assms(3) by (auto simp: poll_inv_def)
  have entries: "\<exists>ch. ps_heap s a = Some ch \<and> chan_ok fd ch" if "(fd, a) \<in> set (ps_channels s)" for fd a
    using inv(1) that by (auto simp: table_inv_def)
  have "distinct (map snd (ps_channels s))" and dom: "dom (ps_heap s) = snd ` set (ps_channels s)"
    using inv(1) by (simp_all add: table_inv_def)
  moreover have "\<forall>a\<in>set (map snd (ps_channels s)). \<exists>ch. ps_heap s a = Some ch \<and> ch_alive ch \<and> \<not> ch_send_mutex ch"
    using entries by (fastforce simp: chan_ok_def)
  ultimately have "close_all (map snd (ps_channels s)) (ps_heap s)
      = (Returns (), closed_heap (snd ` set (ps_channels s)) (ps_heap s))"
    using close_all_alive [of "map snd (ps_channels s)" "ps_heap s"] by simp
  then have stop: "PollServer_stop s = (Returns 0,
      s\<lparr>ps_heap := closed_heap (snd ` set (ps_channels s)) (ps_heap s), ps_channels := [], ps_stop := True\<rparr>)"
    by (simp add: PollServer_stop_def)
  have "\<exists>ch. closed_heap (snd ` set (ps_channels s)) (ps_heap s) a = Some ch \<and> \<not> ch_alive ch \<and> n_closed (ch_wire ch) = [fd]"
    if "map_of (ps_channels s) fd = Some a" for fd a
  proof -
    have entry: "(fd, a) \<in> set (ps_channels s)"
      using that by (rule map_of_SomeD)
    then obtain ch where "ps_heap s a = Some ch" "chan_ok fd ch"
      using entries by blast
    then show ?thesis
      using entry by (force simp: closed_heap_def Channel_close_def chan_ok_def)
  qed
  moreover have "dom (closed_heap A h) = dom h" for A and h :: "nat \<rightharpoonup> channel"
    by (auto simp: closed_heap_def dom_def)
  moreover have "pm_watched (ps_pm s) READ = insert (sc_sock s) (fst ` set (ps_channels s))"
    using inv(2) by (simp add: watch_inv_def)
  ultimately show ?thesis
    using stop by (intro exI [of _ "closed_heap (snd ` set (ps_channels s)) (ps_heap s)"]) simp
qed

theorem stop_closes_each_once_witness:
  "fst (PollServer_stop (sample_channels (sample_chan None [RData []] [])
     [JReply 0 (build_error json_api JSON_NOT_PARSED)] (PollReads [7] []))) = Returns 0"
  using stop_closes_each_once [OF sample_server_polling sample_reached]
  by (auto simp: is_poll_dead_def sample_channels_def)

end
