(* ===== verification/PollLink.thy ===== *)
theory PollLink
  imports Link PollServer
begin

text \<open>
  sockclient.cpp against pollserver.cpp: the client of \<open>SockClient\<close> joined to a channel of
  \<open>PollServer\<close>. Between the client's \<open>\_send\<close> and its \<open>\_recv\<close> the pieces of the request come one
  after the other; after each the polling thread goes round once, on what \<open>PollManager::poll\<close> reports of
  the sets that are watched then; and a thread of the pool takes the three steps of the job. The server may have any
  other channels and finished or waiting jobs.

  The length of a message comes with the first piece of its body, as the client writes them in one
  chunk. Should it come alone, the second \<open>read\<close> of the first callback, on a non-blocking socket, gives -1, which
  \<open>Channel::read\<close> does not look at: see \<open>eagain\_is\_taken\_for\_data\<close> in \<open>Channel\<close>.
\<close>

section \<open>The joined state\<close>

record ('h, 'v) plink =
  pl_client :: sockclient
  pl_net :: net
  pl_server :: "('h, 'v) pollserver"
  pl_fd :: int                         \<comment> \<open>the server's descriptor of the connection\<close>
  pl_addr :: nat                       \<comment> \<open>its channel\<close>
  pl_up :: nat
  pl_down :: nat
  pl_accepts :: "(int \<times> int list) list"

text \<open>
  Once round the loop, when \<open>select\<close> finds one descriptor readable: the thread works on what \<open>poll\<close> reports,
  which is nothing, and \<open>poll\<close> goes on waiting, if that descriptor is not watched.
\<close>

definition poll_round ::
  "'j jconer \<Rightarrow> ('v \<times> 'j request \<Rightarrow> (exn, int) outcome \<times> 'v \<times> 'j request) \<Rightarrow> i32 \<Rightarrow> (nat \<Rightarrow> char) \<Rightarrow>
   int \<Rightarrow> ('h, 'v) pollserver \<Rightarrow> ('h, 'v) pollserver option" where
  "poll_round J serve nb junk fd s =
     (case PollManager_poll [(ps_pm s, Selected {fd} {})] ([], []) of
        (Returns True, reads, writes) \<Rightarrow> srv_exec J serve nb junk (replicate 4 (Polled reads writes (-1))) s
      | _ \<Rightarrow> None)"

text \<open>Once round in which a connection is accepted.\<close>

definition accept_turn ::
  "'j jconer \<Rightarrow> ('v \<times> 'j request \<Rightarrow> (exn, int) outcome \<times> 'v \<times> 'j request) \<Rightarrow> i32 \<Rightarrow> (nat \<Rightarrow> char) \<Rightarrow>
   int \<Rightarrow> ('h, 'v) pollserver \<Rightarrow> ('h, 'v) pollserver option" where
  "accept_turn J serve nb junk fd s =
     (case PollManager_poll [(ps_pm s, Selected {sc_sock s} {})] ([], []) of
        (Returns True, reads, writes) \<Rightarrow>
          srv_exec J serve nb junk
            (replicate 2 (Polled reads writes fd) @ replicate 2 (Polled reads writes (-1))) s
      | _ \<Rightarrow> None)"

text \<open>What comes at a time: the length with the first piece, then each piece alone.\<close>

definition arrivals :: "rres list \<Rightarrow> rres list list" where
  "arrivals rs = (case rs of h # c # cs \<Rightarrow> [h, c] # map (\<lambda>c. [c]) cs | _ \<Rightarrow> [rs])"

text \<open>The pieces come, and the thread goes round after each.\<close>

fun take_in ::
  "'j jconer \<Rightarrow> ('v \<times> 'j request \<Rightarrow> (exn, int) outcome \<times> 'v \<times> 'j request) \<Rightarrow> i32 \<Rightarrow> (nat \<Rightarrow> char) \<Rightarrow>
   int \<Rightarrow> nat \<Rightarrow> rres list list \<Rightarrow> ('h, 'v) pollserver \<Rightarrow> ('h, 'v) pollserver option" where
  "take_in J serve nb junk fd a [] s = Some s"
| "take_in J serve nb junk fd a (rs # rss) s =
     Option.bind (poll_round J serve nb junk fd (poll_deliver a rs [] s)) (take_in J serve nb junk fd a rss)"

definition sent_by :: "('h, 'v) pollserver \<Rightarrow> nat \<Rightarrow> bytes" where
  "sent_by s a = (case ps_heap s a of None \<Rightarrow> [] | Some ch \<Rightarrow> n_sent (ch_wire ch))"

text \<open>
  The client's new bytes come and are served; a turn the server cannot make changes nothing, and
  the client waits.
\<close>

definition plink_turn ::
  "'j jconer \<Rightarrow> ('v \<times> 'j request \<Rightarrow> (exn, int) outcome \<times> 'v \<times> 'j request) \<Rightarrow> i32 \<Rightarrow> (nat \<Rightarrow> char) \<Rightarrow> bytes \<Rightarrow>
   (bytes \<Rightarrow> bytes list) \<Rightarrow> ('h, 'v) plink \<Rightarrow> ('h, 'v) plink" where
  "plink_turn J serve nb junk beyond chop l =
     (let sent = n_sent (pl_net l);
          rs = segments chop (drop (pl_up l) sent);
          s = pl_server l
      in case Option.bind (take_in J serve nb junk (pl_fd l) (pl_addr l) (arrivals rs) s)
                (srv_exec J serve nb junk (replicate 3 (Pooled (length (ps_jobs s)) beyond))) of
           None \<Rightarrow> l
         | Some s' \<Rightarrow>
             (let got = sent_by s' (pl_addr l) in
              l\<lparr>pl_server := s', pl_up := length sent, pl_down := length got,
                pl_net := (pl_net l)\<lparr>n_reads := n_reads (pl_net l) @ segments chop (drop (pl_down l) got)\<rparr>\<rparr>))"

definition on_plink :: "(net \<Rightarrow> (exn, 'a) outcome \<times> net) \<Rightarrow> ('h, 'v) plink \<Rightarrow>
    (exn, 'a) outcome \<times> ('h, 'v) plink" where
  "on_plink f l = (case f (pl_net l) of (r, n) \<Rightarrow> (r, l\<lparr>pl_net := n\<rparr>))"

text \<open>\<open>reconnect\<close>, and the round of the loop in which the server accepts.\<close>

definition plink_rc ::
  "'j jconer \<Rightarrow> ('v \<times> 'j request \<Rightarrow> (exn, int) outcome \<times> 'v \<times> 'j request) \<Rightarrow> i32 \<Rightarrow> (nat \<Rightarrow> char) \<Rightarrow>
   ('h, 'v) plink \<Rightarrow> (exn, unit) outcome \<times> ('h, 'v) plink" where
  "plink_rc J serve nb junk l =
     (case SockClient_reconnect (pl_client l) (pl_net l) of
        (r, c, n) \<Rightarrow>
          (let l' = l\<lparr>pl_client := c, pl_net := n\<rparr>; s = pl_server l in
           case r of
             Returns _ \<Rightarrow>
               (case pl_accepts l of
                  [] \<Rightarrow> (Waits, l')
                | (fd, ws) # later \<Rightarrow>
                    (case accept_turn J serve nb junk fd s of
                       None \<Rightarrow> (Waits, l')
                     | Some s' \<Rightarrow>
                         (Returns (), l'\<lparr>pl_net := n\<lparr>n_reads := []\<rparr>, pl_server := poll_deliver (ps_next s) [] ws s',
                            pl_fd := fd, pl_addr := ps_next s, pl_up := length (n_sent n), pl_down := 0,
                            pl_accepts := later\<rparr>)))
           | _ \<Rightarrow> (r, l')))"

definition plink_sr ::
  "'j jconer \<Rightarrow> ('v \<times> 'j request \<Rightarrow> (exn, int) outcome \<times> 'v \<times> 'j request) \<Rightarrow> i32 \<Rightarrow> (nat \<Rightarrow> char) \<Rightarrow> bytes \<Rightarrow>
   (bytes \<Rightarrow> bytes list) \<Rightarrow> bytes \<Rightarrow> ('h, 'v) plink \<Rightarrow> (exn, bytes) outcome \<times> ('h, 'v) plink" where
  "plink_sr J serve nb junk beyond chop message l =
     pbind (if cl_sock (pl_client l) = UNINIT_SOCKET then plink_rc J serve nb junk l else (Returns (), l)) (\<lambda>_ l.
     pbind (on_plink (\<lambda>n. SockClient_send junk n message) l) (\<lambda>_ l.
     on_plink (SockClient_recv junk) (plink_turn J serve nb junk beyond chop l)))"

section \<open>A message and its reply\<close>

lemma srv_exec_append:
  "srv_exec J serve nb junk (es @ fs) s
    = Option.bind (srv_exec J serve nb junk es s) (srv_exec J serve nb junk fs)"
proof (induction es arbitrary: s)
  case (Cons e es)
  then show ?case
    by (cases e) (auto simp: Option.bind_assoc intro!: bind_option_cong)
qed simp

definition at_channel :: "('h, 'v) pollserver \<Rightarrow> int \<Rightarrow> nat \<Rightarrow> channel \<Rightarrow> bool" where
  "at_channel s fd a ch \<longleftrightarrow> ps_pc s = PollHead \<and> \<not> ps_stop s \<and> map_of (ps_channels s) fd = Some a
     \<and> ps_heap s a = Some ch \<and> fd \<noteq> sc_sock s \<and> -1 \<notin> insert (sc_sock s) (fst ` set (ps_channels s))
     \<and> pm_inv (ps_pm s) \<and> fd \<in> pm_watched (ps_pm s) READ"

lemma filter_one: "distinct xs \<Longrightarrow> x \<in> set xs \<Longrightarrow> filter (\<lambda>i. i = x) xs = [x]"
  by (induction xs) (auto simp: filter_empty_conv)

lemma reports_one:
  assumes "pm_inv p" "fd \<in> pm_watched p READ"
  shows "PollManager_poll [(p, Selected {fd} {})] ([], []) = (Returns True, [fd], [])"
proof -
  have "filter (\<lambda>i. i \<in> pm_watched p READ \<inter> {fd}) (fds_upto (pm_highest p)) = filter (\<lambda>i. i = fd) (fds_upto (pm_highest p))"
    using assms(2) by (intro filter_cong) auto
  also have "\<dots> = [fd]"
    using below_highest [OF assms] sorted_fds_upto(2,3) [of "pm_highest p"]
    by (intro filter_one) auto
  finally show ?thesis
    by (simp add: poll_turn_reads [OF assms(1)] Let_def)
qed

lemma round_reads:
  assumes "at_channel s fd a ch" "Channel_read junk ch = (Returns st, ch')" "st = READ_PENDING \<or> st = READ_READY"
  shows "poll_round J serve nb junk fd s = Some ((if st = READ_READY then add_job a else id) (put_channel a ch' s))"
proof -
  have "PollManager_poll [(ps_pm s, Selected {fd} {})] ([], []) = (Returns True, [fd], [])"
    using assms(1) by (intro reports_one) (simp_all add: at_channel_def)
  then show ?thesis
    using assms
    by (auto simp: at_channel_def poll_round_def numeral_Bit0 numeral_3_eq_3 poll_step_def read_callback_def go_on_def
        put_channel_def add_job_def simp del: PollManager_poll.simps)
qed

lemma at_channel_put: "at_channel s fd a ch \<Longrightarrow> at_channel (put_channel a ch' s) fd a ch'"
  by (simp add: at_channel_def put_channel_def)

lemma put_put [simp]: "put_channel a ch (put_channel a ch' s) = put_channel a ch s"
  by (simp add: put_channel_def)

lemma at_deliver:
  "at_channel s fd a ch \<Longrightarrow> poll_deliver a rs [] s
    = put_channel a (ch\<lparr>ch_wire := (ch_wire ch)\<lparr>n_reads := n_reads (ch_wire ch) @ rs\<rparr>\<rparr>) s"
  by (simp add: at_channel_def poll_deliver_def)

lemma take_pieces:
  assumes "at_channel s fd a (reading ch b False [])" "swron_inv b" "list_all (\<lambda>c. length c \<le> CHUNK) cs" "cs \<noteq> []"
    "length (contents b @ concat (butlast cs)) < unat (wr_size b)"
    "unat (wr_size b) \<le> length (contents b @ concat cs)"
  shows "\<exists>b'. take_in J serve nb junk fd a (map (\<lambda>c. [RData c]) cs) s = Some (add_job a (put_channel a (reading ch b' True []) s))
    \<and> contents b' = take (unat (wr_size b)) (contents b @ concat cs) \<and> swron_inv b' \<and> wr_size b' = wr_size b"
  using assms
proof (induction cs arbitrary: b s)
  case (Cons c cs)
  obtain b' where b': "Channel_read_chunk junk (reading ch b False [RData c]) b =
      (Returns (if unat (wr_size b) \<le> length (contents b @ c) then READ_READY else READ_PENDING),
       reading ch b' (unat (wr_size b) \<le> length (contents b @ c)) [])"
      "swron_inv b'" "wr_size b' = wr_size b" "contents b' = take (unat (wr_size b)) (contents b @ c)"
    using read_chunk_data [of b c junk ch "[]"] Cons.prems by auto
  have come: "poll_deliver a [RData c] [] s = put_channel a (reading ch b False [RData c]) s"
    using at_deliver [OF Cons.prems(1), of "[RData c]"] by (simp add: reading_def)
  have "Channel_read junk (reading ch b False [RData c]) =
      (Returns (if unat (wr_size b) \<le> length (contents b @ c) then READ_READY else READ_PENDING),
       reading ch b' (unat (wr_size b) \<le> length (contents b @ c)) [])"
    using b'(1) by (simp add: read_reading)
  note one = round_reads [OF at_channel_put [OF Cons.prems(1)] this, of J serve nb]
  show ?case
  proof (cases "cs = []")
    case True
    then show ?thesis
      using b' Cons.prems(6) one by (intro exI [of _ b']) (simp add: come)
  next
    case False
    then have short: "length (contents b @ c) < unat (wr_size b)"
      using Cons.prems(5) by simp
    then have "contents b' = contents b @ c"
      using b'(4) by simp
    then obtain b'' where "take_in J serve nb junk fd a (map (\<lambda>c. [RData c]) cs) (put_channel a (reading ch b' False []) s)
        = Some (add_job a (put_channel a (reading ch b'' True []) (put_channel a (reading ch b' False []) s)))"
        "contents b'' = take (unat (wr_size b)) (contents b @ c @ concat cs)"
        "swron_inv b''" "wr_size b'' = wr_size b"
      using Cons.IH [OF at_channel_put [OF Cons.prems(1)] b'(2)] Cons.prems False b'(3) by auto
    then show ?thesis
      using short one by (intro exI [of _ b'']) (simp add: come)
  qed
qed simp

text \<open>A connection with nothing under way.\<close>

definition calm :: "channel \<Rightarrow> bool" where
  "calm ch \<longleftrightarrow> ch_alive ch \<and> \<not> ch_send_mutex ch \<and> \<not> ch_busy ch \<and> ch_write_buffer ch = None
     \<and> n_reads (ch_wire ch) = []"

text \<open>Three steps of one job that end well did not pass through the end of the process.\<close>

lemma pool_dead: "pool_step J serve nb junk beyond i s = Some t \<Longrightarrow> is_poll_dead (ps_pc s) \<Longrightarrow> is_poll_dead (ps_pc t)"
  by (auto simp: pool_step_def job_step_def put_channel_def dies_def is_poll_dead_def
      split: if_splits job.splits option.splits outcome.splits prod.splits exn.splits)

lemma pooled_thrice:
  assumes "Option.bind (Option.bind (pool_step J serve nb junk beyond i s) (pool_step J serve nb junk beyond i))
        (pool_step J serve nb junk beyond i) = Some t" "\<not> is_poll_dead (ps_pc t)"
  shows "srv_exec J serve nb junk (replicate 3 (Pooled i beyond)) s = Some t"
proof -
  obtain u v where u: "pool_step J serve nb junk beyond i s = Some u" "pool_step J serve nb junk beyond i u = Some v"
      "pool_step J serve nb junk beyond i v = Some t"
    using assms(1) by (auto simp: Option.bind_eq_Some_conv)
  then have "\<not> is_poll_dead (ps_pc v)" "\<not> is_poll_dead (ps_pc u)" "\<not> is_poll_dead (ps_pc s)"
    using assms(2) pool_dead by blast+
  then show ?thesis
    using u by (simp add: numeral_3_eq_3)
qed

lemma pieces_bounds:
  assumes "pieces msg cs"
  shows "0 < length msg" "list_all (\<lambda>c. length c \<le> CHUNK) cs" "cs \<noteq> []" "length (concat (butlast cs)) < length msg"
    "length msg \<le> length (concat cs)"
proof -
  obtain xs x where "cs = xs @ [x]"
    using assms by (cases cs rule: rev_cases) (auto simp: pieces_def)
  then show "0 < length msg" "list_all (\<lambda>c. length c \<le> CHUNK) cs" "cs \<noteq> []" "length (concat (butlast cs)) < length msg"
      "length msg \<le> length (concat cs)"
    using assms by (auto simp: pieces_def list_all_iff)
qed

text \<open>The server takes a request that has come and answers it.\<close>

lemma take_message:
  assumes "at_channel s fd a ch" "calm ch" "pieces msg cs" "length msg < 2 ^ 31"
  shows "\<exists>b. take_in J serve nb junk fd a (arrivals (request_reads msg cs)) s
      = Some (add_job a (put_channel a (reading ch b True []) s)) \<and> write_only_str b = msg"
proof -
  let ?h = "RData (int_bytes (word_of_nat (length msg)))"
  have msg: "0 < length msg" "list_all (\<lambda>c. length c \<le> CHUNK) cs" "cs \<noteq> []" "length (concat (butlast cs)) < length msg"
      "length msg \<le> length (concat cs)"
    using pieces_bounds [OF assms(3)] by simp_all
  obtain c ds where cs: "cs = c # ds"
    using msg(3) by (cases cs) auto
  let ?ch = "ch\<lparr>ch_wire := (ch_wire ch)\<lparr>n_reads := [?h, RData c]\<rparr>\<rparr>"
  have come: "poll_deliver a [?h, RData c] [] s = put_channel a ?ch s"
    using at_deliver [OF assms(1), of "[?h, RData c]"] assms(2) by (simp add: calm_def)
  have "\<not> ch_busy ?ch" "ch_write_buffer ?ch = None" "n_reads (ch_wire ?ch) = ?h # [RData c]"
    using assms(2) by (simp_all add: calm_def)
  then obtain b where b: "swron_inv b" "unat (wr_size b) = length msg" "wr_pos b = 0"
      "Channel_read junk ?ch = Channel_read_chunk junk (reading ?ch b False [RData c]) b"
    using read_header [OF _ _ msg(1) assms(4)] by blast
  have same: "reading ?ch b x rs = reading ch b x rs" for b x rs
    by (simp add: reading_def)
  have none: "contents b = []"
    using b(3) by (rule contents_new_sized)
  have "swron_inv b" "length c \<le> CHUNK"
    using b(1) msg(2) cs by simp_all
  then obtain b' where b': "Channel_read junk ?ch =
      (Returns (if length msg \<le> length c then READ_READY else READ_PENDING), reading ch b' (length msg \<le> length c) [])"
      "swron_inv b'" "wr_size b' = wr_size b" "contents b' = take (length msg) c"
    using read_chunk_data [of b c junk ?ch "[]"] b(2,4) none by (auto simp: same)
  note one = round_reads [OF at_channel_put [OF assms(1)] b'(1), of J serve nb]
  have arr: "arrivals (request_reads msg (c # ds)) = [?h, RData c] # map (\<lambda>c. [RData c]) ds"
    by (simp add: arrivals_def request_reads_def size_as_int_def)
  have whole: "write_only_str b'' = msg" if "contents b'' = take (length msg) (concat cs)" "swron_inv b''"
      "wr_size b'' = wr_size b" for b''
  proof -
    have "concat cs = msg"
      using assms(3) by (simp add: pieces_def)
    then have "contents b'' = msg"
      using that(1) by simp
    moreover from this have "length (contents b'') = length (write_only_str b'')"
      using that(2,3) b(2) by (simp add: swron_inv_def)
    then have "length (write_only_str b'') \<le> unat (wr_pos b'')"
      by (auto simp: contents_def min_def split: if_splits)
    ultimately show ?thesis
      by (simp add: contents_def)
  qed
  show ?thesis
  proof (cases "ds = []")
    case True
    then have "length msg \<le> length c"
      using msg(5) cs by simp
    then show ?thesis
      using one whole [OF _ b'(2,3)] b'(4) True arr by (intro exI [of _ b']) (simp add: cs come)
  next
    case False
    then have short: "length c < length msg"
      using msg(4) cs by simp
    then have "contents b' = c"
      using b'(4) by simp
    then obtain b'' where "take_in J serve nb junk fd a (map (\<lambda>c. [RData c]) ds) (put_channel a (reading ch b' False []) s)
        = Some (add_job a (put_channel a (reading ch b'' True []) (put_channel a (reading ch b' False []) s)))"
        "contents b'' = take (length msg) (c @ concat ds)" "swron_inv b''" "wr_size b'' = wr_size b"
      using take_pieces [where cs = ds and ch = ch and nb = nb and J = J and serve = serve and junk = junk, OF at_channel_put [OF assms(1)] b'(2)] msg cs False b(2) b'(3) by auto
    then show ?thesis
      using one short whole [of b''] arr by (intro exI [of _ b'']) (simp add: cs come)
  qed
qed

text \<open>The server takes a request that comes in pieces, and answers it.\<close>

lemma poll_answers:
  assumes "json_laws J" "at_channel s fd a ch" "calm ch" "cstring beyond = Some []"
    "pieces msg cs" "length msg < 2 ^ 31" "NUL \<notin> set msg"
    "serve_message J serve (ps_service s) msg = (Returns p, sv)" "reply = build_response J p"
    "length (frame reply) < 1024" "n_writes (ch_wire ch) = int (length (frame reply)) # ws"
  shows "\<exists>ch'. Option.bind (take_in J serve nb junk fd a (arrivals (request_reads msg cs)) s)
        (srv_exec J serve nb junk (replicate 3 (Pooled (length (ps_jobs s)) beyond)))
      = Some (s\<lparr>ps_service := sv, ps_jobs := ps_jobs s @ [JDone], ps_heap := (ps_heap s)(a \<mapsto> ch')\<rparr>)
    \<and> calm ch' \<and> n_writes (ch_wire ch') = ws \<and> n_sent (ch_wire ch') = n_sent (ch_wire ch) @ frame reply"
proof -
  obtain b where b: "take_in J serve nb junk fd a (arrivals (request_reads msg cs)) s
      = Some (add_job a (put_channel a (reading ch b True []) s))" "write_only_str b = msg"
    using take_message [OF assms(2,3,5,6)] by blast
  let ?ch1 = "reading ch b True []"
  let ?s1 = "add_job a (put_channel a ?ch1 s)" and ?i = "length (ps_jobs s)"
  have reply: "reply \<noteq> []" "poll_replies J (Returns p) = [reply]"
    using dumps_text(1) [OF assms(1)] assms(9) by (simp_all add: build_response_def poll_replies_def)
  have "Channel_get_msg beyond ?ch1 = Returns msg"
    using b(2) assms(4) cstring_append [OF assms(7)] by (simp add: Channel_get_msg_def reading_def)
  moreover have "serve_message J serve (ps_service ?s1) msg = (Returns p, sv)"
    using assms(8) by (simp add: add_job_def put_channel_def)
  ultimately obtain rb where job: "Option.bind (Option.bind (pool_step J serve nb junk beyond ?i ?s1)
        (pool_step J serve nb junk beyond ?i)) (pool_step J serve nb junk beyond ?i)
      = Some (?s1\<lparr>ps_service := sv, ps_jobs := (ps_jobs ?s1)[?i := JDone],
          ps_heap := (ps_heap ?s1)(a \<mapsto> (Channel_clear_msg ?ch1)\<lparr>ch_read_buffer := Some rb,
            ch_wire := (ch_wire ?ch1)\<lparr>n_writes := ws, n_sent := n_sent (ch_wire ?ch1) @ frame reply\<rparr>,
            ch_send_mutex := False, ch_bad_unlocks := ch_bad_unlocks ?ch1 + 1\<rparr>)\<rparr>)"
    using job_serves [where s = ?s1 and i = ?i and a = a and ch = ?ch1 and beyond = beyond and msg = msg
        and J = J and serve = serve and r = "Returns p" and sv = sv and reply = reply and ws = ws and nb = nb and junk = junk]
      assms(2,3,10,11) reply
    by (auto simp: at_channel_def calm_def add_job_def put_channel_def reading_def is_poll_dead_def)
  let ?ch' = "(Channel_clear_msg ?ch1)\<lparr>ch_read_buffer := Some rb,
            ch_wire := (ch_wire ?ch1)\<lparr>n_writes := ws, n_sent := n_sent (ch_wire ?ch1) @ frame reply\<rparr>,
            ch_send_mutex := False, ch_bad_unlocks := ch_bad_unlocks ?ch1 + 1\<rparr>"
  have t: "?s1\<lparr>ps_service := sv, ps_jobs := (ps_jobs ?s1)[?i := JDone], ps_heap := (ps_heap ?s1)(a \<mapsto> ?ch')\<rparr>
      = s\<lparr>ps_service := sv, ps_jobs := ps_jobs s @ [JDone], ps_heap := (ps_heap s)(a \<mapsto> ?ch')\<rparr>"
    by (simp add: add_job_def put_channel_def)
  have "\<not> is_poll_dead (ps_pc s)"
    using assms(2) by (simp add: at_channel_def is_poll_dead_def)
  then have "srv_exec J serve nb junk (replicate 3 (Pooled ?i beyond)) ?s1
      = Some (s\<lparr>ps_service := sv, ps_jobs := ps_jobs s @ [JDone], ps_heap := (ps_heap s)(a \<mapsto> ?ch')\<rparr>)"
    using pooled_thrice [OF job] unfolding t by simp
  then show ?thesis
    using b(1) assms(3)
    by (intro exI [of _ ?ch']) (simp add: calm_def reading_def Channel_clear_msg_def)
qed

text \<open>These are runs of the server.\<close>

lemma poll_round_runs: "poll_round J serve nb junk fd s = Some t \<Longrightarrow> srv_runs J serve nb junk s t"
  by (auto simp: poll_round_def simp del: PollManager_poll.simps dest: srv_exec_runs
      split: prod.splits outcome.splits bool.splits)

lemma take_in_runs: "take_in J serve nb junk fd a rss s = Some t \<Longrightarrow> srv_runs J serve nb junk s t"
proof (induction rss arbitrary: s)
  case (Cons rs rss)
  then obtain u where "poll_round J serve nb junk fd (poll_deliver a rs [] s) = Some u" "srv_runs J serve nb junk u t"
    by (auto simp: Option.bind_eq_Some_conv)
  then show ?case
    using poll_round_runs srv_moves.kernel [of J serve nb junk s a rs "[]"]
    by (meson converse_rtranclp_into_rtranclp rtranclp_trans)
qed simp

section \<open>The promise\<close>

definition plink_ready :: "('h, 'v) plink \<Rightarrow> bool" where
  "plink_ready l \<longleftrightarrow> cl_sock (pl_client l) \<noteq> UNINIT_SOCKET \<and> n_reads (pl_net l) = []
     \<and> pl_up l = length (n_sent (pl_net l)) \<and> pl_down l = length (sent_by (pl_server l) (pl_addr l))
     \<and> (\<exists>ch. at_channel (pl_server l) (pl_fd l) (pl_addr l) ch \<and> calm ch)"

text \<open>The writes that the kernel takes: those of the client's loop, and one for every reply.\<close>

definition plink_carries :: "('h, 'v) plink \<Rightarrow> (bytes \<times> bytes) list \<Rightarrow> bool" where
  "plink_carries l xs \<longleftrightarrow>
     (\<exists>ws ch ws'. n_writes (pl_net l) = concat (map (\<lambda>x. all_writes (fst x)) xs) @ ws
        \<and> ps_heap (pl_server l) (pl_addr l) = Some ch
        \<and> n_writes (ch_wire ch) = map (\<lambda>x. int (length (frame (snd x)))) xs @ ws')"

text \<open>What the client can read and the server can send: the frame is in one chunk of the server.\<close>

definition poll_fits :: "(nat \<Rightarrow> char) \<Rightarrow> bytes \<Rightarrow> bool" where
  "poll_fits junk msg \<longleftrightarrow> legible junk msg \<and> length (frame msg) < 1024"

lemma plink_carries_zip:
  assumes "length ms = length rs" "n_writes (pl_net l) = concat (map all_writes ms) @ ws"
    "ps_heap (pl_server l) (pl_addr l) = Some ch" "n_writes (ch_wire ch) = map (\<lambda>r. int (length (frame r))) rs @ ws'"
  shows "plink_carries l (zip ms rs)"
proof -
  have "map (\<lambda>x. all_writes (fst x)) (zip ms rs) = map all_writes (map fst (zip ms rs))"
    "map (\<lambda>x. int (length (frame (snd x)))) (zip ms rs) = map (\<lambda>r. int (length (frame r))) (map snd (zip ms rs))"
    by simp_all
  then show ?thesis
    using assms by (simp add: plink_carries_def del: map_map)
qed

lemma plink_exchange:
  assumes "json_laws J" "cuts chop" "cstring beyond = Some []" "plink_ready l" "msg \<noteq> []" "NUL \<notin> set msg" "length msg < 2 ^ 31"
    "serve_message J serve (ps_service (pl_server l)) msg = (Returns p, sv)"
    "poll_fits junk (build_response J p)" "plink_carries l ((msg, build_response J p) # xs)"
  shows "\<exists>l'. plink_sr J serve nb junk beyond chop msg l = (Returns (build_response J p), l') \<and> plink_ready l'
    \<and> ps_service (pl_server l') = sv \<and> plink_carries l' xs \<and> n_sent (pl_net l') = n_sent (pl_net l) @ frame msg
    \<and> sent_by (pl_server l') (pl_addr l') = sent_by (pl_server l) (pl_addr l) @ frame (build_response J p)
    \<and> srv_runs J serve nb junk (pl_server l) (pl_server l')"
proof -
  let ?r = "build_response J p" and ?a = "pl_addr l" and ?s = "pl_server l"
  obtain ch where ch: "at_channel ?s (pl_fd l) ?a ch" "calm ch" "ps_heap ?s ?a = Some ch"
    using assms(4) by (auto simp: plink_ready_def at_channel_def)
  obtain ws ws' where ws: "n_writes (pl_net l) = all_writes msg @ concat (map (\<lambda>x. all_writes (fst x)) xs) @ ws"
      "n_writes (ch_wire ch) = int (length (frame ?r)) # map (\<lambda>x. int (length (frame (snd x)))) xs @ ws'"
    using assms(10) ch(3) by (auto simp: plink_carries_def)
  let ?w = "concat (map (\<lambda>x. all_writes (fst x)) xs) @ ws" and ?w' = "map (\<lambda>x. int (length (frame (snd x)))) xs @ ws'"
  let ?n = "(pl_net l)\<lparr>n_sent := n_sent (pl_net l) @ frame msg, n_writes := ?w\<rparr>"
  have r: "?r \<noteq> []" "NUL \<notin> set ?r"
    using dumps_text [OF assms(1)] by (simp_all add: build_response_def)
  have cut: "pieces msg (chop msg)" "pieces ?r (chop ?r)"
    using assms(2,5) r(1) by (simp_all add: cuts_def)
  have fit: "legible junk ?r" "length (frame ?r) < 1024"
    using assms(9) by (simp_all add: poll_fits_def)
  have send: "on_plink (\<lambda>n. SockClient_send junk n msg) l = (Returns (), l\<lparr>pl_net := ?n\<rparr>)"
    using SockClient_send_all [OF assms(5,7), of "pl_net l" ?w junk] ws(1) by (simp add: on_plink_def all_writes_def)
  obtain ch' where ch': "Option.bind (take_in J serve nb junk (pl_fd l) ?a (arrivals (request_reads msg (chop msg))) ?s)
        (srv_exec J serve nb junk (replicate 3 (Pooled (length (ps_jobs ?s)) beyond)))
      = Some (?s\<lparr>ps_service := sv, ps_jobs := ps_jobs ?s @ [JDone], ps_heap := (ps_heap ?s)(?a \<mapsto> ch')\<rparr>)"
    "calm ch'" "n_writes (ch_wire ch') = ?w'" "n_sent (ch_wire ch') = n_sent (ch_wire ch) @ frame ?r"
    using poll_answers [OF assms(1) ch(1,2) assms(3) cut(1) assms(7,6,8) refl fit(2) ws(2)] by blast
  let ?s' = "?s\<lparr>ps_service := sv, ps_jobs := ps_jobs ?s @ [JDone], ps_heap := (ps_heap ?s)(?a \<mapsto> ch')\<rparr>"
  have runs: "srv_runs J serve nb junk ?s ?s'"
  proof -
    obtain u where "take_in J serve nb junk (pl_fd l) ?a (arrivals (request_reads msg (chop msg))) ?s = Some u"
        "srv_exec J serve nb junk (replicate 3 (Pooled (length (ps_jobs ?s)) beyond)) u = Some ?s'"
      using ch'(1) unfolding Option.bind_eq_Some_conv by blast
    then show ?thesis
      by (rule rtranclp_trans [OF take_in_runs srv_exec_runs])
  qed
  have sent: "sent_by ?s ?a = n_sent (ch_wire ch)" "sent_by ?s' ?a = n_sent (ch_wire ch) @ frame ?r"
    using ch(3) ch'(4) by (simp_all add: sent_by_def)
  have turn: "plink_turn J serve nb junk beyond chop (l\<lparr>pl_net := ?n\<rparr>) =
      l\<lparr>pl_server := ?s', pl_up := length (n_sent ?n), pl_down := length (sent_by ?s' ?a),
        pl_net := ?n\<lparr>n_reads := request_reads ?r (chop ?r)\<rparr>\<rparr>"
    using assms(4,5) r(1) ch'(1) sent by (simp add: plink_turn_def Let_def plink_ready_def segments_frame)
  have "SockClient_recv junk (?n\<lparr>n_reads := request_reads ?r (chop ?r)\<rparr>) = (Returns ?r, ?n\<lparr>n_reads := []\<rparr>)"
    using SockClient_recv_small [of ?r "chop ?r" "?n\<lparr>n_reads := request_reads ?r (chop ?r)\<rparr>" "[]" junk]
      cut(2) fit(1) r by (simp add: legible_def request_reads_def)
  then have "plink_sr J serve nb junk beyond chop msg l =
      (Returns ?r, l\<lparr>pl_server := ?s', pl_up := length (n_sent ?n), pl_down := length (sent_by ?s' ?a),
        pl_net := ?n\<lparr>n_reads := []\<rparr>\<rparr>)"
    using assms(4) by (simp add: plink_sr_def plink_ready_def send turn) (simp add: on_plink_def)
  moreover have "at_channel ?s' (pl_fd l) ?a ch'"
    using ch(1) by (simp add: at_channel_def)
  ultimately show ?thesis
    using assms(4) ch'(2,3) sent runs by (simp add: plink_ready_def plink_carries_def) blast
qed

interpretation pl: rpc_link J serve "plink_sr J serve nb junk beyond chop" "plink_rc J serve nb junk"
    "\<lambda>l. cuts chop \<and> cstring beyond = Some [] \<and> plink_ready l \<and> srv_runs J serve nb junk s0 (pl_server l)"
    "\<lambda>l. ps_service (pl_server l)" "\<lambda>l. n_sent (pl_net l)" "\<lambda>l. sent_by (pl_server l) (pl_addr l)"
    plink_carries "poll_fits junk" for J serve nb junk beyond chop s0
proof (unfold_locales, elim conjE)
  show "\<exists>l'. plink_sr J serve nb junk beyond chop msg l = (Returns (build_response J p), l')
      \<and> (cuts chop \<and> cstring beyond = Some [] \<and> plink_ready l' \<and> srv_runs J serve nb junk s0 (pl_server l'))
      \<and> ps_service (pl_server l') = sv \<and> plink_carries l' xs
      \<and> n_sent (pl_net l') = n_sent (pl_net l) @ frame msg
      \<and> sent_by (pl_server l') (pl_addr l') = sent_by (pl_server l) (pl_addr l) @ frame (build_response J p)"
    if "json_laws J" "msg \<noteq> []" "NUL \<notin> set msg" "length msg < 2 ^ 31"
      "serve_message J serve (ps_service (pl_server l)) msg = (Returns p, sv)" "poll_fits junk (build_response J p)"
      "plink_carries l ((msg, build_response J p) # xs)" "cuts chop" "cstring beyond = Some []" "plink_ready l"
      "srv_runs J serve nb junk s0 (pl_server l)"
    for l :: "('c, 'b) plink" and msg p sv xs
  proof -
    note hyps = that
    obtain l' where "plink_sr J serve nb junk beyond chop msg l = (Returns (build_response J p), l') \<and> plink_ready l'
      \<and> ps_service (pl_server l') = sv \<and> plink_carries l' xs \<and> n_sent (pl_net l') = n_sent (pl_net l) @ frame msg
      \<and> sent_by (pl_server l') (pl_addr l') = sent_by (pl_server l) (pl_addr l) @ frame (build_response J p)
      \<and> srv_runs J serve nb junk (pl_server l) (pl_server l')"
      using plink_exchange [OF hyps(1,8,9,10,2-7), of nb] by blast
    moreover from this have "srv_runs J serve nb junk s0 (pl_server l')"
      using hyps(11) by (metis rtranclp_trans)
    ultimately show ?thesis
      using hyps(8,9) by blast
  qed
qed

section \<open>Connecting\<close>

text \<open>A connection to a server that is at the head of its loop, in any state it can reach.\<close>

lemma accept_round:
  assumes "table_inv s" "watch_inv s" "ps_pc s = PollHead" "\<not> ps_stop s" "fd_ok fd"
    "fd \<notin> insert (sc_sock s) (fst ` set (ps_channels s))"
  shows "\<exists>s' ch. accept_turn J serve nb junk fd s = Some s' \<and> srv_runs J serve nb junk s s'
    \<and> at_channel (poll_deliver (ps_next s) [] ws s') fd (ps_next s) ch \<and> calm ch \<and> n_sent (ch_wire ch) = []
    \<and> n_writes (ch_wire ch) = ws \<and> ps_service (poll_deliver (ps_next s) [] ws s') = ps_service s"
proof -
  obtain p where p: "PollManager_watch nb (ps_pm s) fd READ = Inr p" "pm_inv p" "fd \<in> pm_watched p READ"
    using pm.watch_law [of "ps_pm s" fd nb READ] assms(2,5) by (auto simp: watch_inv_def)
  have report: "PollManager_poll [(ps_pm s, Selected {sc_sock s} {})] ([], []) = (Returns True, [sc_sock s], [])"
    using assms(2) by (intro reports_one) (simp_all add: watch_inv_def)
  have "pm_watched (ps_pm s) READ \<subseteq> {fd. fd_ok fd}"
    using assms(2) by (auto simp: watch_inv_def pm_inv_def pm_watched_def)
  then have ok: "\<forall>c \<in> insert (sc_sock s) (fst ` set (ps_channels s)). fd_ok c"
    using assms(2) by (auto simp: watch_inv_def)
  have neg: "fd \<noteq> -1" "-1 \<notin> insert (sc_sock s) (fst ` set (ps_channels s))"
    using ok assms(5) by (auto simp: fd_ok_def)
  obtain ch fds where ch: "Channel nb (pm_flags p) fd \<lparr>n_writes = [], n_reads = [], n_sent = [], n_closed = []\<rparr> = (ch, fds)"
      "ch_wire ch = \<lparr>n_writes = [], n_reads = [], n_sent = [], n_closed = []\<rparr>" "calm ch"
    by (simp add: Channel_def calm_def)
  have fresh: "fd \<notin> fst ` set (ps_channels s)"
    using assms(6) by blast
  let ?s' = "s\<lparr>ps_pm := p\<lparr>pm_flags := fds\<rparr>, ps_heap := (ps_heap s)(ps_next s \<mapsto> ch),
      ps_channels := ps_channels s @ [(fd, ps_next s)], ps_next := ps_next s + 1\<rparr>"
  let ?ch = "ch\<lparr>ch_wire := (ch_wire ch)\<lparr>n_writes := ws\<rparr>\<rparr>"
  have "accept_channel nb fd u = u\<lparr>ps_pm := p\<lparr>pm_flags := fds\<rparr>, ps_heap := (ps_heap s)(ps_next s \<mapsto> ch),
      ps_channels := ps_channels s @ [(fd, ps_next s)], ps_next := ps_next s + 1\<rparr>" if "u = s\<lparr>ps_pc := pc\<rparr>" for u pc
    using p(1) ch(1) fresh neg(1) that by (simp add: accept_channel_def AList_update_fresh)
  then have round: "srv_exec J serve nb junk (replicate 2 (Polled [sc_sock s] [] fd) @ replicate 2 (Polled [sc_sock s] [] (-1))) s
      = Some ?s'"
    using assms(3,4,6) neg by (simp add: numeral_2_eq_2 poll_step_def go_on_def)
  then have "accept_turn J serve nb junk fd s = Some ?s'"
    by (simp only: accept_turn_def report prod.case outcome.case bool.case)
  moreover have "poll_deliver (ps_next s) [] ws ?s' = put_channel (ps_next s) ?ch ?s'"
    using ch(2) by (simp add: poll_deliver_def)
  moreover have "at_channel (put_channel (ps_next s) ?ch ?s') fd (ps_next s) ?ch"
    using assms(3,4,6) neg map_of_eq_None_iff [THEN iffD2, OF fresh] p(2,3)
    by (simp add: at_channel_def put_channel_def map_add_def pm_inv_def pm_watched_def)
  ultimately show ?thesis
    using ch(2,3) srv_exec_runs [OF round] by (intro exI [of _ ?s'] exI [of _ ?ch]) (simp add: calm_def put_channel_def)
qed

lemma plink_rc_ok:
  assumes "polling nb s0" "srv_runs J serve nb junk s0 (pl_server l)" "ps_pc (pl_server l) = PollHead" "\<not> ps_stop (pl_server l)"
    "n_tries (pl_net l) = tries # later" "\<not> list_all refuses tries" "pl_accepts l = (fd, ws) # rest"
    "fd_ok fd" "fd \<notin> insert (sc_sock (pl_server l)) (fst ` set (ps_channels (pl_server l)))"
  shows "\<exists>l' ch. plink_rc J serve nb junk l = (Returns (), l') \<and> plink_ready l'
    \<and> srv_runs J serve nb junk s0 (pl_server l') \<and> ps_service (pl_server l') = ps_service (pl_server l)
    \<and> n_writes (pl_net l') = n_writes (pl_net l) \<and> n_sent (pl_net l') = n_sent (pl_net l)
    \<and> pl_fd l' = fd \<and> ps_heap (pl_server l') (pl_addr l') = Some ch \<and> n_writes (ch_wire ch) = ws \<and> n_sent (ch_wire ch) = []"
proof -
  let ?s = "pl_server l"
  have inv: "table_inv ?s" "watch_inv ?s"
    using poll_invariant [OF assms(1,2)] assms(3) by (auto simp: poll_inv_def is_poll_dead_def)
  obtain c' closed where rc: "SockClient_reconnect (pl_client l) (pl_net l)
      = (Returns (), c', (pl_net l)\<lparr>n_tries := later, n_closed := closed\<rparr>)" "cl_sock c' \<noteq> UNINIT_SOCKET"
    using reconnect_ok [OF assms(5,6)] by blast
  obtain s' ch where s': "accept_turn J serve nb junk fd ?s = Some s'"
      "at_channel (poll_deliver (ps_next ?s) [] ws s') fd (ps_next ?s) ch" "calm ch" "n_sent (ch_wire ch) = []"
      "n_writes (ch_wire ch) = ws" "ps_service (poll_deliver (ps_next ?s) [] ws s') = ps_service ?s"
      "srv_runs J serve nb junk ?s s'"
    using accept_round [OF inv assms(3,4,8,9)] by blast
  have "srv_runs J serve nb junk s0 (poll_deliver (ps_next ?s) [] ws s')"
    using assms(2) s'(7) srv_moves.kernel [of J serve nb junk s' "ps_next ?s" "[]" ws]
    by (meson rtranclp.rtrancl_into_rtrancl rtranclp_trans)
  moreover have "ps_heap (poll_deliver (ps_next ?s) [] ws s') (ps_next ?s) = Some ch"
    using s'(2) by (simp add: at_channel_def)
  ultimately show ?thesis
    using rc s' assms(7) by (simp add: plink_rc_def Let_def plink_ready_def sent_by_def) blast
qed

section \<open>Properties\<close>

text \<open>
  (C8) The poll server is as good: a client that is not yet connected, run against the poll server
  in any state it can reach at the head of its loop, connects, and its calls return, in order, what the
  service gives for the same requests in its own process. A request comes in any pieces, the first of them
  with the length, and after each the polling thread goes round, on what \<open>poll\<close> reports of the descriptors
  that are watched then; the server stays within the runs of its steps, so that all that is proved of these holds
  throughout. The memory that \<open>get\_msg\<close> reads beyond a message begins with a NUL, and a reply is
  at most one chunk, with a NUL after it in the memory of the client.
\<close>
theorem poll_calls_are_local:
  assumes "json_laws J" "cuts chop" "cstring beyond = Some []" "calls \<noteq> []"
    "polling nb s0" "srv_runs J serve nb junk s0 (pl_server l)" "ps_pc (pl_server l) = PollHead" "\<not> ps_stop (pl_server l)"
    "cl_sock (pl_client l) = UNINIT_SOCKET" "n_tries (pl_net l) = tries # later" "\<not> list_all refuses tries"
    "pl_accepts l = (fd, map (\<lambda>p. int (length (frame (build_response J p)))) ps) # rest" "fd_ok fd"
    "fd \<notin> insert (sc_sock (pl_server l)) (fst ` set (ps_channels (pl_server l)))"
    "serve_all J serve (ps_service (pl_server l)) (requests J cno mid calls) = Some (ps, sv)"
    "map (\<lambda>p. decode (sout p)) ps = map Returns vs"
    "list_all (\<lambda>m. length m < 2 ^ 31) (requests J cno mid calls)"
    "list_all (\<lambda>p. poll_fits junk (build_response J p)) ps"
    "n_writes (pl_net l) = concat (map all_writes (requests J cno mid calls)) @ ws"
  shows "\<exists>a'. remote_calls J (plink_sr J serve nb junk beyond chop) (plink_rc J serve nb junk) decode calls
        \<lparr>ac_client = l, ac_msg_id = mid, ac_clientno = cno\<rparr> = Some (vs, a')
      \<and> srv_runs J serve nb junk s0 (pl_server (ac_client a')) \<and> ps_service (pl_server (ac_client a')) = sv
      \<and> n_sent (pl_net (ac_client a')) = n_sent (pl_net l) @ concat (map frame (requests J cno mid calls))
      \<and> sent_by (pl_server (ac_client a')) (pl_addr (ac_client a')) = concat (map (\<lambda>p. frame (build_response J p)) ps)"
proof -
  let ?sr = "plink_sr J serve nb junk beyond chop" and ?rc = "plink_rc J serve nb junk"
  let ?ms = "requests J cno mid calls" and ?rs = "map (build_response J) ps"
  obtain l1 ch where l1: "?rc l = (Returns (), l1)" "plink_ready l1" "srv_runs J serve nb junk s0 (pl_server l1)"
    "ps_service (pl_server l1) = ps_service (pl_server l)" "n_writes (pl_net l1) = n_writes (pl_net l)"
    "n_sent (pl_net l1) = n_sent (pl_net l)" "ps_heap (pl_server l1) (pl_addr l1) = Some ch"
    "n_writes (ch_wire ch) = map (\<lambda>p. int (length (frame (build_response J p)))) ps" "n_sent (ch_wire ch) = []"
    using plink_rc_ok [OF assms(5-8,10-14)] by blast
  have "cl_sock (pl_client l1) \<noteq> UNINIT_SOCKET"
    using l1(2) by (simp add: plink_ready_def)
  then have same: "?sr msg l = ?sr msg l1" for msg
    using assms(9) l1(1) by (simp add: plink_sr_def)
  have "length ?ms = length ?rs"
    using serve_all_length [OF assms(15)] by simp
  then have "plink_carries l1 (zip ?ms ?rs)"
    using assms(19) l1(5,7,8) by (intro plink_carries_zip [where ws' = "[]"]) (simp_all add: comp_def)
  then show ?thesis
    using pl.session [where a = "\<lparr>ac_client = l1, ac_msg_id = mid, ac_clientno = cno\<rparr>" and chop = chop
        and beyond = beyond and ?s0.0 = s0 and nb = nb and junk = junk and decode = decode and vs = vs
        and serve = serve and calls = calls and ps = ps and sv = sv, OF assms(1)] assms(2,3,15-18) l1(2-4,6,7,9)
      remote_calls_start [of ?sr "\<lparr>ac_client = l, ac_msg_id = mid, ac_clientno = cno\<rparr>" l1 calls J ?rc decode, OF _ assms(4)] same
    by (auto simp: sent_by_def)
qed

text \<open>The sample server, asked over a connection that is made at the second address.\<close>

definition sample_plink :: "(unit, (nat, json) service) plink" where
  "sample_plink =
     \<lparr>pl_client = \<lparr>cl_sock = UNINIT_SOCKET, cl_host = ''h'', cl_port = ''1''\<rparr>,
      pl_net = idle_net\<lparr>n_writes := all_writes sample_request, n_tries := [[(4, -1), (6, 0)]]\<rparr>,
      pl_server = sample_server, pl_fd = 0, pl_addr = 0, pl_up = 0, pl_down = 0,
      pl_accepts = [(7, [int (length (frame (build_response json_api \<lparr>sout = JInt 7\<rparr>)))])]\<rparr>"

lemma sample_poll_fits: "poll_fits (\<lambda>_. NUL) (build_response json_api \<lparr>sout = JInt 7\<rparr>)"
proof -
  have "length (build_response json_api \<lparr>sout = JInt 7\<rparr>) \<le> 1000"
    by code_simp
  then show ?thesis
    using sample_legible(1) by (simp add: poll_fits_def frame_def)
qed

theorem poll_calls_are_local_witness:
  "\<exists>a'. remote_calls json_api (plink_sr json_api on_request 2048 (\<lambda>_. NUL) [NUL] bytewise)
        (plink_rc json_api on_request 2048 (\<lambda>_. NUL)) Returns [(99, 42, ANil)]
        \<lparr>ac_client = sample_plink, ac_msg_id = 3, ac_clientno = 1\<rparr> = Some ([JInt 7], a')
    \<and> sv_object (ps_service (pl_server (ac_client a'))) = 1"
proof -
  have req: "requests json_api 1 3 [(99, 42, ANil)] = [sample_request]"
    by (simp add: sample_request_def)
  have served: "serve_all json_api on_request (ps_service (pl_server sample_plink)) (requests json_api 1 3 [(99, 42, ANil)])
      = Some ([\<lparr>sout = JInt 7\<rparr>], sample_service\<lparr>sv_object := 1\<rparr>)"
    unfolding req by (simp add: sample_plink_def sample_server_def sample_served)
  have beyond: "cstring [NUL] = Some []"
    by (simp add: NUL_def)
  note call = poll_calls_are_local [where l = sample_plink and calls = "[(99, 42, ANil)]" and mid = 3 and cno = 1 and vs = "[JInt 7]"
      and decode = Returns and nb = 2048 and junk = "\<lambda>_. NUL" and fd = 7 and ?s0.0 = sample_server
      and tries = "[(4, -1), (6, 0)]" and later = "[]" and rest = "[]" and ws = "[]",
      OF json_api_laws cuts_bytewise beyond _ sample_server_polling]
  obtain a' where "remote_calls json_api (plink_sr json_api on_request 2048 (\<lambda>_. NUL) [NUL] bytewise)
        (plink_rc json_api on_request 2048 (\<lambda>_. NUL)) Returns [(99, 42, ANil)]
        \<lparr>ac_client = sample_plink, ac_msg_id = 3, ac_clientno = 1\<rparr> = Some ([JInt 7], a')"
    "ps_service (pl_server (ac_client a')) = sample_service\<lparr>sv_object := 1\<rparr>"
    using call [OF _ _ _ _ _ _ _ _ _ _ served] sample_poll_fits sample_short unfolding req
    by (auto simp: sample_plink_def sample_server_def refuses_def fd_ok_def FD_SETSIZE_def idle_net_def UNINIT_SOCKET_def
        simp del: remote_calls.simps)
  then show ?thesis
    by auto
qed

end
