(* ===== verification/StubLink.thy ===== *)
theory StubLink
  imports StubService PollLink
begin

text \<open>
  The whole of the program at once: the generated client functions call over \<open>SockClient\<close>, the
  socket, one of the two servers and \<open>AbstractService\<close> the generated wrappers, and these the
  methods that the user wrote.
\<close>

section \<open>Programs of a client\<close>

type_synonym 'v stub_call = "i64 \<times> fundef \<times> 'v list"   \<comment> \<open>time, function, arguments\<close>

text \<open>What the calls give when the methods are called directly.\<close>

fun local_calls ::
  "(string \<Rightarrow> 'v list \<Rightarrow> 'o \<Rightarrow> (exn, 'v) outcome \<times> 'o) \<Rightarrow> 'v stub_call list \<Rightarrow> 'o \<Rightarrow>
   ('v list \<times> 'o) option" where
  "local_calls meth [] obj = Some ([], obj)"
| "local_calls meth ((now, f, args) # calls) obj =
     (case meth (fn_name f) args obj of
        (Returns v, obj') \<Rightarrow> map_option (\<lambda>(vs, o'). (v # vs, o')) (local_calls meth calls obj')
      | _ \<Rightarrow> None)"

text \<open>The same calls of the generated client, over the socket.\<close>

fun stub_calls ::
  "'j jconer \<Rightarrow> (bytes \<Rightarrow> 'c \<Rightarrow> (exn, bytes) outcome \<times> 'c) \<Rightarrow> ('c \<Rightarrow> (exn, unit) outcome \<times> 'c) \<Rightarrow> externs \<Rightarrow>
   string \<Rightarrow> ('v list \<Rightarrow> 'j) \<Rightarrow> ('j \<Rightarrow> 'v list option) \<Rightarrow> fundef list \<Rightarrow> 'v stub_call list \<Rightarrow> 'c absclient \<Rightarrow>
   ('v option list \<times> 'c absclient) option" where
  "stub_calls J sr rc X spacename ser deser fs [] a = Some ([], a)"
| "stub_calls J sr rc X spacename ser deser fs ((now, f, args) # calls) a =
     (case run_client X spacename (stub_rpc J sr rc X spacename ser deser fs now) f args a of
        (Returns r, a') \<Rightarrow>
          map_option (\<lambda>(rs, b). (r # rs, b)) (stub_calls J sr rc X spacename ser deser fs calls a')
      | _ \<Rightarrow> None)"

text \<open>The calls as messages, and what comes back.\<close>

definition on_wire :: "externs \<Rightarrow> ('v list \<Rightarrow> 'j) \<Rightarrow> 'v stub_call list \<Rightarrow> 'j call list" where
  "on_wire X ser = map (\<lambda>(now, f, args). (now, id_of X f, ser args))"

definition stub_response :: "'j jconer \<Rightarrow> ('v list \<Rightarrow> 'j) \<Rightarrow> fundef \<Rightarrow> 'v \<Rightarrow> 'j response" where
  "stub_response J ser f v = (if fn_rettype f = ''void'' then new_Response J else \<lparr>sout = ser [v]\<rparr>)"

definition stub_responses :: "'j jconer \<Rightarrow> ('v list \<Rightarrow> 'j) \<Rightarrow> 'v stub_call list \<Rightarrow> 'v list \<Rightarrow> 'j response list" where
  "stub_responses J ser calls vs = map2 (\<lambda>(now, f, args). stub_response J ser f) calls vs"

definition stub_results :: "'v stub_call list \<Rightarrow> 'v list \<Rightarrow> 'v option list" where
  "stub_results calls vs = map2 (\<lambda>(now, f, args) v. if fn_rettype f = ''void'' then None else Some v) calls vs"

text \<open>A call of a function of the service, with as many arguments as it has parameters.\<close>

definition well_called :: "fundef list \<Rightarrow> 'v stub_call \<Rightarrow> bool" where
  "well_called fs = (\<lambda>(now, f, args). f \<in> set fs \<and> distinct (map fst (fn_params f)) \<and> length args = length (fn_params f))"

lemmas stub_maps = on_wire_def stub_responses_def stub_results_def

section \<open>Over any joined connector\<close>

locale stub_link = rpc_link J on_request sr rc ready service up down carries fits
  for J :: "'j jconer" and sr :: "bytes \<Rightarrow> 'l \<Rightarrow> (exn, bytes) outcome \<times> 'l" and rc ready
    and service :: "'l \<Rightarrow> ('o, 'j) service" and up down carries fits
begin

lemma stub_call:
  assumes "json_laws J" "serial_laws J ser deser" "inj (ex_itos X)" "inj_on (id_of X) (set fs)"
    "well_called fs (now, f, args)" "meth (fn_name f) args obj = (Returns v, obj')"
    "ready (ac_client a)" "service (ac_client a) = generated_service X ser deser meth fs obj"
    "msg = build_client_request J (ac_clientno a) 0 (ac_msg_id a) now (id_of X f) (ser args)" "length msg < 2 ^ 31"
    "fits (build_response J (stub_response J ser f v))"
    "carries (ac_client a) ((msg, build_response J (stub_response J ser f v)) # xs)"
  shows "\<exists>l'. run_client X spacename (stub_rpc J sr rc X spacename ser deser fs now) f args a
      = (Returns (if fn_rettype f = ''void'' then None else Some v), a\<lparr>ac_msg_id := ac_msg_id a + 1, ac_client := l'\<rparr>)
    \<and> ready l' \<and> service l' = generated_service X ser deser meth fs obj' \<and> carries l' xs
    \<and> up l' = up (ac_client a) @ frame msg
    \<and> down l' = down (ac_client a) @ frame (build_response J (stub_response J ser f v))" (is "\<exists>l'. ?run l' \<and> ?after l'")
proof -
  have f: "f \<in> set fs" "distinct (map fst (fn_params f))" "length args = length (fn_params f)"
    using assms(5) by (simp_all add: well_called_def)
  have served: "serve_message J on_request (service (ac_client a)) msg
      = (Returns (stub_response J ser f v), generated_service X ser deser meth fs obj')"
    unfolding assms(8,9) stub_response_def
    using map_of_rev_inj [OF assms(4) f(1), of "wrapper_handler X ser deser meth"] f(3) assms(6)
    by (intro stub_served [OF assms(1-3)]) simp_all
  note call = call_answered [OF assms(1,7,9,10) served assms(11) _ assms(12)]
  show ?thesis
  proof (cases "fn_rettype f = ''void''")
    case True
    obtain l' where "call_void J sr rc now (id_of X f) (ser args) a
        = Some (Returns (), a\<lparr>ac_msg_id := ac_msg_id a + 1, ac_client := l'\<rparr>)" "?after l'"
      using call [where parse = "parse_void J" and v = "()" and reconnects = is_server_exception]
        parse_result_response(2) [OF assms(1)] by (auto simp: call_void_def)
    then show ?thesis
      using run_client_returns [OF f(2,1,3)] True by (intro exI [of _ l']) simp
  next
    case False
    have "parse_result J (first_value deser) (build_response J (stub_response J ser f v)) = Returns v"
      using False assms(2)
      by (simp add: parse_result_response(1) [OF assms(1)] stub_response_def first_value_def serial_laws_def)
    from call [where parse = "parse_result J (first_value deser)" and v = v
        and reconnects = "\<lambda>e. e = Server ServerCloseSocketException", OF this]
    obtain l' where "call_result J sr rc (first_value deser) now (id_of X f) (ser args) a
        = Some (Returns v, a\<lparr>ac_msg_id := ac_msg_id a + 1, ac_client := l'\<rparr>)" "?after l'"
      unfolding call_result_def by blast
    then show ?thesis
      using run_client_returns [OF f(2,1,3)] False by (intro exI [of _ l']) simp
  qed
qed

lemma stub_program:
  assumes "json_laws J" "serial_laws J ser deser" "inj (ex_itos X)" "inj_on (id_of X) (set fs)"
  shows "list_all (well_called fs) calls \<Longrightarrow> local_calls meth calls obj = Some (vs, obj') \<Longrightarrow> ready (ac_client a) \<Longrightarrow>
    service (ac_client a) = generated_service X ser deser meth fs obj \<Longrightarrow>
    list_all (\<lambda>m. length m < 2 ^ 31) (requests J (ac_clientno a) (ac_msg_id a) (on_wire X ser calls)) \<Longrightarrow>
    list_all (\<lambda>p. fits (build_response J p)) (stub_responses J ser calls vs) \<Longrightarrow>
    carries (ac_client a) (zip (requests J (ac_clientno a) (ac_msg_id a) (on_wire X ser calls))
      (map (build_response J) (stub_responses J ser calls vs))) \<Longrightarrow>
    \<exists>a'. stub_calls J sr rc X spacename ser deser fs calls a = Some (stub_results calls vs, a') \<and> ready (ac_client a')
      \<and> service (ac_client a') = generated_service X ser deser meth fs obj'
      \<and> up (ac_client a') = up (ac_client a)
          @ concat (map frame (requests J (ac_clientno a) (ac_msg_id a) (on_wire X ser calls)))
      \<and> down (ac_client a') = down (ac_client a)
          @ concat (map (\<lambda>p. frame (build_response J p)) (stub_responses J ser calls vs))"
proof (induction calls arbitrary: a obj vs)
  case Nil
  then show ?case by (simp add: stub_maps)
next
  case (Cons call calls)
  obtain now f args where call: "call = (now, f, args)"
    by (cases call) auto
  let ?msg = "build_client_request J (ac_clientno a) 0 (ac_msg_id a) now (id_of X f) (ser args)"
  let ?rest = "requests J (ac_clientno a) (ac_msg_id a + 1) (on_wire X ser calls)"
  obtain v obj1 vs1 where v: "meth (fn_name f) args obj = (Returns v, obj1)"
      "local_calls meth calls obj1 = Some (vs1, obj')" "vs = v # vs1"
    using Cons.prems(2) by (auto simp: call split: prod.splits outcome.splits)
  let ?replies = "map (build_response J) (stub_responses J ser calls vs1)"
  have one: "well_called fs (now, f, args)" "length ?msg < 2 ^ 31"
      "fits (build_response J (stub_response J ser f v))"
      "carries (ac_client a) ((?msg, build_response J (stub_response J ser f v)) # zip ?rest ?replies)"
    using Cons.prems by (simp_all add: call v(3) stub_maps)
  obtain l' where l': "run_client X spacename (stub_rpc J sr rc X spacename ser deser fs now) f args a
      = (Returns (if fn_rettype f = ''void'' then None else Some v), a\<lparr>ac_msg_id := ac_msg_id a + 1, ac_client := l'\<rparr>)"
    "ready l'" "service l' = generated_service X ser deser meth fs obj1" "carries l' (zip ?rest ?replies)"
    "up l' = up (ac_client a) @ frame ?msg"
    "down l' = down (ac_client a) @ frame (build_response J (stub_response J ser f v))"
    using stub_call [OF assms one(1) v(1) Cons.prems(3,4) refl one(2-4), of spacename] by blast
  let ?a = "a\<lparr>ac_msg_id := ac_msg_id a + 1, ac_client := l'\<rparr>"
  obtain a' where "stub_calls J sr rc X spacename ser deser fs calls ?a = Some (stub_results calls vs1, a')"
      "ready (ac_client a')" "service (ac_client a') = generated_service X ser deser meth fs obj'"
      "up (ac_client a') = up l' @ concat (map frame ?rest)"
      "down (ac_client a') = down l' @ concat (map (\<lambda>p. frame (build_response J p)) (stub_responses J ser calls vs1))"
    using Cons.IH [of obj1 vs1 ?a] Cons.prems(1,5,6) l' v(2,3) by (auto simp: call stub_maps)
  then show ?case
    using l'(1,5,6) v(3) by (auto simp: call stub_maps)
qed

end

interpretation stub_lk: stub_link J "link_sr J on_request junk chop" link_rc "\<lambda>l. cuts chop \<and> ready l"
    "\<lambda>l. cn_service (lk_conn l)" "\<lambda>l. n_sent (lk_net l)" "\<lambda>l. n_sent (cn_wire (lk_conn l))"
    link_carries "legible junk" for J junk chop
  by unfold_locales

interpretation stub_pl: stub_link J "plink_sr J on_request nb junk beyond chop" "plink_rc J on_request nb junk"
    "\<lambda>l. cuts chop \<and> cstring beyond = Some [] \<and> plink_ready l \<and> srv_runs J on_request nb junk s0 (pl_server l)"
    "\<lambda>l. ps_service (pl_server l)" "\<lambda>l. n_sent (pl_net l)" "\<lambda>l. sent_by (pl_server l) (pl_addr l)"
    plink_carries "poll_fits junk" for J nb junk beyond chop s0
  by unfold_locales

section \<open>Properties\<close>

text \<open>
  (C1) The program does what it is for: a sequence of calls of generated client functions, over
  the socket, returns what the user's methods return when they are called directly, one after the other
  with the same arguments, and leaves the service's object as they do; each call is one frame
  sent. (The enumerators of the service have different values; the responses are of the
  size that the client reads right.)
\<close>
theorem remote_object:
  assumes "json_laws J" "serial_laws J ser deser" "inj (ex_itos X)" "inj_on (id_of X) (set fs)" "cuts chop"
    "list_all (well_called fs) calls" "local_calls meth calls obj = Some (vs, obj')" "ready (ac_client a)"
    "cn_service (lk_conn (ac_client a)) = generated_service X ser deser meth fs obj"
    "list_all (\<lambda>m. length m < 2 ^ 31) (requests J (ac_clientno a) (ac_msg_id a) (on_wire X ser calls))"
    "list_all (\<lambda>p. legible junk (build_response J p)) (stub_responses J ser calls vs)"
    "link_carries (ac_client a) (zip (requests J (ac_clientno a) (ac_msg_id a) (on_wire X ser calls))
      (map (build_response J) (stub_responses J ser calls vs)))"
  shows "\<exists>a'. stub_calls J (link_sr J on_request junk chop) link_rc X spacename ser deser fs calls a
        = Some (stub_results calls vs, a') \<and> ready (ac_client a')
      \<and> cn_service (lk_conn (ac_client a')) = generated_service X ser deser meth fs obj'
      \<and> n_sent (lk_net (ac_client a')) = n_sent (lk_net (ac_client a))
          @ concat (map frame (requests J (ac_clientno a) (ac_msg_id a) (on_wire X ser calls)))"
  using stub_lk.stub_program [OF assms(1-4,6,7) _ assms(9-12), of chop] assms(5,8) by blast

text \<open>The calculator over a socket: a difference, then the accumulator set.\<close>

definition two_calls :: "int stub_call list" where
  "two_calls = [(99, two_methods ! 0, [9, 2]), (100, two_methods ! 1, [6])]"

definition calculator_link :: "((int, json) service, json) link" where
  "calculator_link =
     \<lparr>lk_client = \<lparr>cl_sock = 3, cl_host = ''h'', cl_port = ''1''\<rparr>,
      lk_net = idle_net\<lparr>n_writes := concat (map all_writes (requests json_api 1 0 (on_wire sample_externs ser_ints two_calls)))\<rparr>,
      lk_conn = deliver [] (concat (map (\<lambda>p. all_writes (build_response json_api p)) (stub_responses json_api ser_ints two_calls [7, 0])))
        (Connection 5 (generated_service sample_externs ser_ints deser_ints calculator two_methods 4) 2),
      lk_up = 0, lk_down = 0, lk_accepts = []\<rparr>"

lemma two_on_wire: "on_wire sample_externs ser_ints two_calls =
    [(99, 5, ACons (JInt 9) (ACons (JInt 2) ANil)), (100, 3, ACons (JInt 6) ANil)]"
  by (simp add: on_wire_def two_calls_def two_ids [simplified])

lemma two_requests_short:
  "list_all (\<lambda>m. length m < 2 ^ 31) (requests json_api 1 0 (on_wire sample_externs ser_ints two_calls))"
proof (rule list.pred_mono_strong)
  show "list_all (\<lambda>m. length m \<le> 1024) (requests json_api 1 0 (on_wire sample_externs ser_ints two_calls))"
    unfolding two_on_wire by code_simp
qed simp

lemma two_replies_fit:
  "list_all (\<lambda>p. poll_fits (\<lambda>_. NUL) (build_response json_api p)) (stub_responses json_api ser_ints two_calls [7, 0])"
proof (rule list.pred_mono_strong)
  show "list_all (\<lambda>p. length (build_response json_api p) < 1000) (stub_responses json_api ser_ints two_calls [7, 0])"
    by code_simp
qed (simp add: poll_fits_def legible_zero frame_def)

theorem remote_object_witness:
  "\<exists>a'. stub_calls json_api (link_sr json_api on_request (\<lambda>_. NUL) bytewise) link_rc sample_externs ''Demo'' ser_ints deser_ints two_methods two_calls
      \<lparr>ac_client = calculator_link, ac_msg_id = 0, ac_clientno = 1\<rparr> = Some ([Some 7, None], a')
    \<and> sv_object (cn_service (lk_conn (ac_client a'))) = 6"
proof -
  let ?a = "\<lparr>ac_client = calculator_link, ac_msg_id = 0, ac_clientno = 1\<rparr>"
  have ids: "inj_on (id_of sample_externs) (set two_methods)"
    using two_ids by (auto simp: two_methods_def)
  have "list_all (well_called two_methods) two_calls" "local_calls calculator two_calls 4 = Some ([7, 0], 6)"
      "ready (ac_client ?a)" "cn_service (lk_conn (ac_client ?a)) = generated_service sample_externs ser_ints deser_ints calculator two_methods 4"
      "stub_results two_calls [7, 0] = [Some 7, None]"
    by (simp_all add: two_calls_def well_called_def two_methods_def calculator_def stub_maps calculator_link_def
        ready_def waiting_def deliver_def Connection_def idle_net_def UNINIT_SOCKET_def)
  moreover have "list_all (\<lambda>p. legible (\<lambda>_. NUL) (build_response json_api p)) (stub_responses json_api ser_ints two_calls [7, 0])"
    using two_replies_fit by (rule list.pred_mono_strong) (simp add: poll_fits_def)
  moreover have "link_carries (ac_client ?a) (zip (requests json_api (ac_clientno ?a) (ac_msg_id ?a)
      (on_wire sample_externs ser_ints two_calls)) (map (build_response json_api) (stub_responses json_api ser_ints two_calls [7, 0])))"
    by (rule link_carries_zip [where ws = "[]" and ws' = "[]"])
       (simp_all add: stub_maps two_calls_def calculator_link_def deliver_def Connection_def idle_net_def comp_def)
  ultimately obtain a' where "stub_calls json_api (link_sr json_api on_request (\<lambda>_. NUL) bytewise) link_rc sample_externs ''Demo'' ser_ints deser_ints two_methods
      two_calls ?a = Some ([Some 7, None], a')"
    "cn_service (lk_conn (ac_client a')) = generated_service sample_externs ser_ints deser_ints calculator two_methods 6"
    using remote_object [where a = ?a and junk = "\<lambda>_. NUL" and calls = two_calls and meth = calculator
        and spacename = "''Demo''", OF json_api_laws serial_ints sample_itos ids cuts_bytewise] two_requests_short
    by fastforce
  then show ?thesis
    using generated_service_fields(1) by metis
qed

text \<open>
  (C3) And so it is over the poll server: the same program of stub calls, with a connection of the
  server that has nothing under way, returns what the methods return, whatever the other channels and
  jobs of the server are, and by steps of the server's two kinds of threads alone. At the start the
  server is at the head of its loop and watches the descriptor of the connection (\<open>plink_ready\<close>); no
  message is cut after its length, a NUL follows the message in the server's memory, and a response
  fits one chunk on either side (\<open>poll_fits\<close>).
\<close>
theorem remote_object_poll:
  assumes "json_laws J" "serial_laws J ser deser" "inj (ex_itos X)" "inj_on (id_of X) (set fs)" "cuts chop"
    "cstring beyond = Some []" "list_all (well_called fs) calls" "local_calls meth calls obj = Some (vs, obj')"
    "plink_ready (ac_client a)" "ps_service (pl_server (ac_client a)) = generated_service X ser deser meth fs obj"
    "list_all (\<lambda>m. length m < 2 ^ 31) (requests J (ac_clientno a) (ac_msg_id a) (on_wire X ser calls))"
    "list_all (\<lambda>p. poll_fits junk (build_response J p)) (stub_responses J ser calls vs)"
    "plink_carries (ac_client a) (zip (requests J (ac_clientno a) (ac_msg_id a) (on_wire X ser calls))
      (map (build_response J) (stub_responses J ser calls vs)))"
  shows "\<exists>a'. stub_calls J (plink_sr J on_request nb junk beyond chop) (plink_rc J on_request nb junk) X spacename ser deser
        fs calls a = Some (stub_results calls vs, a') \<and> plink_ready (ac_client a')
      \<and> srv_runs J on_request nb junk (pl_server (ac_client a)) (pl_server (ac_client a'))
      \<and> ps_service (pl_server (ac_client a')) = generated_service X ser deser meth fs obj'"
  using stub_pl.stub_program [where beyond = beyond and chop = chop and nb = nb and ?s0.0 = "pl_server (ac_client a)",
      OF assms(1-4,7,8) _ assms(10-13)] assms(5,6,9) by blast

definition calculator_plink :: "(unit, (int, json) service) plink" where
  "calculator_plink =
     \<lparr>pl_client = \<lparr>cl_sock = 3, cl_host = ''h'', cl_port = ''1''\<rparr>,
      pl_net = idle_net\<lparr>n_writes := concat (map all_writes (requests json_api 1 0 (on_wire sample_externs ser_ints two_calls)))\<rparr>,
      pl_server = \<lparr>sc_handler = Some (), sc_sock = 3, ps_stop = False, ps_channels = [(7, 0)],
        ps_heap = [0 \<mapsto> sample_chan None [] (map (\<lambda>p. int (length (frame (build_response json_api p))))
          (stub_responses json_api ser_ints two_calls [7, 0]))], ps_next = 1,
        ps_pm = \<lparr>pm_highest = 7, pm_read_set = {7, 3}, pm_write_set = {}, pm_watched_read = [7, 3],
              pm_watched_write = [], pm_flags = (\<lambda>_. None)\<rparr>,
        ps_pc = PollHead, ps_jobs = [JDone],
        ps_service = generated_service sample_externs ser_ints deser_ints calculator two_methods 4\<rparr>,
      pl_fd = 7, pl_addr = 0, pl_up = 0, pl_down = 0, pl_accepts = []\<rparr>"

theorem remote_object_poll_witness:
  "\<exists>a'. stub_calls json_api (plink_sr json_api on_request 2048 (\<lambda>_. NUL) [NUL] bytewise)
        (plink_rc json_api on_request 2048 (\<lambda>_. NUL)) sample_externs ''Demo'' ser_ints deser_ints two_methods two_calls
      \<lparr>ac_client = calculator_plink, ac_msg_id = 0, ac_clientno = 1\<rparr> = Some ([Some 7, None], a')
    \<and> sv_object (ps_service (pl_server (ac_client a'))) = 6"
proof -
  let ?a = "\<lparr>ac_client = calculator_plink, ac_msg_id = 0, ac_clientno = 1\<rparr>"
  have ids: "inj_on (id_of sample_externs) (set two_methods)"
    using two_ids by (auto simp: two_methods_def)
  have beyond: "cstring [NUL] = Some []"
    by (simp add: NUL_def)
  have calls: "list_all (well_called two_methods) two_calls" "local_calls calculator two_calls 4 = Some ([7, 0], 6)"
      "plink_ready (ac_client ?a)"
      "ps_service (pl_server (ac_client ?a)) = generated_service sample_externs ser_ints deser_ints calculator two_methods 4"
      "stub_results two_calls [7, 0] = [Some 7, None]"
    by (simp_all add: two_calls_def well_called_def two_methods_def calculator_def stub_maps calculator_plink_def
        plink_ready_def at_channel_def calm_def sent_by_def sample_chan_def idle_net_def UNINIT_SOCKET_def
        pm_inv_def pm_watched_def fd_ok_def FD_SETSIZE_def)
  have "plink_carries (ac_client ?a) (zip (requests json_api (ac_clientno ?a) (ac_msg_id ?a)
      (on_wire sample_externs ser_ints two_calls)) (map (build_response json_api) (stub_responses json_api ser_ints two_calls [7, 0])))"
    by (rule plink_carries_zip [where ws = "[]" and ws' = "[]" and ch = "sample_chan None []
         (map (\<lambda>p. int (length (frame (build_response json_api p)))) (stub_responses json_api ser_ints two_calls [7, 0]))"])
       (simp_all add: stub_maps two_calls_def calculator_plink_def sample_chan_def idle_net_def comp_def)
  then obtain a' where "stub_calls json_api (plink_sr json_api on_request 2048 (\<lambda>_. NUL) [NUL] bytewise)
        (plink_rc json_api on_request 2048 (\<lambda>_. NUL)) sample_externs ''Demo'' ser_ints deser_ints two_methods two_calls ?a
      = Some ([Some 7, None], a')"
    "ps_service (pl_server (ac_client a')) = generated_service sample_externs ser_ints deser_ints calculator two_methods 6"
    using remote_object_poll [where a = ?a and junk = "\<lambda>_. NUL" and calls = two_calls and meth = calculator and nb = 2048
        and spacename = "''Demo''", OF json_api_laws serial_ints sample_itos ids cuts_bytewise beyond calls(1-4)]
      two_requests_short two_replies_fit calls(5) by fastforce
  then show ?thesis
    using generated_service_fields(1) by metis
qed

end
