(* ===== verification/Ownership.thy ===== *)
theory Ownership
  imports Buffer Service
begin

text \<open>
  Who deletes what: the arrays of the buffers (buffer.hpp), the JSON values of requests (request.hpp,
  request.cpp, proto.cpp) and of responses (proto.cpp, client.hpp). The functions here are those of
  \<open>Buffer\<close>, \<open>Proto\<close>, \<open>Service\<close> and \<open>Client\<close> with the \<open>new\<close>s and \<open>delete\<close>s that the code makes,
  over a store that knows which blocks are live; what they compute is shown to be the same. \<open>loads\<close> and
  \<open>new JObject\<close> give one block each, with all that hangs on it.
\<close>

section \<open>The store\<close>

record mem =
  mm_next :: nat
  mm_live :: "nat list"
  mm_bad :: nat                        \<comment> \<open>\<open>delete\<close>s of blocks that are not live\<close>

definition mem_new :: "mem \<Rightarrow> nat \<times> mem" where
  "mem_new m = (mm_next m, m\<lparr>mm_next := mm_next m + 1, mm_live := mm_next m # mm_live m\<rparr>)"

definition mem_delete :: "nat \<Rightarrow> mem \<Rightarrow> mem" where
  "mem_delete a m =
     (if a \<in> set (mm_live m) then m\<lparr>mm_live := removeAll a (mm_live m)\<rparr> else m\<lparr>mm_bad := mm_bad m + 1\<rparr>)"

definition mem_ok :: "mem \<Rightarrow> bool" where
  "mem_ok m \<longleftrightarrow> list_all (\<lambda>a. a < mm_next m) (mm_live m)"

section \<open>Buffers\<close>

definition WRONBuffer_mem :: "(nat \<Rightarrow> char) \<Rightarrow> mem \<Rightarrow> (wron \<times> nat) \<times> mem" where
  "WRONBuffer_mem junk m = (case mem_new m of (a, m') \<Rightarrow> ((WRONBuffer junk, a), m'))"

definition WRONBuffer_write_mem ::
  "(nat \<Rightarrow> char) \<Rightarrow> bytes \<Rightarrow> size_t \<Rightarrow> wron \<times> nat \<Rightarrow> mem \<Rightarrow> (fault + size_t \<times> wron \<times> nat) \<times> mem" where
  "WRONBuffer_write_mem junk ptr sz ba m =
     (case ba of (b, a) \<Rightarrow>
       (case WRONBuffer_write junk b ptr sz of
          Inl f \<Rightarrow> (Inl f, m)
        | Inr (n, b') \<Rightarrow>
            (if wr_pos b + sz > wr_size b
             then (case mem_new m of (a', m') \<Rightarrow> (Inr (n, b', a'), mem_delete a m'))
             else (Inr (n, b', a), m))))"

definition WRONBuffer_destroy :: "wron \<times> nat \<Rightarrow> mem \<Rightarrow> mem" where
  "WRONBuffer_destroy ba = mem_delete (snd ba)"

definition SizedRDONBuffer_mem ::
  "(nat \<Rightarrow> char) \<Rightarrow> bytes \<Rightarrow> i32 \<Rightarrow> mem \<Rightarrow> (fault + rdon \<times> nat) \<times> mem" where
  "SizedRDONBuffer_mem junk str sz m =
     (case SizedRDONBuffer junk str sz of
        Inl f \<Rightarrow> (Inl f, m)
      | Inr b \<Rightarrow> (case mem_new m of (a, m') \<Rightarrow> (Inr (b, a), m')))"

definition SizedRDONBuffer_destroy :: "rdon \<times> nat \<Rightarrow> mem \<Rightarrow> mem" where
  "SizedRDONBuffer_destroy ba = mem_delete (snd ba)"

text \<open>The buffer of a message that comes in these chunks.\<close>

fun WRONBuffer_writes ::
  "(nat \<Rightarrow> char) \<Rightarrow> bytes list \<Rightarrow> wron \<times> nat \<Rightarrow> mem \<Rightarrow> (fault + wron \<times> nat) \<times> mem" where
  "WRONBuffer_writes junk [] ba m = (Inr ba, m)"
| "WRONBuffer_writes junk (c # cs) ba m =
     (case WRONBuffer_write_mem junk c (word_of_nat (length c)) ba m of
        (Inl f, m') \<Rightarrow> (Inl f, m')
      | (Inr (n, ba'), m') \<Rightarrow> WRONBuffer_writes junk cs ba' m')"

section \<open>Requests\<close>

text \<open>
  \<open>Proto::build_request\<close> returns its local \<open>request\<close>; how often the move constructor is run on the way
  into the caller's variable (0, 1 or 2) is for the compiler to choose. A moved request keeps its pointer,
  and its destructor deletes it.
\<close>

definition Request_destroy :: "nat \<Rightarrow> mem \<Rightarrow> mem" where
  "Request_destroy a = mem_delete a"

definition build_request_mem ::
  "'j jconer \<Rightarrow> nat \<Rightarrow> bytes \<Rightarrow> mem \<Rightarrow> (exn, 'j request \<times> nat) outcome \<times> mem" where
  "build_request_mem J moves msg m =
     (case loads J msg of
        None \<Rightarrow> (not_parsed, m)
      | Some req_json \<Rightarrow>
          (case mem_new m of (a, m1) \<Rightarrow>
            (case build_request J msg of
               Returns request \<Rightarrow>
                 (Returns ((Request_move J ^^ moves) request, a), (Request_destroy a ^^ moves) m1)
             | Throws e \<Rightarrow> (Throws e, m1)
             | Faults f \<Rightarrow> (Faults f, m1)
             | Waits \<Rightarrow> (Waits, m1))))"

text \<open>\<open>build_response\<close> and \<open>build_error\<close>: an object, its text, and the object deleted.\<close>

definition build_text_mem :: "bytes \<Rightarrow> mem \<Rightarrow> bytes \<times> mem" where
  "build_text_mem txt m = (case mem_new m of (obj, m1) \<Rightarrow> (txt, mem_delete obj m1))"

text \<open>A message and its reply, as both servers make it; the request dies with its block.\<close>

definition reply_mem ::
  "'j jconer \<Rightarrow> ('v \<times> 'j request \<Rightarrow> (exn, int) outcome \<times> 'v \<times> 'j request) \<Rightarrow> nat \<Rightarrow> bytes \<Rightarrow> 'v \<Rightarrow> mem \<Rightarrow>
   (exn, bytes) outcome \<times> 'v \<times> mem" where
  "reply_mem J serve moves msg sv m =
     (let done = (\<lambda>r sv m. case r of
             Throws (Server e) \<Rightarrow> (case build_text_mem (build_error J (get_code e)) m of (t, m') \<Rightarrow> (Returns t, sv, m'))
           | _ \<Rightarrow> (r, sv, m))
      in if msg = [] then done (Throws (Server ServerBadMessageException)) sv m
      else
        (case build_request_mem J moves msg m of (r, m1) \<Rightarrow>
          (case r of
             Returns (request, a) \<Rightarrow>
               (case serve (sv, request) of (s, sv', request') \<Rightarrow>
                 (case obind s (\<lambda>rst. if rst = 0 then Throws (Server ServerMethodNotFoundException) else Returns ()) of
                    Returns _ \<Rightarrow>
                      (case build_text_mem (build_response J (resp request')) m1 of (t, m2) \<Rightarrow>
                        (Returns t, sv', Request_destroy a m2))
                  | Throws e \<Rightarrow> done (Throws e) sv' (Request_destroy a m1)
                  | Faults f \<Rightarrow> (Faults f, sv', m1)
                  | Waits \<Rightarrow> (Waits, sv', m1)))
           | Throws e \<Rightarrow> done (Throws e) sv m1
           | Faults f \<Rightarrow> (Faults f, sv, m1)
           | Waits \<Rightarrow> (Waits, sv, m1))))"

text \<open>A sequence of messages, each answered with a text; \<open>replies\<close> is the same without the store.\<close>

fun replies_mem ::
  "'j jconer \<Rightarrow> ('v \<times> 'j request \<Rightarrow> (exn, int) outcome \<times> 'v \<times> 'j request) \<Rightarrow> nat \<Rightarrow> bytes list \<Rightarrow> 'v \<Rightarrow> mem \<Rightarrow>
   (bytes list \<times> 'v \<times> mem) option" where
  "replies_mem J serve moves [] sv m = Some ([], sv, m)"
| "replies_mem J serve moves (msg # ms) sv m =
     (case reply_mem J serve moves msg sv m of
        (Returns t, sv', m') \<Rightarrow> map_option (\<lambda>(ts, u). (t # ts, u)) (replies_mem J serve moves ms sv' m')
      | _ \<Rightarrow> None)"

fun replies ::
  "'j jconer \<Rightarrow> ('v \<times> 'j request \<Rightarrow> (exn, int) outcome \<times> 'v \<times> 'j request) \<Rightarrow> bytes list \<Rightarrow> 'v \<Rightarrow>
   (bytes list \<times> 'v) option" where
  "replies J serve [] sv = Some ([], sv)"
| "replies J serve (msg # ms) sv =
     (case serve_message J serve sv msg of (r, sv') \<Rightarrow>
       (case poll_replies J r of
          t # _ \<Rightarrow> map_option (\<lambda>(ts, u). (t # ts, u)) (replies J serve ms sv')
        | [] \<Rightarrow> None))"

section \<open>Responses\<close>

definition parse_response_mem :: "'j jconer \<Rightarrow> bytes \<Rightarrow> mem \<Rightarrow> (exn, 'j \<times> nat) outcome \<times> mem" where
  "parse_response_mem J response m =
     (case loads J response of
        None \<Rightarrow> (Faults FatalLog, m)
      | Some json_resp \<Rightarrow>
          (case mem_new m of (a, m1) \<Rightarrow>
            (case parse_response J response of
               Returns v \<Rightarrow> (Returns (v, a), m1)
             | Throws e \<Rightarrow> (Throws e, mem_delete a m1)
             | Faults f \<Rightarrow> (Faults f, m1)
             | Waits \<Rightarrow> (Waits, m1))))"

definition parse_void_mem :: "'j jconer \<Rightarrow> bytes \<Rightarrow> mem \<Rightarrow> (exn, unit) outcome \<times> mem" where
  "parse_void_mem J response m =
     pbind (parse_response_mem J response m) (\<lambda>(rst, a) m. (Returns (), mem_delete a m))"

definition parse_result_mem ::
  "'j jconer \<Rightarrow> ('j \<Rightarrow> (exn, 'r) outcome) \<Rightarrow> bytes \<Rightarrow> mem \<Rightarrow> (exn, 'r) outcome \<times> mem" where
  "parse_result_mem J decode response m =
     pbind (parse_response_mem J response m) (\<lambda>(json_resp, a) m.
       if \<not> contain J json_resp Result then (Throws NoResultException, mem_delete a m)
       else case get J json_resp Result of
              None \<Rightarrow> (Faults NullDeref, m)
            | Some v \<Rightarrow> pbind (decode v, m) (\<lambda>r m. (Returns r, mem_delete a m)))"

section \<open>Lemmas\<close>

lemma mem_new_delete: "mem_ok m \<Longrightarrow> mem_delete (mm_next m) (snd (mem_new m)) = m\<lparr>mm_next := mm_next m + 1\<rparr>"
  by (auto simp: mem_new_def mem_delete_def mem_ok_def list_all_iff)

lemma mem_ok_new: "mem_ok m \<Longrightarrow> mem_ok (snd (mem_new m))"
  by (auto simp: mem_new_def mem_ok_def list_all_iff)

lemma mem_ok_later:
  assumes "mem_ok m" "mm_next m \<le> n"
  shows "mem_ok (m\<lparr>mm_next := n\<rparr>)" "mem_ok (m\<lparr>mm_next := n, mm_bad := b\<rparr>)"
    "mem_ok (m\<lparr>mm_bad := b, mm_next := n\<rparr>)"
  using assms by (auto simp: mem_ok_def list_all_iff intro: less_le_trans)

lemma mem_ok_delete: "mem_ok m \<Longrightarrow> mem_ok (mem_delete a m)"
  by (auto simp: mem_delete_def mem_ok_def list_all_iff)

lemma build_text_balanced:
  "mem_ok m \<Longrightarrow> build_text_mem t m = (t, m\<lparr>mm_next := mm_next m + 1\<rparr>)"
  using mem_new_delete [of m] by (simp add: build_text_mem_def mem_new_def)

lemma delete_dead: "a \<notin> set (mm_live m) \<Longrightarrow> (mem_delete a ^^ k) m = m\<lparr>mm_bad := mm_bad m + k\<rparr>"
  by (induction k) (simp_all add: mem_delete_def)

text \<open>A message that is JSON but no request, and one that is a request.\<close>

definition is_request :: "'j jconer \<Rightarrow> bytes \<Rightarrow> bool" where
  "is_request J msg \<longleftrightarrow> msg \<noteq> [] \<and> (case build_request J msg of Returns q \<Rightarrow> True | _ \<Rightarrow> False)"

definition is_leaked :: "'j jconer \<Rightarrow> bytes \<Rightarrow> bool" where
  "is_leaked J msg \<longleftrightarrow> msg \<noteq> [] \<and> loads J msg \<noteq> None \<and> \<not> is_request J msg"

lemma is_request_iff: "is_request J msg \<longleftrightarrow> msg \<noteq> [] \<and> (\<exists>q. build_request J msg = Returns q)"
  by (cases "build_request J msg") (simp_all add: is_request_def)

lemma moved_request: "build_request J msg = Returns q \<Longrightarrow> (Request_move J ^^ k) q = q"
proof -
  assume "build_request J msg = Returns q"
  then have "Request_move J q = q"
    by (auto simp: build_request_def obind_Returns_iff Request_move_fresh split: option.splits if_splits)
  then show ?thesis
    by (induction k) simp_all
qed

lemma build_request_mem_cases:
  assumes "mem_ok m" "msg \<noteq> []"
  shows "build_request_mem J moves msg m =
    (if is_request J msg
     then (case build_request J msg of Returns q \<Rightarrow>
       (Returns (q, mm_next m), (Request_destroy (mm_next m) ^^ moves) (snd (mem_new m))))
     else (not_parsed, if is_leaked J msg then snd (mem_new m) else m))"
proof -
  have "build_request J msg = not_parsed \<or> (\<exists>q. build_request J msg = Returns q \<and> loads J msg \<noteq> None)"
    using build_request_not_parsed_or_returns [of J msg] by (cases "loads J msg") (auto simp: build_request_def)
  then show ?thesis
    using assms(2) by (auto simp: build_request_mem_def is_request_def is_leaked_def mem_new_def moved_request
        split: option.splits)
qed

text \<open>The request's block after the destructors of the moves, and after its own.\<close>

lemma moved_block:
  assumes "mem_ok m"
  shows "(Request_destroy (mm_next m) ^^ moves) (snd (mem_new m)) =
    (if moves = 0 then snd (mem_new m) else m\<lparr>mm_next := mm_next m + 1, mm_bad := mm_bad m + (moves - 1)\<rparr>)"
proof (cases moves)
  case (Suc k)
  have "mm_next m \<notin> set (mm_live (m\<lparr>mm_next := mm_next m + 1\<rparr>))"
    using assms by (auto simp: mem_ok_def list_all_iff)
  from delete_dead [OF this, of k] show ?thesis
    using Suc mem_new_delete [OF assms] by (simp add: Request_destroy_def [abs_def] funpow_swap1)
qed simp

lemma reply_balance:
  assumes "mem_ok m" "reply_mem J serve moves msg sv m = (Returns t, sv', m')"
  shows "mem_ok m' \<and> mm_live m' = (if is_leaked J msg then [mm_next m] else []) @ mm_live m
    \<and> mm_bad m' = mm_bad m + (if is_request J msg then moves else 0)
    \<and> (case serve_message J serve sv msg of (r, u) \<Rightarrow> poll_replies J r = [t] \<and> u = sv')"
proof -
  have err: "build_text_mem t m1 = (t, m1\<lparr>mm_next := mm_next m1 + 1\<rparr>)" if "mem_ok m1" for t m1
    by (rule build_text_balanced [OF that])
  consider "msg = []" | "msg \<noteq> []" "\<not> is_request J msg" | q where "msg \<noteq> []" "is_request J msg" "build_request J msg = Returns q"
    using is_request_iff by blast
  then show ?thesis
  proof cases
    case 1
    then show ?thesis
      using assms by (auto simp: reply_mem_def err is_leaked_def is_request_def mem_ok_later
          serve_message_def poll_replies_def)
  next
    case 2
    then have "build_request J msg = not_parsed"
      using build_request_not_parsed_or_returns [of J msg] by (auto simp: is_request_def)
    then show ?thesis
      using 2 assms build_request_mem_cases [OF assms(1) 2(1), of J moves] err mem_ok_new [OF assms(1)]
      mem_ok_later [OF mem_ok_new [OF assms(1)]]
      by (auto simp: reply_mem_def is_request_def mem_ok_later mem_new_def
          serve_message_def poll_replies_def split: if_splits)
  next
    case 3
    let ?m1 = "(Request_destroy (mm_next m) ^^ moves) (snd (mem_new m))"
    obtain s u q' where s: "serve (sv, q) = (s, u, q')"
      by (cases "serve (sv, q)")
    have ok: "mem_ok ?m1"
      using assms(1) by (simp add: moved_block [OF assms(1)] mem_ok_new) (simp add: assms(1) mem_ok_later)
    let ?o = "obind s (\<lambda>rst. if rst = 0 then Throws (Server ServerMethodNotFoundException) else Returns ())"
    have handled: "serve_message J serve sv msg = (obind ?o (\<lambda>_. Returns (resp q')), u)"
      using 3 s by (cases s) (simp_all add: serve_message_def)
    have final: "mem_delete (mm_next m) (?m1\<lparr>mm_next := x\<rparr>)
        = m\<lparr>mm_next := x, mm_bad := mm_bad m + moves\<rparr>" for x
      using assms(1) unfolding moved_block [OF assms(1)]
      by (auto simp: mem_new_def mem_delete_def mem_ok_def list_all_iff)
    have next_m1: "mm_next ?m1 = mm_next m + 1"
      unfolding moved_block [OF assms(1)] by (simp add: mem_new_def)
    have built: "build_request_mem J moves msg m = (Returns (q, mm_next m), ?m1)"
      using build_request_mem_cases [OF assms(1) 3(1), of J moves] 3 by simp
    have nl: "\<not> is_leaked J msg"
      using 3(2) by (simp add: is_leaked_def)
    consider "?o = Returns ()" | e where "?o = Throws (Server e)"
      using assms(2) 3(1) built s by (cases ?o) (auto simp: reply_mem_def split: exn.splits)
    then show ?thesis
    proof cases
      case 1
      then have m': "t = build_response J (resp q')" "sv' = u"
          "m' = mem_delete (mm_next m) (?m1\<lparr>mm_next := mm_next ?m1 + 1\<rparr>)"
        using assms(2) 3(1) built s err [OF ok] by (simp_all add: reply_mem_def Request_destroy_def)
      then show ?thesis
        using assms(1) 1 3(2) nl handled unfolding final
        by (simp add: poll_replies_def next_m1 mem_ok_later)
    next
      case (2 e)
      let ?d = "m\<lparr>mm_next := mm_next m + 1, mm_bad := mm_bad m + moves\<rparr>"
      have "?m1\<lparr>mm_next := mm_next m + 1\<rparr> = ?m1"
        using next_m1 by simp
      then have d: "Request_destroy (mm_next m) ?m1 = ?d" "mem_ok ?d"
        using final [of "mm_next m + 1"] assms(1) by (simp_all add: Request_destroy_def mem_ok_later)
      then have "reply_mem J serve moves msg sv m = (Returns (build_error J (get_code e)), u, ?d\<lparr>mm_next := mm_next ?d + 1\<rparr>)"
        using 2 3(1) built s err [OF d(2)] by (simp add: reply_mem_def)
      then show ?thesis
        using assms 2 3(2) nl handled by (auto simp: poll_replies_def mem_ok_later)
    qed
  qed
qed

lemma replies_balance:
  "mem_ok m \<Longrightarrow> replies_mem J serve moves ms sv m = Some (ts, sv', m') \<Longrightarrow>
    mem_ok m' \<and> replies J serve ms sv = Some (ts, sv')
    \<and> (\<exists>leaked. mm_live m' = leaked @ mm_live m \<and> length leaked = length (filter (is_leaked J) ms))
    \<and> mm_bad m' = mm_bad m + moves * length (filter (is_request J) ms)"
proof (induction ms arbitrary: sv m ts)
  case (Cons msg ms)
  obtain t sv1 m1 ts' where step: "reply_mem J serve moves msg sv m = (Returns t, sv1, m1)"
      "replies_mem J serve moves ms sv1 m1 = Some (ts', sv', m')" "ts = t # ts'"
    using Cons.prems(2) by (auto split: prod.splits outcome.splits)
  note one = reply_balance [OF Cons.prems(1) step(1)]
  obtain leaked where "mm_live m' = leaked @ mm_live m1" "length leaked = length (filter (is_leaked J) ms)"
      "mem_ok m'" "replies J serve ms sv1 = Some (ts', sv')" "mm_bad m' = mm_bad m1 + moves * length (filter (is_request J) ms)"
    using Cons.IH [OF _ step(2)] one by blast
  then show ?case
    using one step(3)
    by (intro conjI exI [of _ "leaked @ (if is_leaked J msg then [mm_next m] else [])"]) (auto split: prod.splits)
qed simp

lemma parse_response_balance:
  assumes "mem_ok m"
  shows "parse_response_mem J response m =
    (case parse_response J response of
       Returns v \<Rightarrow> (Returns (v, mm_next m), snd (mem_new m))
     | Throws e \<Rightarrow> (Throws e, m\<lparr>mm_next := mm_next m + 1\<rparr>)
     | Faults f \<Rightarrow> (Faults f, if loads J response = None then m else snd (mem_new m))
     | Waits \<Rightarrow> (Waits, snd (mem_new m)))"
proof (cases "loads J response")
  case None
  then show ?thesis
    by (simp add: parse_response_mem_def parse_response_def)
next
  case (Some j)
  then show ?thesis
    using mem_new_delete [OF assms]
    by (simp add: parse_response_mem_def mem_new_def split: outcome.split)
qed

text \<open>The buffer owns one array after every write.\<close>

lemma write_owns:
  assumes "wron_inv b" "unat (wr_pos b) + length c < 2 ^ 31" "mem_ok m" "mm_live m = a # L" "a \<notin> set L"
  shows "\<exists>n b' a' k. WRONBuffer_write_mem junk c (word_of_nat (length c)) (b, a) m
      = (Inr (n, b', a'), m\<lparr>mm_next := k, mm_live := a' # L\<rparr>)
    \<and> wron_inv b' \<and> contents b' = contents b @ c \<and> a' \<notin> set L \<and> mem_ok (m\<lparr>mm_next := k, mm_live := a' # L\<rparr>)"
proof -
  have len: "unat (word_of_nat (length c) :: size_t) = length c"
    using assms(2) by (intro unat_word_of_nat64) simp
  obtain b' where b': "WRONBuffer_write junk b c (word_of_nat (length c)) = Inr (word_of_nat (length c), b')"
      "wron_inv b'" "contents b' = contents b @ c"
    using WRONBuffer_write_step [OF assms(1), of "word_of_nat (length c)" c junk] assms(2) len by auto
  have fresh: "mm_next m \<notin> set (a # L)"
    using assms(3,4) by (auto simp: mem_ok_def list_all_iff)
  show ?thesis
  proof (cases "wr_pos b + word_of_nat (length c) > wr_size b")
    case True
    have "mem_delete a (snd (mem_new m)) = m\<lparr>mm_next := mm_next m + 1, mm_live := mm_next m # L\<rparr>"
      using assms(4,5) fresh by (simp add: mem_new_def mem_delete_def)
    then show ?thesis
      using True b' fresh mem_ok_delete [OF mem_ok_new [OF assms(3)], of a]
      by (intro exI) (auto simp: WRONBuffer_write_mem_def mem_new_def)
  next
    case False
    have "m\<lparr>mm_next := mm_next m, mm_live := a # L\<rparr> = m"
      using assms(4) by (metis mem.surjective mem.update_convs(1,2))
    then show ?thesis
      using False b' assms(3,5) by (intro exI [of _ "word_of_nat (length c)"] exI [of _ b'] exI [of _ a] exI [of _ "mm_next m"])
        (simp add: WRONBuffer_write_mem_def)
  qed
qed

lemma writes_own:
  "wron_inv b \<Longrightarrow> length (contents b @ concat cs) < 2 ^ 31 \<Longrightarrow> mem_ok m \<Longrightarrow> mm_live m = a # L \<Longrightarrow> a \<notin> set L \<Longrightarrow>
    \<exists>b' a' k. WRONBuffer_writes junk cs (b, a) m = (Inr (b', a'), m\<lparr>mm_next := k, mm_live := a' # L\<rparr>)
      \<and> contents b' = contents b @ concat cs \<and> a' \<notin> set L"
proof (induction cs arbitrary: b a m)
  case Nil
  then have "m\<lparr>mm_next := mm_next m, mm_live := a # L\<rparr> = m"
    by (metis mem.surjective mem.update_convs(1,2))
  then show ?case
    using Nil by (intro exI [of _ b] exI [of _ a] exI [of _ "mm_next m"]) simp
next
  case (Cons c cs)
  have "unat (wr_pos b) + length c < 2 ^ 31"
    using Cons.prems(1,2) length_contents [OF Cons.prems(1)] by simp
  from write_owns [OF Cons.prems(1) this Cons.prems(3-5), of junk]
  obtain n b1 a1 k where one: "WRONBuffer_write_mem junk c (word_of_nat (length c)) (b, a) m
      = (Inr (n, b1, a1), m\<lparr>mm_next := k, mm_live := a1 # L\<rparr>)" "wron_inv b1" "contents b1 = contents b @ c" "a1 \<notin> set L"
      "mem_ok (m\<lparr>mm_next := k, mm_live := a1 # L\<rparr>)"
    by blast
  show ?case
    using Cons.IH [OF one(2) _ one(5) _ one(4)] Cons.prems(2) one(1,3) by auto
qed

section \<open>Properties\<close>

text \<open>
  (C16) What a server allocates for the messages it answers: every request's JSON value is deleted exactly
  once if the compiler elides the move of the request, and once more, wrongly, for every move it
  makes; the value of a message that is JSON but no request is never deleted, so that a client
  can use up the server's memory. The replies are those of the model without the store.
\<close>
theorem server_json_memory:
  assumes "mem_ok m" "replies_mem J serve moves ms sv m = Some (ts, sv', m')"
  shows "replies J serve ms sv = Some (ts, sv')
    \<and> (\<exists>leaked. mm_live m' = leaked @ mm_live m \<and> length leaked = length (filter (is_leaked J) ms))
    \<and> mm_bad m' = mm_bad m + moves * length (filter (is_request J) ms)"
  using replies_balance [OF assms] by blast

text \<open>
  (C29) What a client allocates for a response that can be read: the void call deletes it in every case, whether it
  returns or throws, and the typed call in every case but one, that the deserializer throws on the result.
  Nothing is deleted twice.
\<close>
theorem client_json_memory:
  assumes "mem_ok m" "parse_result J decode response = r" "\<forall>f. r \<noteq> Faults f" "r \<noteq> Waits"
  shows "\<exists>m'. parse_result_mem J decode response m = (r, m') \<and> mm_bad m' = mm_bad m
    \<and> mm_live m' = (if \<exists>j v e. parse_response J response = Returns j \<and> contain J j Result \<and> get J j Result = Some v
          \<and> decode v = Throws e then [mm_next m] else []) @ mm_live m
    \<and> (\<exists>m'. parse_void_mem J response m = (parse_void J response, m') \<and> mm_live m' = mm_live m \<and> mm_bad m' = mm_bad m)"
proof -
  have gone: "mem_delete (mm_next m) (snd (mem_new m)) = m\<lparr>mm_next := mm_next m + 1\<rparr>"
    by (rule mem_new_delete [OF assms(1)])
  have answered: "\<forall>f. parse_response J response \<noteq> Faults f" "parse_response J response \<noteq> Waits"
    using assms(2-4) by (auto simp: parse_result_def)
  have void: "\<exists>m'. parse_void_mem J response m = (parse_void J response, m') \<and> mm_live m' = mm_live m \<and> mm_bad m' = mm_bad m"
    using answered gone parse_response_balance [OF assms(1), of J response]
    by (cases "parse_response J response") (auto simp: parse_void_def parse_void_mem_def)
  show ?thesis
  proof (cases "parse_response J response")
    case (Returns j)
    then show ?thesis
      using assms(2-4) void gone parse_response_balance [OF assms(1), of J response]
      by (cases r) (auto simp: parse_result_def parse_result_mem_def mem_new_def split: if_splits option.splits)
  next
    case (Throws e)
    then show ?thesis
      using assms(2) void parse_response_balance [OF assms(1), of J response]
      by (auto simp: parse_result_def parse_result_mem_def)
  qed (use assms(2-4) in \<open>auto simp: parse_result_def\<close>)
qed

text \<open>A request, a message that is the JSON null, one that is no JSON, and an empty one.\<close>

definition empty_mem :: mem where
  "empty_mem = \<lparr>mm_next = 0, mm_live = [], mm_bad = 0\<rparr>"

definition four_messages :: "bytes list" where
  "four_messages = [sample_request, ''n'', ''?'', []]"

lemma four_replies:
  "map_option (\<lambda>(ts, sv, m). (length ts, sv_object sv, mm_live m))
     (replies_mem json_api on_request 1 four_messages sample_service empty_mem) = Some (4, 1, [2])"
  by code_simp

theorem server_json_memory_witness:
  "\<exists>ts sv m. replies json_api on_request four_messages sample_service = Some (ts, sv)
     \<and> replies_mem json_api on_request 1 four_messages sample_service empty_mem = Some (ts, sv, m) \<and> mm_bad m = 1"
proof -
  obtain ts sv m where run: "replies_mem json_api on_request 1 four_messages sample_service empty_mem = Some (ts, sv, m)"
    using four_replies by auto
  have "length (filter (is_request json_api) four_messages) = 1"
    by code_simp
  moreover have "mem_ok empty_mem" "mm_bad empty_mem = 0"
    by (simp_all add: mem_ok_def empty_mem_def)
  ultimately show ?thesis
    using server_json_memory [OF _ run] run by simp
qed

theorem client_json_memory_witness:
  "\<exists>m. parse_result_mem json_api (\<lambda>v. Throws SerializeFailException :: (exn, unit) outcome)
       (build_response json_api \<lparr>sout = JInt 7\<rparr>) empty_mem = (Throws SerializeFailException, m) \<and> mm_live m = [0]"
proof -
  let ?r = "build_response json_api \<lparr>sout = JInt 7\<rparr>"
  obtain j where j: "parse_response json_api ?r = Returns j" "contain json_api j Result" "get json_api j Result = Some (JInt 7)"
    using parse_build_response [OF json_api_laws, of "\<lparr>sout = JInt 7\<rparr>"] by (auto simp: json_api_def)
  have "parse_result json_api (\<lambda>v. Throws SerializeFailException :: (exn, unit) outcome) ?r = Throws SerializeFailException"
    by (simp add: parse_result_response [OF json_api_laws])
  from client_json_memory [OF _ this, of empty_mem] show ?thesis
    using j by (auto simp: mem_ok_def empty_mem_def)
qed

text \<open>
  The arrays of the buffers: whatever chunks a message comes in, the array of \<open>WRONBuffer\<close> grows by a new
  one for which the old one is deleted, and the destructor deletes the last; the store is as
  before, and the buffer held the message until then. The same for the array of \<open>SizedRDONBuffer\<close>.
\<close>
theorem buffer_memory:
  assumes "mem_ok m" "length (concat cs) < 2 ^ 31" "msg \<noteq> []" "length msg < 2 ^ 31"
  shows "(\<exists>ba m' n. WRONBuffer_writes junk cs (fst (WRONBuffer_mem junk m)) (snd (WRONBuffer_mem junk m)) = (Inr ba, m')
      \<and> contents (fst ba) = concat cs \<and> WRONBuffer_destroy ba m' = m\<lparr>mm_next := n\<rparr>)
    \<and> (\<exists>ba m'. SizedRDONBuffer_mem junk (c_str msg) (size_as_int msg) m = (Inr ba, m')
      \<and> unread (fst ba) = frame msg \<and> SizedRDONBuffer_destroy ba m' = m\<lparr>mm_next := mm_next m + 1\<rparr>)"
proof
  let ?m = "snd (mem_new m)"
  have new: "mem_ok ?m" "mm_live ?m = mm_next m # mm_live m" "mm_next m \<notin> set (mm_live m)"
    using assms(1) by (auto simp: mem_ok_new) (auto simp: mem_new_def mem_ok_def list_all_iff)
  obtain b a k where b: "WRONBuffer_writes junk cs (WRONBuffer junk, mm_next m) ?m
      = (Inr (b, a), ?m\<lparr>mm_next := k, mm_live := a # mm_live m\<rparr>)" "contents b = concat cs" "a \<notin> set (mm_live m)"
    using writes_own [OF wron_inv_new _ new, of junk cs junk] assms(2) by auto
  then have "WRONBuffer_destroy (b, a) (?m\<lparr>mm_next := k, mm_live := a # mm_live m\<rparr>) = m\<lparr>mm_next := k\<rparr>"
    by (simp add: WRONBuffer_destroy_def mem_delete_def mem_new_def)
  then show "\<exists>ba m' n. WRONBuffer_writes junk cs (fst (WRONBuffer_mem junk m)) (snd (WRONBuffer_mem junk m)) = (Inr ba, m')
      \<and> contents (fst ba) = concat cs \<and> WRONBuffer_destroy ba m' = m\<lparr>mm_next := n\<rparr>"
    using b by (intro exI [of _ "(b, a)"] exI [of _ "?m\<lparr>mm_next := k, mm_live := a # mm_live m\<rparr>"] exI [of _ k])
      (simp add: WRONBuffer_mem_def mem_new_def)
  obtain r where "SizedRDONBuffer junk (c_str msg) (size_as_int msg) = Inr r" "unread r = frame msg"
    using SizedRDONBuffer_frame [OF assms(3,4)] by metis
  then show "\<exists>ba m'. SizedRDONBuffer_mem junk (c_str msg) (size_as_int msg) m = (Inr ba, m')
      \<and> unread (fst ba) = frame msg \<and> SizedRDONBuffer_destroy ba m' = m\<lparr>mm_next := mm_next m + 1\<rparr>"
    using mem_new_delete [OF assms(1)] by (simp add: SizedRDONBuffer_mem_def SizedRDONBuffer_destroy_def mem_new_def)
qed

theorem buffer_memory_witness:
  "\<exists>ba m' n. WRONBuffer_writes (\<lambda>_. NUL) [''ab'', ''c''] (fst (WRONBuffer_mem (\<lambda>_. NUL) empty_mem)) (snd (WRONBuffer_mem (\<lambda>_. NUL) empty_mem))
      = (Inr ba, m') \<and> contents (fst ba) = ''abc'' \<and> WRONBuffer_destroy ba m' = empty_mem\<lparr>mm_next := n\<rparr>"
  using buffer_memory [of empty_mem "[''ab'', ''c'']" "''x''" "\<lambda>_. NUL", THEN conjunct1]
  by (simp add: mem_ok_def empty_mem_def)

end
