(* ===== verification/Stubgen.thy ===== *)
theory Stubgen
  imports CppWriter
begin

text \<open>
  stubgen.cpp: the \<open>main\<close> of stubgen, with its arguments, the file \<open>load\<close> of JConer reads (the
  value, or the text of the error), the file system it writes to and what it sends to
  \<open>std::cerr\<close>. The result is the exit code, or the fault that ends the process.
\<close>

section \<open>main\<close>

definition usage :: "string \<Rightarrow> string" where
  "usage progname = ''./'' @ progname @ '' spec.json'' @ nl"

definition see_grammar :: string where
  "see_grammar = ''please check out the grammar at file [stubgrammar]'' @ nl"

text \<open>The test for a grammar error; a missing member is a null pointer.\<close>

definition grammar_error :: "'j jconer \<Rightarrow> 'j \<Rightarrow> bool" where
  "grammar_error J spec \<longleftrightarrow>
     (case get J spec ''namespace'' of None \<Rightarrow> True | Some spacename \<Rightarrow> \<not> isString J spacename) \<or>
     (case get J spec ''classes'' of None \<Rightarrow> False | Some classes \<Rightarrow> \<not> isObject J classes) \<or>
     (case get J spec ''service'' of None \<Rightarrow> True | Some service \<Rightarrow> \<not> isArray J service)"

fun read_classes :: "'j jconer \<Rightarrow> 'j \<Rightarrow> string list \<Rightarrow> classdef list \<Rightarrow> fault + classdef list" where
  "read_classes J classes [] classdefs = Inr classdefs"
| "read_classes J classes (k # ks) classdefs =
     (case ClassDef_from_json J k (get J classes k) of
        Inl e \<Rightarrow> Inl e
      | Inr d \<Rightarrow> read_classes J classes ks (classdefs @ [d]))"

definition stubgen_main ::
  "'j jconer \<Rightarrow> externs \<Rightarrow> (string \<Rightarrow> string + 'j) \<Rightarrow> (string \<Rightarrow> bool) \<Rightarrow> string list \<Rightarrow> (string \<rightharpoonup> string) \<Rightarrow>
   fault + int \<times> string \<times> (string \<rightharpoonup> string)" where
  "stubgen_main J X load opens argv files =
     (if length argv \<noteq> 2
      then (case argv of [] \<Rightarrow> Inl NullDeref | progname # _ \<Rightarrow> Inr (-1, usage progname, files))
      else
        (case load (argv ! 1) of
           Inl err \<Rightarrow> Inr (-1, ''Json file parsing error'' @ nl @ err @ nl, files)
         | Inr spec \<Rightarrow>
             if \<not> isObject J spec then Inr (-1, ''Spec json has to be an object'' @ nl @ see_grammar, files)
             else if grammar_error J spec then Inr (-1, ''Grammar error'' @ nl @ see_grammar, files)
             else
               (let service_name = getString J (the (get J spec ''namespace'')) in
                case (case get J spec ''classes'' of
                        None \<Rightarrow> Inr []
                      | Some classes \<Rightarrow> read_classes J classes (getKeys J classes) []) of
                  Inl e \<Rightarrow> Inl e
                | Inr classdefs \<Rightarrow>
                    (case ServiceDef_from_json J service_name (the (get J spec ''service'')) of
                       Inl e \<Rightarrow> Inl e
                     | Inr servicedef \<Rightarrow>
                         (case CppWriter_write X service_name classdefs servicedef opens files of
                            Inl e \<Rightarrow> Inl e
                          | Inr files' \<Rightarrow> Inr (0, [], files'))))))"

section \<open>What a specification says\<close>

definition spec_name :: "'j jconer \<Rightarrow> 'j \<Rightarrow> string" where
  "spec_name J spec = getString J (the (get J spec ''namespace''))"

text \<open>The classes, each with its name and its value.\<close>

definition spec_classes :: "'j jconer \<Rightarrow> 'j \<Rightarrow> (string \<times> 'j) list" where
  "spec_classes J spec =
     (case get J spec ''classes'' of
        None \<Rightarrow> []
      | Some classes \<Rightarrow> map (\<lambda>k. (k, the (get J classes k))) (getKeys J classes))"

definition spec_items :: "'j jconer \<Rightarrow> 'j \<Rightarrow> 'j list" where
  "spec_items J spec = items J (the (get J spec ''service''))"

definition class_of :: "'j jconer \<Rightarrow> string \<times> 'j \<Rightarrow> classdef" where
  "class_of J kv = \<lparr>cd_name = fst kv, cd_members = texts_of J (snd kv)\<rparr>"

definition service_of :: "'j jconer \<Rightarrow> 'j \<Rightarrow> servicedef" where
  "service_of J spec =
     \<lparr>sd_name = spec_name J spec, sd_functions = map (function_of J (spec_name J spec)) (spec_items J spec)\<rparr>"

definition spec_ok :: "'j jconer \<Rightarrow> 'j \<Rightarrow> bool" where
  "spec_ok J spec \<longleftrightarrow> list_all (\<lambda>kv. isObject J (snd kv)) (spec_classes J spec)
     \<and> list_all (wf_function J) (spec_items J spec)"

lemma read_classes_exact:
  assumes "stub_laws J" "\<forall>k\<in>set ks. get J classes k \<noteq> None"
  shows "read_classes J classes ks ds =
     (if list_all (\<lambda>k. isObject J (the (get J classes k))) ks
      then Inr (ds @ map (\<lambda>k. class_of J (k, the (get J classes k))) ks) else Inl AssertFailed)"
  using assms(2)
proof (induction ks arbitrary: ds)
  case (Cons k ks)
  then obtain v where "get J classes k = Some v"
    by auto
  then show ?case
    using Cons assms(1) by (simp add: ClassDef_from_json_exact stub_laws_def class_of_def)
qed simp

section \<open>Properties\<close>

text \<open>
  (C24) What stubgen does with a file that loads: a value that breaks the grammar gives exit
  code -1, a message and no file; a class that is not an object, or a function that is not well
  formed, ends the process at an assertion; otherwise it writes the one file
  \<open><namespace>CppStub.hpp\<close> with the stubs of the classes, in the order of their keys, and of the
  functions, in the order of the array, and returns 0; also when the file could not be opened.
\<close>
theorem stubgen_exact:
  assumes "stub_laws J" "load spec_filename = Inr spec"
  shows "stubgen_main J X load opens [progname, spec_filename] files =
    (if \<not> isObject J spec then Inr (-1, ''Spec json has to be an object'' @ nl @ see_grammar, files)
     else if grammar_error J spec then Inr (-1, ''Grammar error'' @ nl @ see_grammar, files)
     else if \<not> spec_ok J spec then Inl AssertFailed
     else (case stub_text X (spec_name J spec) (map (class_of J) (spec_classes J spec)) (service_of J spec) of
             Inl e \<Rightarrow> Inl e
           | Inr out \<Rightarrow> Inr (0, [],
               if opens (spec_name J spec @ ''CppStub.hpp'')
               then files(spec_name J spec @ ''CppStub.hpp'' \<mapsto> out) else files)))"
proof -
  have found: "\<forall>k\<in>set (getKeys J v). get J v k \<noteq> None" for v
    using assms(1) by (simp add: stub_laws_def keys_found_def list_all_iff)
  have classes: "(case get J spec ''classes'' of
        None \<Rightarrow> Inr [] | Some classes \<Rightarrow> read_classes J classes (getKeys J classes) []) =
      (if list_all (\<lambda>kv. isObject J (snd kv)) (spec_classes J spec)
       then Inr (map (class_of J) (spec_classes J spec)) else Inl AssertFailed)"
    using read_classes_exact [OF assms(1) found]
    by (auto simp: spec_classes_def list.pred_map comp_def split: option.split)
  show ?thesis
  proof (cases "isObject J spec \<and> \<not> grammar_error J spec")
    case True
    then have "stubgen_main J X load opens [progname, spec_filename] files =
      (if \<not> spec_ok J spec then Inl AssertFailed
       else (case CppWriter_write X (spec_name J spec) (map (class_of J) (spec_classes J spec)) (service_of J spec) opens files of
               Inl e \<Rightarrow> Inl e | Inr files' \<Rightarrow> Inr (0, [], files')))"
      using assms(2) by (simp add: stubgen_main_def classes service_from_json_exact [OF assms(1)] spec_name_def
          spec_ok_def spec_items_def service_of_def Let_def)
    then show ?thesis
      using True by (simp add: CppWriter_write_def get_filename_def split: sum.split)
  qed (use assms(2) in \<open>auto simp: stubgen_main_def\<close>)
qed

text \<open>The README's specification, whose keys come in another order.\<close>

definition readme_spec :: json where
  "readme_spec =
     OCons ''service'' readme_service
       (OCons ''classes''
          (OCons ''Rectangle'' (OCons ''to'' (JStr ''Point'') (OCons ''from'' (JStr ''Point'') ONil))
            (OCons ''Point'' (OCons ''y'' (JStr ''string'') (OCons ''x'' (JStr ''int'') ONil)) ONil))
          (OCons ''namespace'' (JStr ''Demo'') ONil))"

definition readme_classes :: "classdef list" where
  "readme_classes = [\<lparr>cd_name = ''Point'', cd_members = [(''x'', ''int''), (''y'', ''string'')]\<rparr>,
     \<lparr>cd_name = ''Rectangle'', cd_members = [(''from'', ''Point''), (''to'', ''Point'')]\<rparr>]"

definition tiny_externs :: externs where
  "tiny_externs = \<lparr>ex_toupper = id, ex_itos = decimal, ex_hash = (\<lambda>s. word_of_nat (length s))\<rparr>"

theorem stubgen_exact_witness:
  "\<exists>out. stub_text tiny_externs ''Demo'' readme_classes \<lparr>sd_name = ''Demo'', sd_functions = [say_hello, random_number]\<rparr>
      = Inr out
    \<and> stubgen_main json_api tiny_externs (\<lambda>file. Inr readme_spec) (\<lambda>file. True) [''stubgen'', ''spec.json''] Map.empty
      = Inr (0, [], [''DemoCppStub.hpp'' \<mapsto> out])"
proof -
  have "\<exists>out. stub_text tiny_externs ''Demo'' readme_classes
      \<lparr>sd_name = ''Demo'', sd_functions = [say_hello, random_number]\<rparr> = Inr out"
    by (simp add: stub_text_def write_protocol_def say_hello_def random_number_def tiny_externs_def enum_value_def Let_def)
  moreover have "spec_ok json_api readme_spec" "\<not> grammar_error json_api readme_spec"
    "json_isObject readme_spec" "spec_name json_api readme_spec = ''Demo''"
    "map (class_of json_api) (spec_classes json_api readme_spec) = readme_classes"
    "service_of json_api readme_spec = \<lparr>sd_name = ''Demo'', sd_functions = [say_hello, random_number]\<rparr>"
    by (simp_all add: spec_ok_def spec_classes_def spec_items_def readme_spec_def readme_service_def items_def
        json_api_def wf_function_def grammar_error_def spec_name_def class_of_def readme_classes_def texts_of_def
        smap_of_def service_of_def function_of_def say_hello_def random_number_def Let_def)
  ultimately show ?thesis
    using stubgen_exact [OF json_api_stub_laws, of "\<lambda>file. Inr readme_spec" "''spec.json''" readme_spec
        tiny_externs "\<lambda>file. True" "''stubgen''" Map.empty]
    by (auto simp: json_api_def)
qed

text \<open>
  Whatever it is given, stubgen that ends returns -1 or 0: with -1 it has written a
  message and no file, with 0 no message, and no file but the one named after the namespace
  has changed.
\<close>
theorem stubgen_safe:
  assumes "stubgen_main J X load opens argv files = Inr (r, err, files')"
  shows "r = -1 \<and> err \<noteq> [] \<and> files' = files
    \<or> r = 0 \<and> err = [] \<and> (\<exists>spec. load (argv ! 1) = Inr spec
        \<and> (\<forall>file. file \<noteq> spec_name J spec @ ''CppStub.hpp'' \<longrightarrow> files' file = files file))"
proof (cases "length argv = 2")
  case False
  then show ?thesis
    using assms by (cases argv) (auto simp: stubgen_main_def usage_def)
next
  case True
  show ?thesis
  proof (cases "load (argv ! 1)")
    case (Inr spec)
    then show ?thesis
      using assms True
      by (auto simp: stubgen_main_def Let_def CppWriter_write_def get_filename_def spec_name_def
          split: if_splits option.splits sum.splits)
  qed (use assms True in \<open>auto simp: stubgen_main_def\<close>)
qed

theorem stubgen_safe_witness:
  "stubgen_main json_api tiny_externs (\<lambda>file. Inr ONil) (\<lambda>file. True) [''stubgen'', ''spec.json''] Map.empty
    = Inr (-1, ''Grammar error'' @ nl @ see_grammar, Map.empty)"
proof -
  let ?main = "stubgen_main json_api tiny_externs (\<lambda>file. Inr ONil) (\<lambda>file. True) [''stubgen'', ''spec.json''] Map.empty"
  have "?main = Inr (-1, ''Grammar error'' @ nl @ see_grammar, Map.empty)"
    by (simp add: stubgen_main_def grammar_error_def json_api_def)
  with stubgen_safe [OF this] show ?thesis
    by simp
qed

end
